(* ===== verification/Prelude.thy ===== *)
theory Prelude
  imports Main "HOL-Library.Word"
begin

text \<open>
  Shared material of the GateForge development: Go's 64-bit integers with their wrap-around
  written out, Go's instants and durations (package \<open>time\<close>), structured log records
  (package \<open>log/slog\<close>), the outcome of a Go call that may panic, and the two generic
  interfaces of a state machine, one for deterministic operations and one for step relations.
\<close>

section \<open>Theorem collections\<close>

named_theorems go_int \<open>wrap-around and range facts of Go integers\<close>
named_theorems go_time \<open>facts about instants and durations\<close>

section \<open>Go integers\<close>

text \<open>
  \<open>int\<close> and \<open>int64\<close> are 64-bit two's complement on the platforms the gateway is built for.
  A value is an HOL \<open>int\<close> in the range below and an arithmetic result is wrapped into it.
\<close>

definition min_int64 :: int where
  "min_int64 = - (2 ^ 63)"

definition max_int64 :: int where
  "max_int64 = 2 ^ 63 - 1"

definition in_int64 :: "int \<Rightarrow> bool" where
  "in_int64 x \<longleftrightarrow> min_int64 \<le> x \<and> x \<le> max_int64"

definition wrap64 :: "int \<Rightarrow> int" where
  "wrap64 x = (x + 2 ^ 63) mod 2 ^ 64 - 2 ^ 63"

lemma wrap64_id [simp, go_int]: "in_int64 x \<Longrightarrow> wrap64 x = x"
  by (simp add: wrap64_def in_int64_def min_int64_def max_int64_def)

lemma wrap64_in_range [simp, go_int]: "in_int64 (wrap64 x)"
proof -
  have "0 \<le> (x + 2 ^ 63) mod 2 ^ 64" and "(x + 2 ^ 63) mod 2 ^ 64 < 2 ^ 64"
    by simp_all
  then show ?thesis
    by (simp add: wrap64_def in_int64_def min_int64_def max_int64_def)
qed

lemma wrap64_idem [simp, go_int]: "wrap64 (wrap64 x) = wrap64 x"
  by (rule wrap64_id) (rule wrap64_in_range)

lemma wrap64_add_left [go_int]: "wrap64 (wrap64 x + y) = wrap64 (x + y)"
proof -
  have "(wrap64 x + y + 2 ^ 63) mod 2 ^ 64 = ((x + 2 ^ 63) mod 2 ^ 64 + y) mod 2 ^ 64"
    by (simp add: wrap64_def)
  also have "\<dots> = (x + y + 2 ^ 63) mod 2 ^ 64"
    by (simp only: mod_add_left_eq) (simp add: ac_simps)
  finally show ?thesis by (simp add: wrap64_def)
qed

lemma in_int64_0 [simp, go_int]: "in_int64 0"
  by (simp add: in_int64_def min_int64_def max_int64_def)

lemma in_int64_between: "in_int64 a \<Longrightarrow> in_int64 b \<Longrightarrow> a \<le> x \<Longrightarrow> x \<le> b \<Longrightarrow> in_int64 x"
  by (simp add: in_int64_def)

section \<open>Instants and durations\<close>

text \<open>
  An instant (\<open>time.Time\<close>) is the number of nanoseconds since Go's zero time, 1 January of
  year 1, UTC. A duration (\<open>time.Duration\<close>) is an \<open>int64\<close> number of nanoseconds.
  \<open>Time.Sub\<close> saturates at the ends of the duration range, as the Go library documents.
\<close>

type_synonym Time = int
type_synonym Duration = int

definition zero_time :: Time where
  "zero_time = 0"

definition time_Nanosecond :: Duration where
  "time_Nanosecond = 1"

definition time_Second :: Duration where
  "time_Second = 1000000000"

definition time_Minute :: Duration where
  "time_Minute = 60 * time_Second"

definition Time_Sub :: "Time \<Rightarrow> Time \<Rightarrow> Duration" where
  "Time_Sub t u = max min_int64 (min max_int64 (t - u))"

definition Time_Add :: "Time \<Rightarrow> Duration \<Rightarrow> Time" where
  "Time_Add t d = t + d"

definition Time_After :: "Time \<Rightarrow> Time \<Rightarrow> bool" where
  "Time_After t u \<longleftrightarrow> t > u"

definition Time_Before :: "Time \<Rightarrow> Time \<Rightarrow> bool" where
  "Time_Before t u \<longleftrightarrow> t < u"

definition unix_epoch_seconds :: int where
  "unix_epoch_seconds = 62135596800"

definition Time_Unix :: "Time \<Rightarrow> int" where
  "Time_Unix t = t div time_Second - unix_epoch_seconds"

definition Duration_neg :: "Duration \<Rightarrow> Duration" where
  "Duration_neg d = wrap64 (- d)"

lemma Time_Sub_exact [go_time]: "in_int64 (t - u) \<Longrightarrow> Time_Sub t u = t - u"
  by (auto simp: Time_Sub_def in_int64_def)

lemma Time_Sub_in_range [go_time]: "in_int64 (Time_Sub t u)"
  by (auto simp: Time_Sub_def in_int64_def min_int64_def max_int64_def)

text \<open>Saturation never changes a comparison with a duration below the largest one.\<close>

lemma Time_Sub_greater [go_time]:
  assumes "in_int64 d" and "d < max_int64"
  shows "Time_Sub t u > d \<longleftrightarrow> t - u > d"
  using assms by (auto simp: Time_Sub_def in_int64_def)

lemma Time_Sub_mono: "t \<le> t' \<Longrightarrow> Time_Sub t u \<le> Time_Sub t' u"
  by (auto simp: Time_Sub_def)

lemma Time_Sub_nonneg [go_time]: "u \<le> t \<Longrightarrow> 0 \<le> Time_Sub t u"
  by (simp add: Time_Sub_def min_int64_def max_int64_def)

lemma Duration_neg_small [simp, go_time]: "in_int64 d \<Longrightarrow> d \<noteq> min_int64 \<Longrightarrow> Duration_neg d = - d"
  by (simp add: Duration_neg_def in_int64_def min_int64_def max_int64_def)

section \<open>Structured log records\<close>

datatype LogLevel = LevelDebug | LevelInfo | LevelWarn | LevelError

datatype Attr = AString string | AInt int | ADuration Duration

record LogRecord =
  level :: LogLevel
  msg :: string
  attrs :: "(string \<times> Attr) list"

definition log_record :: "LogLevel \<Rightarrow> string \<Rightarrow> (string \<times> Attr) list \<Rightarrow> LogRecord" where
  "log_record l m as = \<lparr>level = l, msg = m, attrs = as\<rparr>"

section \<open>Deterministic machines and step relations\<close>

text \<open>
  A component whose operations are functions of its state keeps an invariant when every
  operation does; so does a run of operations.
\<close>

locale operations =
  fixes step :: "'e \<Rightarrow> 's \<Rightarrow> 's"
    and inv :: "'s \<Rightarrow> bool"
  assumes inv_step: "inv s \<Longrightarrow> inv (step e s)"
begin

lemma inv_run: "inv s \<Longrightarrow> inv (fold step es s)"
  by (induction es arbitrary: s) (auto intro: inv_step)

end

text \<open>
  A component with interleaved or environment-chosen steps is a relation; its reachable states
  are those related to an initial one by the reflexive-transitive closure.
\<close>

locale step_system =
  fixes init :: "'s \<Rightarrow> bool"
    and step :: "'s \<Rightarrow> 's \<Rightarrow> bool"
    and inv :: "'s \<Rightarrow> bool"
  assumes inv_init: "init s \<Longrightarrow> inv s"
    and inv_kept: "inv s \<Longrightarrow> step s t \<Longrightarrow> inv t"
begin

lemma inv_steps: "step\<^sup>*\<^sup>* s t \<Longrightarrow> inv s \<Longrightarrow> inv t"
  by (induction rule: rtranclp_induct) (auto intro: inv_kept)

lemma inv_reachable: "init s \<Longrightarrow> step\<^sup>*\<^sup>* s t \<Longrightarrow> inv t"
  by (rule inv_steps) (auto intro: inv_init)

end

end
