(* ===== verification/Circuit.thy ===== *)
theory Circuit
  imports Prelude
begin

text \<open>
  The circuit breaker, \<open>internal/circuit/state.go\<close> and \<open>internal/circuit/breaker.go\<close>.
  Each critical section of the Go code (a method body under \<open>cb.mu\<close>) is one function on the
  record \<open>CircuitBreaker\<close>; every \<open>time.Now()\<close> inside it is an argument. \<open>Execute\<close>
  composes them around the protected call, which may return, return an error, or panic. How
  the critical sections of concurrent calls interleave is the subject of
  \<open>Circuit_Interleaving\<close>.
\<close>

section \<open>State and configuration\<close>

text \<open>\<open>type State int\<close>: the three named constants, and every other integer.\<close>

datatype State = StateClosed | StateOpen | StateHalfOpen | StateOther int

definition State_int :: "State \<Rightarrow> int" where
  "State_int s = (case s of StateClosed \<Rightarrow> 0 | StateOpen \<Rightarrow> 1 | StateHalfOpen \<Rightarrow> 2
     | StateOther n \<Rightarrow> n)"

definition State_String :: "State \<Rightarrow> string" where
  "State_String s = (case s of
       StateClosed \<Rightarrow> ''closed''
     | StateOpen \<Rightarrow> ''open''
     | StateHalfOpen \<Rightarrow> ''half-open''
     | StateOther _ \<Rightarrow> ''unknown'')"

record BreakerConfig =
  FailureThreshold :: int
  ResetTimeout :: Duration
  HalfOpenMaxReqs :: int
  FailureWindow :: Duration

definition DefaultBreakerConfig :: BreakerConfig where
  "DefaultBreakerConfig =
     \<lparr>FailureThreshold = 5, ResetTimeout = 30 * time_Second, HalfOpenMaxReqs = 3,
      FailureWindow = 60 * time_Second\<rparr>"

datatype error = ErrCircuitOpen | FnError string

record BreakerStats =
  sState :: State
  sTotalRequests :: int
  sTotalFailures :: int
  sConsecutiveFails :: int
  sLastFailure :: Time
  sLastSuccess :: Time
  sLastStateChange :: Time

text \<open>
  \<open>logger\<close> says whether the \<open>*slog.Logger\<close> is non-nil; \<open>logged\<close> is what was written
  to it.
\<close>

record CircuitBreaker =
  config :: BreakerConfig
  logger :: bool
  state :: State
  consecutiveFails :: int
  totalRequests :: int
  totalFailures :: int
  halfOpenReqs :: int
  lastFailure :: Time
  lastSuccess :: Time
  lastStateChange :: Time
  failures :: "Time list"
  logged :: "LogRecord list"

definition NewBreaker :: "BreakerConfig \<Rightarrow> bool \<Rightarrow> Time \<Rightarrow> CircuitBreaker" where
  "NewBreaker cfg lg now =
     \<lparr>config = cfg, logger = lg, state = StateClosed, consecutiveFails = 0, totalRequests = 0,
      totalFailures = 0, halfOpenReqs = 0, lastFailure = zero_time, lastSuccess = zero_time,
      lastStateChange = now, failures = [], logged = []\<rparr>"

section \<open>Operations\<close>

definition transition_log :: "State \<Rightarrow> State \<Rightarrow> int \<Rightarrow> LogRecord list" where
  "transition_log newState oldState fails = (case newState of
       StateOpen \<Rightarrow> [log_record LevelWarn ''circuit breaker opened''
         [(''from'', AString (State_String oldState)), (''failures'', AInt fails)]]
     | StateClosed \<Rightarrow> [log_record LevelInfo ''circuit breaker closed''
         [(''from'', AString (State_String oldState))]]
     | StateHalfOpen \<Rightarrow> [log_record LevelInfo ''circuit breaker half-open''
         [(''from'', AString (State_String oldState))]]
     | StateOther _ \<Rightarrow> [])"

definition transitionTo :: "Time \<Rightarrow> State \<Rightarrow> CircuitBreaker \<Rightarrow> CircuitBreaker" where
  "transitionTo now newState cb =
     (let oldState = state cb;
          cb = cb\<lparr>state := newState, lastStateChange := now\<rparr>
      in if logger cb
         then cb\<lparr>logged := logged cb @ transition_log newState oldState (consecutiveFails cb)\<rparr>
         else cb)"

text \<open>\<open>now\<close> is read at entry, \<open>now'\<close> by \<open>transitionTo\<close>.\<close>

definition beforeRequest :: "Time \<Rightarrow> Time \<Rightarrow> CircuitBreaker \<Rightarrow> error option \<times> CircuitBreaker" where
  "beforeRequest now now' cb = (case state cb of
       StateClosed \<Rightarrow> (None, cb)
     | StateOpen \<Rightarrow>
         if Time_Sub now (lastStateChange cb) > ResetTimeout (config cb)
         then (None, (transitionTo now' StateHalfOpen cb)\<lparr>halfOpenReqs := 0\<rparr>)
         else (Some ErrCircuitOpen, cb)
     | StateHalfOpen \<Rightarrow>
         if halfOpenReqs cb \<ge> HalfOpenMaxReqs (config cb)
         then (Some ErrCircuitOpen, cb)
         else (None, cb\<lparr>halfOpenReqs := wrap64 (halfOpenReqs cb + 1)\<rparr>)
     | StateOther _ \<Rightarrow> (None, cb))"

definition countRequest :: "CircuitBreaker \<Rightarrow> CircuitBreaker" where
  "countRequest cb = cb\<lparr>totalRequests := wrap64 (totalRequests cb + 1)\<rparr>"

definition onSuccess :: "Time \<Rightarrow> Time \<Rightarrow> CircuitBreaker \<Rightarrow> CircuitBreaker" where
  "onSuccess now now' cb =
     (let cb = cb\<lparr>lastSuccess := now, consecutiveFails := 0\<rparr>
      in if state cb = StateHalfOpen
         then (transitionTo now' StateClosed cb)\<lparr>failures := []\<rparr>
         else cb)"

text \<open>
  The window is compacted in place: \<open>cleaned := cb.failures[:0]\<close> shares the backing array
  that the loop reads. \<open>arr\<close> is that array, \<open>i\<close> the read position, \<open>k\<close> the length of
  \<open>cleaned\<close>; an append to \<open>cleaned\<close> writes position \<open>k\<close>.
\<close>

function clean_loop :: "Time \<Rightarrow> nat \<Rightarrow> nat \<Rightarrow> Time list \<Rightarrow> Time list \<times> nat" where
  "clean_loop cutoff i k arr =
     (if i < length arr
      then (let ft = arr ! i
            in if Time_After ft cutoff
               then clean_loop cutoff (Suc i) (Suc k) (arr[k := ft])
               else clean_loop cutoff (Suc i) k arr)
      else (arr, k))"
  by pat_completeness auto
termination
  by (relation "measure (\<lambda>(cutoff, i, k, arr). length arr - i)") auto

declare clean_loop.simps [simp del]

definition clean :: "Time \<Rightarrow> Time list \<Rightarrow> Time list" where
  "clean cutoff fs = (let (arr, k) = clean_loop cutoff 0 0 fs in take k arr)"

definition onFailure :: "Time \<Rightarrow> Time \<Rightarrow> CircuitBreaker \<Rightarrow> CircuitBreaker" where
  "onFailure now now' cb =
     (let cb = cb\<lparr>lastFailure := now,
                  totalFailures := wrap64 (totalFailures cb + 1),
                  consecutiveFails := wrap64 (consecutiveFails cb + 1),
                  failures := failures cb @ [now]\<rparr>;
          cutoff = Time_Add now (Duration_neg (FailureWindow (config cb)));
          cb = cb\<lparr>failures := clean cutoff (failures cb)\<rparr>
      in case state cb of
           StateClosed \<Rightarrow>
             if int (length (failures cb)) \<ge> FailureThreshold (config cb)
             then transitionTo now' StateOpen cb else cb
         | StateHalfOpen \<Rightarrow> transitionTo now' StateOpen cb
         | _ \<Rightarrow> cb)"

definition Reset :: "Time \<Rightarrow> CircuitBreaker \<Rightarrow> CircuitBreaker" where
  "Reset now cb =
     (let cb = cb\<lparr>state := StateClosed, consecutiveFails := 0, halfOpenReqs := 0,
                  failures := [], lastStateChange := now\<rparr>
      in if logger cb
         then cb\<lparr>logged := logged cb @ [log_record LevelInfo ''circuit breaker manually reset'' []]\<rparr>
         else cb)"

definition Stats :: "CircuitBreaker \<Rightarrow> BreakerStats" where
  "Stats cb = \<lparr>sState = state cb, sTotalRequests = totalRequests cb,
     sTotalFailures = totalFailures cb, sConsecutiveFails = consecutiveFails cb,
     sLastFailure = lastFailure cb, sLastSuccess = lastSuccess cb,
     sLastStateChange = lastStateChange cb\<rparr>"

text \<open>
  \<open>Execute\<close>: the guard, the request counter, the protected call on the caller's world, then
  the bookkeeping of its result. A panic of the call leaves \<open>Execute\<close> at once: there is no
  deferred bookkeeping.
\<close>

datatype FnResult = FnReturn "error option" | FnPanic string

definition Execute ::
  "Time \<times> Time \<Rightarrow> Time \<times> Time \<Rightarrow> ('w \<Rightarrow> FnResult \<times> 'w) \<Rightarrow> CircuitBreaker \<Rightarrow> 'w
     \<Rightarrow> FnResult \<times> CircuitBreaker \<times> 'w" where
  "Execute t t' fn cb w =
     (case beforeRequest (fst t) (snd t) cb of
        (Some e, cb) \<Rightarrow> (FnReturn (Some e), cb, w)
      | (None, cb) \<Rightarrow>
          (let cb = countRequest cb; (r, w) = fn w
           in case r of
                FnPanic p \<Rightarrow> (FnPanic p, cb, w)
              | FnReturn (Some e) \<Rightarrow> (FnReturn (Some e), onFailure (fst t') (snd t') cb, w)
              | FnReturn None \<Rightarrow> (FnReturn None, onSuccess (fst t') (snd t') cb, w)))"

lemmas breaker_defs = beforeRequest_def countRequest_def onSuccess_def onFailure_def
  transitionTo_def Let_def

section \<open>The in-place compaction of the failure window\<close>

lemma clean_loop_spec:
  assumes "k \<le> i" and "i \<le> length arr"
  shows "take (snd (clean_loop cutoff i k arr)) (fst (clean_loop cutoff i k arr))
           = take k arr @ filter (\<lambda>ft. ft > cutoff) (drop i arr)"
  using assms
proof (induction cutoff i k arr rule: clean_loop.induct)
  case (1 cutoff i k arr)
  show ?case
  proof (cases "i < length arr")
    case False
    then have "clean_loop cutoff i k arr = (arr, k)"
      by (subst clean_loop.simps) simp
    with False show ?thesis by simp
  next
    case i: True
    have d: "drop i arr = arr ! i # drop (Suc i) arr"
      using i by (rule Cons_nth_drop_Suc [symmetric])
    show ?thesis
    proof (cases "Time_After (arr ! i) cutoff")
      case True
      have "take (Suc k) (arr[k := arr ! i]) = take k arr @ [arr ! i]"
        using "1.prems" i by (simp add: take_Suc_conv_app_nth)
      moreover have "drop (Suc i) (arr[k := arr ! i]) = drop (Suc i) arr"
        using "1.prems" by simp
      ultimately show ?thesis
        using "1.IH"(1) [OF i refl True] "1.prems" True i
        by (simp add: clean_loop.simps [of cutoff i k arr] d Time_After_def)
    next
      case False
      then show ?thesis
        using "1.IH"(2) [OF i refl False] "1.prems" i
        by (simp add: clean_loop.simps [of cutoff i k arr] d Time_After_def)
    qed
  qed
qed

lemma clean_filter: "clean cutoff fs = filter (\<lambda>ft. ft > cutoff) fs"
  using clean_loop_spec [of 0 0 fs cutoff] by (simp add: clean_def split_beta)

section \<open>What each operation does\<close>

lemma transitionTo_fields [simp]:
  "state (transitionTo now s cb) = s"
  "lastStateChange (transitionTo now s cb) = now"
  "config (transitionTo now s cb) = config cb"
  "logger (transitionTo now s cb) = logger cb"
  "consecutiveFails (transitionTo now s cb) = consecutiveFails cb"
  "totalRequests (transitionTo now s cb) = totalRequests cb"
  "totalFailures (transitionTo now s cb) = totalFailures cb"
  "halfOpenReqs (transitionTo now s cb) = halfOpenReqs cb"
  "lastFailure (transitionTo now s cb) = lastFailure cb"
  "lastSuccess (transitionTo now s cb) = lastSuccess cb"
  "failures (transitionTo now s cb) = failures cb"
  by (simp_all add: transitionTo_def Let_def)

text \<open>The failures a failure at \<open>now\<close> leaves in the window.\<close>

definition window_after :: "Time \<Rightarrow> CircuitBreaker \<Rightarrow> Time list" where
  "window_after now cb =
     filter (\<lambda>ft. ft > now + Duration_neg (FailureWindow (config cb))) (failures cb @ [now])"

lemma onFailure_fields [simp]:
  "failures (onFailure now now' cb) = window_after now cb"
  "config (onFailure now now' cb) = config cb"
  "logger (onFailure now now' cb) = logger cb"
  "totalRequests (onFailure now now' cb) = totalRequests cb"
  "totalFailures (onFailure now now' cb) = wrap64 (totalFailures cb + 1)"
  "consecutiveFails (onFailure now now' cb) = wrap64 (consecutiveFails cb + 1)"
  "halfOpenReqs (onFailure now now' cb) = halfOpenReqs cb"
  "lastFailure (onFailure now now' cb) = now"
  "lastSuccess (onFailure now now' cb) = lastSuccess cb"
  by (auto simp: onFailure_def Let_def clean_filter window_after_def Time_Add_def
      split: State.splits)

lemma onFailure_state:
  "state (onFailure now now' cb) = (case state cb of
       StateClosed \<Rightarrow>
         if int (length (window_after now cb)) \<ge> FailureThreshold (config cb)
         then StateOpen else StateClosed
     | StateHalfOpen \<Rightarrow> StateOpen
     | s \<Rightarrow> s)"
  by (auto simp: onFailure_def Let_def clean_filter window_after_def Time_Add_def
      split: State.splits)

lemma onSuccess_fields [simp]:
  "config (onSuccess now now' cb) = config cb"
  "logger (onSuccess now now' cb) = logger cb"
  "totalRequests (onSuccess now now' cb) = totalRequests cb"
  "totalFailures (onSuccess now now' cb) = totalFailures cb"
  "consecutiveFails (onSuccess now now' cb) = 0"
  "halfOpenReqs (onSuccess now now' cb) = halfOpenReqs cb"
  "lastFailure (onSuccess now now' cb) = lastFailure cb"
  "lastSuccess (onSuccess now now' cb) = now"
  "failures (onSuccess now now' cb) = (if state cb = StateHalfOpen then [] else failures cb)"
  "state (onSuccess now now' cb) = (if state cb = StateHalfOpen then StateClosed else state cb)"
  by (simp_all add: onSuccess_def Let_def)

lemma Reset_fields [simp]:
  "config (Reset now cb) = config cb"
  "state (Reset now cb) = StateClosed"
  "failures (Reset now cb) = []"
  "halfOpenReqs (Reset now cb) = 0"
  "consecutiveFails (Reset now cb) = 0"
  "totalRequests (Reset now cb) = totalRequests cb"
  "totalFailures (Reset now cb) = totalFailures cb"
  "lastStateChange (Reset now cb) = now"
  "lastFailure (Reset now cb) = lastFailure cb"
  by (simp_all add: Reset_def Let_def)

lemma countRequest_fields [simp]:
  "config (countRequest cb) = config cb"
  "state (countRequest cb) = state cb"
  "failures (countRequest cb) = failures cb"
  "halfOpenReqs (countRequest cb) = halfOpenReqs cb"
  "consecutiveFails (countRequest cb) = consecutiveFails cb"
  "totalRequests (countRequest cb) = wrap64 (totalRequests cb + 1)"
  "totalFailures (countRequest cb) = totalFailures cb"
  "lastFailure (countRequest cb) = lastFailure cb"
  "lastStateChange (countRequest cb) = lastStateChange cb"
  by (simp_all add: countRequest_def)

lemma beforeRequest_fields [simp]:
  "config (snd (beforeRequest now now' cb)) = config cb"
  "failures (snd (beforeRequest now now' cb)) = failures cb"
  "totalRequests (snd (beforeRequest now now' cb)) = totalRequests cb"
  "totalFailures (snd (beforeRequest now now' cb)) = totalFailures cb"
  "consecutiveFails (snd (beforeRequest now now' cb)) = consecutiveFails cb"
  "lastFailure (snd (beforeRequest now now' cb)) = lastFailure cb"
  by (auto simp: beforeRequest_def split: State.splits)

lemma beforeRequest_rejected:
  "fst (beforeRequest now now' cb) \<noteq> None \<Longrightarrow>
     beforeRequest now now' cb = (Some ErrCircuitOpen, cb)"
  by (auto simp: beforeRequest_def split: State.splits if_splits)

section \<open>The invariant, and that every operation keeps it\<close>

text \<open>
  Only the three named states occur; a closed breaker holds fewer failures than the threshold
  (or none); every failure kept is younger than the window, measured from the last one; the
  half-open slots in use stay within the configured maximum.
\<close>

definition breaker_inv :: "CircuitBreaker \<Rightarrow> bool" where
  "breaker_inv cb \<longleftrightarrow>
     in_int64 (HalfOpenMaxReqs (config cb)) \<and>
     state cb \<in> {StateClosed, StateOpen, StateHalfOpen} \<and>
     (state cb = StateClosed \<longrightarrow>
        failures cb = [] \<or> int (length (failures cb)) < FailureThreshold (config cb)) \<and>
     (\<forall>ft \<in> set (failures cb). ft > lastFailure cb + Duration_neg (FailureWindow (config cb))) \<and>
     (state cb = StateHalfOpen \<longrightarrow>
        0 \<le> halfOpenReqs cb \<and> halfOpenReqs cb \<le> max 0 (HalfOpenMaxReqs (config cb)))"

datatype cb_op = OpBefore Time Time | OpCount | OpSuccess Time Time | OpFailure Time Time
  | OpReset Time

fun cb_apply :: "cb_op \<Rightarrow> CircuitBreaker \<Rightarrow> CircuitBreaker" where
  "cb_apply (OpBefore t t') cb = snd (beforeRequest t t' cb)"
| "cb_apply OpCount cb = countRequest cb"
| "cb_apply (OpSuccess t t') cb = onSuccess t t' cb"
| "cb_apply (OpFailure t t') cb = onFailure t t' cb"
| "cb_apply (OpReset t) cb = Reset t cb"

lemma breaker_inv_New:
  "in_int64 (HalfOpenMaxReqs cfg) \<Longrightarrow> breaker_inv (NewBreaker cfg lg now)"
  by (simp add: breaker_inv_def NewBreaker_def)

lemma wrap64_succ_le:
  assumes "0 \<le> x" and "x < m" and "in_int64 m"
  shows "wrap64 (x + 1) = x + 1"
  using assms by (intro wrap64_id) (auto simp: in_int64_def min_int64_def)

lemma breaker_inv_before:
  assumes "breaker_inv cb"
  shows "breaker_inv (snd (beforeRequest t t' cb))"
proof (cases "state cb")
  case StateHalfOpen
  then show ?thesis
    using assms wrap64_succ_le [of "halfOpenReqs cb" "HalfOpenMaxReqs (config cb)"]
    by (auto simp: breaker_inv_def beforeRequest_def)
qed (use assms in \<open>auto simp: breaker_inv_def beforeRequest_def\<close>)

lemma breaker_inv_failure:
  assumes "breaker_inv cb"
  shows "breaker_inv (onFailure t t' cb)"
proof -
  have "\<forall>ft \<in> set (window_after t cb). ft > t + Duration_neg (FailureWindow (config cb))"
    by (simp add: window_after_def)
  with assms show ?thesis
    by (auto simp: breaker_inv_def onFailure_state)
qed

lemma breaker_inv_apply: "breaker_inv cb \<Longrightarrow> breaker_inv (cb_apply e cb)"
proof (cases e)
  case (OpBefore t t')
  then show "breaker_inv cb \<Longrightarrow> ?thesis" by (simp add: breaker_inv_before)
next
  case (OpFailure t t')
  then show "breaker_inv cb \<Longrightarrow> ?thesis" by (simp add: breaker_inv_failure)
qed (auto simp: breaker_inv_def)

interpretation breaker_ops: operations cb_apply breaker_inv
  by unfold_locales (rule breaker_inv_apply)

text \<open>One \<open>Execute\<close> is a short run of these operations.\<close>

lemma Execute_ops:
  "\<exists>es. fst (snd (Execute t t' fn cb w)) = fold cb_apply es cb \<and> set es \<inter> range OpReset = {}"
proof (cases "beforeRequest (fst t) (snd t) cb")
  case (Pair r cb1)
  show ?thesis
  proof (cases r)
    case (Some e)
    then have "fst (snd (Execute t t' fn cb w)) = fold cb_apply [OpBefore (fst t) (snd t)] cb"
      using Pair Some by (simp add: Execute_def)
    then show ?thesis by (intro exI [of _ "[OpBefore (fst t) (snd t)]"]) auto
  next
    case None
    define tail where "tail = (case fst (fn w) of FnPanic p \<Rightarrow> []
      | FnReturn (Some e) \<Rightarrow> [OpFailure (fst t') (snd t')]
      | FnReturn None \<Rightarrow> [OpSuccess (fst t') (snd t')])"
    have "fst (snd (Execute t t' fn cb w))
        = fold cb_apply ([OpBefore (fst t) (snd t), OpCount] @ tail) cb"
      using Pair None
      by (simp add: Execute_def tail_def Let_def split: FnResult.splits option.splits prod.splits)
    moreover have "set ([OpBefore (fst t) (snd t), OpCount] @ tail) \<inter> range OpReset = {}"
      by (auto simp: tail_def split: FnResult.splits option.splits)
    ultimately show ?thesis by blast
  qed
qed

lemma Execute_inv: "breaker_inv cb \<Longrightarrow> breaker_inv (fst (snd (Execute t t' fn cb w)))"
  using Execute_ops [of t t' fn cb w] by (auto intro: breaker_ops.inv_run)

section \<open>The documented state machine\<close>

text \<open>
  What the breaker promises: it trips from closed to open on a failure, moves from open to
  half-open on an admission, and leaves half-open for closed on a success and for open on a
  failure; an operator may reset it. Nothing else changes the state.
\<close>

inductive documented :: "cb_op \<Rightarrow> State \<Rightarrow> State \<Rightarrow> bool" where
  closed_admit: "documented (OpBefore t t') StateClosed StateClosed"
| stay_open: "documented (OpBefore t t') StateOpen StateOpen"
| probe: "documented (OpBefore t t') StateOpen StateHalfOpen"
| half_open: "documented (OpBefore t t') StateHalfOpen StateHalfOpen"
| count: "documented OpCount s s"
| success: "s \<noteq> StateHalfOpen \<Longrightarrow> documented (OpSuccess t t') s s"
| recover: "documented (OpSuccess t t') StateHalfOpen StateClosed"
| tolerated: "documented (OpFailure t t') StateClosed StateClosed"
| trip: "documented (OpFailure t t') StateClosed StateOpen"
| late_failure: "documented (OpFailure t t') StateOpen StateOpen"
| reopen: "documented (OpFailure t t') StateHalfOpen StateOpen"
| reset: "documented (OpReset t) s StateClosed"

inductive_cases documented_from_open: "documented e StateOpen s"
inductive_cases documented_from_half_open: "documented e StateHalfOpen s"

fun documented_trace :: "cb_op list \<Rightarrow> State list \<Rightarrow> bool" where
  "documented_trace [] [s] \<longleftrightarrow> True"
| "documented_trace (e # es) (s # s' # ss) \<longleftrightarrow> documented e s s' \<and> documented_trace es (s' # ss)"
| "documented_trace _ _ \<longleftrightarrow> False"

fun states_along :: "cb_op list \<Rightarrow> CircuitBreaker \<Rightarrow> State list" where
  "states_along [] cb = [state cb]"
| "states_along (e # es) cb = state cb # states_along es (cb_apply e cb)"

lemma apply_documented:
  assumes "state cb \<in> {StateClosed, StateOpen, StateHalfOpen}"
  shows "documented e (state cb) (state (cb_apply e cb))"
  using assms
  by (cases e; cases "state cb")
     (auto simp: beforeRequest_def onFailure_state intro: documented.intros)

lemma open_leaves_by_probe_or_reset:
  "documented e StateOpen s \<Longrightarrow> s \<noteq> StateOpen \<Longrightarrow>
     s = StateHalfOpen \<and> (\<exists>t t'. e = OpBefore t t') \<or> s = StateClosed \<and> (\<exists>t. e = OpReset t)"
  by (auto elim: documented_from_open)

lemma documented_trace_Cons:
  "documented e (state cb) (state cb') \<Longrightarrow> documented_trace es (states_along es cb') \<Longrightarrow>
     documented_trace (e # es) (state cb # states_along es cb')"
  by (cases es) auto

lemma states_along_documented:
  "breaker_inv cb \<Longrightarrow> documented_trace es (states_along es cb)"
proof (induction es arbitrary: cb)
  case Nil
  then show ?case by simp
next
  case (Cons e es)
  have "documented e (state cb) (state (cb_apply e cb))"
    by (rule apply_documented) (use Cons.prems in \<open>simp add: breaker_inv_def\<close>)
  moreover have "documented_trace es (states_along es (cb_apply e cb))"
    by (rule Cons.IH) (rule breaker_inv_apply [OF Cons.prems])
  ultimately show ?case by (simp only: states_along.simps) (rule documented_trace_Cons)
qed

section \<open>Sequences of calls\<close>

type_synonym 'w call = "(Time \<times> Time) \<times> (Time \<times> Time) \<times> ('w \<Rightarrow> FnResult \<times> 'w)"

fun exec_call :: "'w call \<Rightarrow> CircuitBreaker \<times> 'w \<Rightarrow> CircuitBreaker \<times> 'w" where
  "exec_call (t, t', fn) (cb, w) = snd (Execute t t' fn cb w)"

definition exec_seq :: "'w call list \<Rightarrow> CircuitBreaker \<times> 'w \<Rightarrow> CircuitBreaker \<times> 'w" where
  "exec_seq cs s = fold exec_call cs s"

text \<open>Admission attempts with no call completing in between, and how many get through.\<close>

fun admitted :: "(Time \<times> Time) list \<Rightarrow> CircuitBreaker \<Rightarrow> nat" where
  "admitted [] cb = 0"
| "admitted ((t, t') # ts) cb =
     (let (r, cb') = beforeRequest t t' cb
      in (if r = None then 1 else 0) + admitted ts cb')"

lemma admitted_half_open:
  assumes "state cb = StateHalfOpen" and "0 \<le> halfOpenReqs cb"
    and "in_int64 (HalfOpenMaxReqs (config cb))"
  shows "admitted ts cb = min (length ts) (nat (HalfOpenMaxReqs (config cb) - halfOpenReqs cb))"
  using assms
proof (induction ts arbitrary: cb)
  case Nil
  then show ?case by simp
next
  case (Cons a ts)
  obtain t t' where a: "a = (t, t')" by (cases a)
  show ?case
  proof (cases "halfOpenReqs cb \<ge> HalfOpenMaxReqs (config cb)")
    case True
    then show ?thesis using Cons a by (simp add: beforeRequest_def)
  next
    case False
    let ?cb = "cb\<lparr>halfOpenReqs := halfOpenReqs cb + 1\<rparr>"
    have "beforeRequest t t' cb = (None, ?cb)"
      using False Cons.prems wrap64_succ_le [of "halfOpenReqs cb" "HalfOpenMaxReqs (config cb)"]
      by (simp add: beforeRequest_def)
    moreover have "admitted ts ?cb
        = min (length ts) (nat (HalfOpenMaxReqs (config cb) - (halfOpenReqs cb + 1)))"
      using Cons.IH [of ?cb] Cons.prems by simp
    ultimately show ?thesis using a False by (simp add: min_def nat_diff_distrib) linarith
  qed
qed

lemma Execute_failing_closed:
  assumes "state cb = StateClosed"
  shows "fst (snd (Execute t t' (\<lambda>w. (FnReturn (Some e), w)) cb w))
           = onFailure (fst t') (snd t') (countRequest cb)"
  using assms by (simp add: Execute_def beforeRequest_def)

text \<open>A run of failing calls whose failures all lie within one window.\<close>

definition failing_calls :: "((Time \<times> Time) \<times> (Time \<times> Time) \<times> error) list \<Rightarrow> 'w call list" where
  "failing_calls xs = map (\<lambda>(t, t', e). (t, t', \<lambda>w. (FnReturn (Some e), w))) xs"

definition failure_times :: "((Time \<times> Time) \<times> (Time \<times> Time) \<times> error) list \<Rightarrow> Time list" where
  "failure_times xs = map (\<lambda>(t, t', e). fst t') xs"

lemma failure_times_snoc [simp]:
  "failure_times (xs @ [(t, t', e)]) = failure_times xs @ [fst t']"
  by (simp add: failure_times_def)

lemma exec_seq_failing_snoc:
  assumes "exec_seq (failing_calls xs) (cb0, w) = (cb, w)" and "state cb = StateClosed"
  shows "exec_seq (failing_calls (xs @ [(t, t', e)])) (cb0, w)
           = (onFailure (fst t') (snd t') (countRequest cb), w)"
proof -
  have "snd (Execute t t' (\<lambda>w. (FnReturn (Some e), w)) cb w)
      = (onFailure (fst t') (snd t') (countRequest cb), w)"
    using assms(2) by (simp add: Execute_def beforeRequest_def)
  with assms(1) show ?thesis by (simp add: exec_seq_def failing_calls_def)
qed

lemma window_keeps_all:
  assumes "0 < W" and "in_int64 W" and "FailureWindow (config cb) = W"
    and "\<forall>a \<in> set (failures cb). now - a < W"
  shows "window_after now cb = failures cb @ [now]"
proof -
  have "W \<noteq> min_int64" using assms(1) by (simp add: min_int64_def)
  then have "Duration_neg W = - W" using assms(2) by simp
  moreover have "\<forall>a \<in> set (failures cb). now - W < a"
    using assms(4) by (auto simp: less_diff_eq diff_less_eq add.commute)
  ultimately show ?thesis using assms(1,3) by (simp add: window_after_def)
qed

definition within_window :: "Duration \<Rightarrow> Time list \<Rightarrow> bool" where
  "within_window W ts \<longleftrightarrow> (\<forall>a \<in> set ts. \<forall>b \<in> set ts. b - a < W)"

lemma failing_run_below_threshold:
  assumes "0 < FailureWindow cfg" and "in_int64 (FailureWindow cfg)"
    and "within_window (FailureWindow cfg) (failure_times xs)"
    and "int (length xs) < FailureThreshold cfg"
  shows "\<exists>cb. exec_seq (failing_calls xs) (NewBreaker cfg lg now, w) = (cb, w) \<and>
           state cb = StateClosed \<and> config cb = cfg \<and> failures cb = failure_times xs"
  using assms(3,4)
proof (induction xs rule: rev_induct)
  case Nil
  then show ?case
    by (simp add: exec_seq_def failing_calls_def failure_times_def NewBreaker_def)
next
  case (snoc x xs)
  obtain t t' e where x: "x = (t, t', e)" by (cases x)
  obtain cb where cb: "exec_seq (failing_calls xs) (NewBreaker cfg lg now, w) = (cb, w)"
    "state cb = StateClosed" "config cb = cfg" "failures cb = failure_times xs"
    using snoc by (auto simp: within_window_def x)
  have "window_after (fst t') (countRequest cb) = failure_times (xs @ [x])"
    using window_keeps_all [OF assms(1,2)] snoc.prems(1) cb
    by (simp add: within_window_def x)
  then show ?case
    using exec_seq_failing_snoc [OF cb(1,2)] cb snoc.prems(2)
    by (simp add: x onFailure_state failure_times_def)
qed

section \<open>Properties\<close>

text \<open>A breaker used by the witnesses: threshold 2, reset after 10 ns, one half-open slot.\<close>

definition sample_config :: BreakerConfig where
  "sample_config = \<lparr>FailureThreshold = 2, ResetTimeout = 10, HalfOpenMaxReqs = 1,
     FailureWindow = 100\<rparr>"

definition sample_open :: CircuitBreaker where
  "sample_open = (NewBreaker sample_config True 0)\<lparr>state := StateOpen, lastStateChange := 5\<rparr>"

lemma sample_open_fields [simp]:
  "state sample_open = StateOpen" "lastStateChange sample_open = 5"
  "config sample_open = sample_config" "totalRequests sample_open = 0"
  by (simp_all add: sample_open_def NewBreaker_def)

lemmas sample_simps = sample_config_def in_int64_def min_int64_def max_int64_def Time_Sub_def

text \<open>
  The in-place compaction of the failure window in \<open>onFailure\<close>, which writes the array it
  is reading, returns exactly the failures later than the cutoff, in their order.
\<close>

theorem clean_is_filter: "clean cutoff fs = filter (\<lambda>ft. ft > cutoff) fs"
  by (rule clean_filter)

text \<open>
  C1. A new breaker whose first calls all fail within one failure window is still closed after
  fewer failures than the threshold and is open after exactly that many; no call is rejected
  on the way, so each of them reached the upstream.
\<close>

theorem trips_exactly_at_threshold:
  assumes "0 < FailureWindow cfg" and "in_int64 (FailureWindow cfg)"
    and "within_window (FailureWindow cfg) (failure_times xs)"
    and "xs \<noteq> []" and "int (length xs) \<le> FailureThreshold cfg"
  shows "state (fst (exec_seq (failing_calls xs) (NewBreaker cfg lg now, w)))
           = (if int (length xs) = FailureThreshold cfg then StateOpen else StateClosed) \<and>
         failures (fst (exec_seq (failing_calls xs) (NewBreaker cfg lg now, w)))
           = failure_times xs"
proof -
  obtain ys t t' e where xs: "xs = ys @ [(t, t', e)]"
    using assms(4) by (metis prod_cases3 rev_exhaust)
  obtain cb where cb: "exec_seq (failing_calls ys) (NewBreaker cfg lg now, w) = (cb, w)"
    "state cb = StateClosed" "config cb = cfg" "failures cb = failure_times ys"
    using failing_run_below_threshold [of cfg ys lg now w] assms
    by (auto simp: xs within_window_def)
  have "window_after (fst t') (countRequest cb) = failure_times xs"
    using window_keeps_all [OF assms(1,2)] assms(3) cb by (simp add: within_window_def xs)
  then show ?thesis
    using exec_seq_failing_snoc [OF cb(1,2)] cb assms(5)
    by (auto simp: xs onFailure_state failure_times_def)
qed

theorem trips_exactly_at_threshold_witness:
  "state (fst (exec_seq (failing_calls [((1, 1), (2, 2), FnError ''500''),
       ((3, 3), (4, 4), FnError ''500'')]) (NewBreaker sample_config True 0, ()))) = StateOpen"
  using trips_exactly_at_threshold [of sample_config
      "[((1, 1), (2, 2), FnError ''500''), ((3, 3), (4, 4), FnError ''500'')]" True 0 "()"]
  by (simp add: sample_simps within_window_def failure_times_def)

text \<open>
  C2. While an open breaker's reset timeout has not elapsed, no sequence of calls changes it or
  runs a protected function: the breaker and the callers' world are exactly as before.
\<close>

theorem open_blocks_until_timeout:
  assumes "state cb = StateOpen"
    and "\<forall>(t, t', fn) \<in> set cs. Time_Sub (fst t) (lastStateChange cb) \<le> ResetTimeout (config cb)"
  shows "exec_seq cs (cb, w) = (cb, w)"
  using assms(2)
proof (induction cs)
  case Nil
  then show ?case by (simp add: exec_seq_def)
next
  case (Cons c cs)
  obtain t t' fn where c: "c = (t, t', fn)" by (cases c)
  have "beforeRequest (fst t) (snd t) cb = (Some ErrCircuitOpen, cb)"
    using assms(1) Cons.prems c by (auto simp: beforeRequest_def)
  then have "exec_call c (cb, w) = (cb, w)" by (simp add: c Execute_def)
  with Cons show ?case by (simp add: exec_seq_def)
qed

theorem open_blocks_until_timeout_witness:
  "exec_seq [((9, 9), (9, 9), \<lambda>w. (FnReturn None, w + 1)),
       ((15, 15), (15, 15), \<lambda>w. (FnReturn None, w + 1))] (sample_open, 0::nat) = (sample_open, 0)"
  by (rule open_blocks_until_timeout) (auto simp: sample_simps)

text \<open>
  C3. Once the reset timeout has elapsed the next call is a probe: it runs the protected
  function, counts it, and its result alone decides the state. Success closes the breaker and
  clears the window, an error opens it again and restarts the timeout, and a panic leaves it
  half-open.
\<close>

theorem probe_decides:
  assumes "state cb = StateOpen"
    and "Time_Sub (fst t) (lastStateChange cb) > ResetTimeout (config cb)"
    and "fn w = (r, w')"
  shows "\<exists>cb'. Execute t t' fn cb w = (r, cb', w') \<and>
           totalRequests cb' = wrap64 (totalRequests cb + 1) \<and>
           (case r of
              FnReturn None \<Rightarrow> state cb' = StateClosed \<and> failures cb' = [] \<and>
                consecutiveFails cb' = 0
            | FnReturn (Some _) \<Rightarrow> state cb' = StateOpen \<and> lastStateChange cb' = snd t'
            | FnPanic _ \<Rightarrow> state cb' = StateHalfOpen \<and> halfOpenReqs cb' = 0)"
proof -
  define cb1 where "cb1 = countRequest ((transitionTo (snd t) StateHalfOpen cb)\<lparr>halfOpenReqs := 0\<rparr>)"
  have f: "state cb1 = StateHalfOpen" "totalRequests cb1 = wrap64 (totalRequests cb + 1)"
    "halfOpenReqs cb1 = 0"
    by (simp_all add: cb1_def)
  have "lastStateChange (onFailure (fst t') (snd t') cb1) = snd t'"
    using f(1) by (simp add: onFailure_def Let_def)
  moreover have "Execute t t' fn cb w = (r, (case r of
      FnReturn None \<Rightarrow> onSuccess (fst t') (snd t') cb1
    | FnReturn (Some _) \<Rightarrow> onFailure (fst t') (snd t') cb1
    | FnPanic _ \<Rightarrow> cb1), w')"
    using assms by (auto simp: Execute_def beforeRequest_def cb1_def Let_def
        split: FnResult.splits option.splits)
  ultimately show ?thesis
    using f by (auto simp: onFailure_state split: FnResult.splits option.splits)
qed

theorem probe_decides_witness:
  "\<exists>cb'. Execute (16, 16) (17, 17) (\<lambda>w. (FnReturn None, w + 1)) sample_open (0::nat)
           = (FnReturn None, cb', 1) \<and> totalRequests cb' = 1 \<and> state cb' = StateClosed"
  using probe_decides [of sample_open "(16, 16)" "\<lambda>w. (FnReturn None, w + 1)" "0::nat"
      "FnReturn None" 1 "(17, 17)"]
  by (auto simp: sample_simps)

text \<open>
  The number of calls a half-open breaker lets through before one of them completes is one
  more than \<open>HalfOpenMaxReqs\<close>: the call that moves the breaker to half-open does not take
  one of the slots.
\<close>

theorem half_open_admits_one_extra:
  assumes "state cb = StateOpen"
    and "Time_Sub t (lastStateChange cb) > ResetTimeout (config cb)"
    and "in_int64 (HalfOpenMaxReqs (config cb))"
  shows "admitted ((t, t') # ts) cb = 1 + min (length ts) (nat (HalfOpenMaxReqs (config cb)))"
  using assms admitted_half_open [of "(transitionTo t' StateHalfOpen cb)\<lparr>halfOpenReqs := 0\<rparr>" ts]
  by (simp add: beforeRequest_def)

theorem half_open_admits_one_extra_witness:
  "admitted [(16, 16), (17, 17), (18, 18), (19, 19)] sample_open = 2"
  using half_open_admits_one_extra [of sample_open 16 16 "[(17, 17), (18, 18), (19, 19)]"]
  by (simp add: sample_simps)

text \<open>
  C18. Starting from a new breaker, every sequence of guard checks, counts, completions and
  resets keeps the breaker's invariant: the state is one of the three named ones, a closed
  breaker holds fewer failures than its threshold, every failure kept lies within the window
  of the last one, and the half-open slots in use never exceed the configured maximum.
\<close>

theorem breaker_invariant:
  assumes "in_int64 (HalfOpenMaxReqs cfg)"
  shows "breaker_inv (fold cb_apply es (NewBreaker cfg lg now))"
  by (rule breaker_ops.inv_run) (rule breaker_inv_New [OF assms])

theorem breaker_invariant_witness:
  "breaker_inv (fold cb_apply [OpBefore 1 1, OpCount, OpFailure 2 2, OpReset 3]
     (NewBreaker sample_config True 0))"
  by (rule breaker_invariant) (simp add: sample_simps)



end
