(* ===== verification/Circuit_Interleaving.thy ===== *)
theory Circuit_Interleaving
  imports Circuit
begin

text \<open>
  Concurrent calls of \<open>CircuitBreaker.Execute\<close>. The mutex makes each critical section atomic
  and nothing more: between the guard, the counter and the bookkeeping of one call, sections
  of other calls run. A configuration holds the breaker and how far every call has got; a
  step is one critical section of one call, or the end of a protected function by panic.
\<close>

section \<open>Calls in flight\<close>

text \<open>
  \<open>Admitted\<close>: past \<open>beforeRequest\<close>; \<open>Running\<close>: counted, inside the protected function;
  the last three say how that function ended, with the bookkeeping done (none after a panic).
\<close>

datatype pc = Idle | Rejected | Admitted | Running | Succeeded | Failed | Panicked

text \<open>\<open>probes\<close> is a history variable: the calls admitted since the breaker became half-open.\<close>

record Sys =
  brk :: CircuitBreaker
  pcs :: "nat \<Rightarrow> pc"
  probes :: nat

definition sys_init :: "BreakerConfig \<Rightarrow> bool \<Rightarrow> Time \<Rightarrow> Sys" where
  "sys_init cfg lg now = \<lparr>brk = NewBreaker cfg lg now, pcs = (\<lambda>_. Idle), probes = 0\<rparr>"

definition probes_after :: "Sys \<Rightarrow> nat" where
  "probes_after s = (case state (brk s) of
       StateOpen \<Rightarrow> 1 | StateHalfOpen \<Rightarrow> probes s + 1 | _ \<Rightarrow> probes s)"

inductive serve_step :: "Sys \<Rightarrow> Sys \<Rightarrow> bool" where
  admit: "pcs s i = Idle \<Longrightarrow> beforeRequest n n' (brk s) = (None, b) \<Longrightarrow>
     serve_step s (s\<lparr>brk := b, pcs := (pcs s)(i := Admitted), probes := probes_after s\<rparr>)"
| reject: "pcs s i = Idle \<Longrightarrow> beforeRequest n n' (brk s) = (Some e, b) \<Longrightarrow>
     serve_step s (s\<lparr>brk := b, pcs := (pcs s)(i := Rejected)\<rparr>)"
| count: "pcs s i = Admitted \<Longrightarrow>
     serve_step s (s\<lparr>brk := countRequest (brk s), pcs := (pcs s)(i := Running)\<rparr>)"
| succeed: "pcs s i = Running \<Longrightarrow>
     serve_step s (s\<lparr>brk := onSuccess n n' (brk s), pcs := (pcs s)(i := Succeeded)\<rparr>)"
| fail: "pcs s i = Running \<Longrightarrow>
     serve_step s (s\<lparr>brk := onFailure n n' (brk s), pcs := (pcs s)(i := Failed)\<rparr>)"
| panic: "pcs s i = Running \<Longrightarrow> serve_step s (s\<lparr>pcs := (pcs s)(i := Panicked)\<rparr>)"

text \<open>\<open>Reset\<close> is part of the breaker's interface; the gateway itself never calls it.\<close>

inductive cb_step :: "Sys \<Rightarrow> Sys \<Rightarrow> bool" where
  serve: "serve_step s t \<Longrightarrow> cb_step s t"
| reset: "cb_step s (s\<lparr>brk := Reset n (brk s)\<rparr>)"

inductive_simps cb_step_simps: "cb_step s t"

section \<open>The invariant of every interleaving\<close>

definition started :: "pc \<Rightarrow> bool" where
  "started p \<longleftrightarrow> p \<noteq> Idle"

definition counted :: "pc \<Rightarrow> bool" where
  "counted p \<longleftrightarrow> p \<in> {Running, Succeeded, Failed, Panicked}"

definition failed :: "pc \<Rightarrow> bool" where
  "failed p \<longleftrightarrow> p = Failed"

text \<open>The calls that have got to a point satisfying \<open>P\<close>.\<close>

definition calls_at :: "(pc \<Rightarrow> bool) \<Rightarrow> (nat \<Rightarrow> pc) \<Rightarrow> nat set" where
  "calls_at P f = {i. P (f i)}"

definition sys_inv :: "Sys \<Rightarrow> bool" where
  "sys_inv s \<longleftrightarrow> breaker_inv (brk s) \<and>
     (state (brk s) = StateHalfOpen \<longrightarrow> int (probes s) = halfOpenReqs (brk s) + 1) \<and>
     finite (calls_at started (pcs s)) \<and>
     totalRequests (brk s) = wrap64 (int (card (calls_at counted (pcs s)))) \<and>
     totalFailures (brk s) = wrap64 (int (card (calls_at failed (pcs s))))"

lemma calls_at_update:
  "calls_at P (f(i := p)) = (if P p then insert i (calls_at P f) else calls_at P f - {i})"
  by (auto simp: calls_at_def)

lemma calls_at_member: "i \<in> calls_at P f \<longleftrightarrow> P (f i)"
  by (simp add: calls_at_def)

lemma finite_calls_at:
  assumes "finite (calls_at started f)"
  shows "finite (calls_at counted f)" and "finite (calls_at failed f)"
  by (rule finite_subset [OF _ assms],
      auto simp: calls_at_def counted_def started_def failed_def)+

lemmas pc_simps = calls_at_update calls_at_member started_def counted_def failed_def

lemma wrap64_card_succ: "wrap64 (int (Suc n)) = wrap64 (wrap64 (int n) + 1)"
  using wrap64_add_left [of "int n" 1] by (simp add: add.commute)

lemma probes_after_admit:
  assumes "breaker_inv (brk s)" and "beforeRequest n n' (brk s) = (None, b)"
    and "state (brk s) = StateHalfOpen \<longrightarrow> int (probes s) = halfOpenReqs (brk s) + 1"
    and "state b = StateHalfOpen"
  shows "int (probes_after s) = halfOpenReqs b + 1"
  using assms wrap64_succ_le [of "halfOpenReqs (brk s)" "HalfOpenMaxReqs (config (brk s))"]
  by (auto simp: beforeRequest_def probes_after_def breaker_inv_def
      split: State.splits if_splits)

lemma before_keeps:
  assumes "beforeRequest n n' cb = (r, b)"
  shows "breaker_inv cb \<Longrightarrow> breaker_inv b" and "totalRequests b = totalRequests cb"
    and "totalFailures b = totalFailures cb"
  using breaker_inv_before [of cb n n'] beforeRequest_fields [of n n' cb] assms by auto

lemma sys_inv_serve: "serve_step s t \<Longrightarrow> sys_inv s \<Longrightarrow> sys_inv t"
proof (induction rule: serve_step.induct)
  case (admit s i n n' b)
  then have "state b = StateHalfOpen \<longrightarrow> int (probes_after s) = halfOpenReqs b + 1"
    using probes_after_admit [of s n n' b] by (auto simp: sys_inv_def)
  with admit before_keeps [OF admit.hyps(2)] show ?case
    by (simp add: sys_inv_def pc_simps)
next
  case (reject s i n n' e b)
  then have "b = brk s" using beforeRequest_rejected [of n n' "brk s"] by auto
  with reject show ?case by (simp add: sys_inv_def pc_simps)
next
  case (count s i)
  then show ?case
    using breaker_inv_apply [of "brk s" OpCount] finite_calls_at [of "pcs s"]
    by (simp add: sys_inv_def pc_simps wrap64_card_succ del: of_nat_Suc)
next
  case (succeed s i n n')
  then show ?case
    using breaker_inv_apply [of "brk s" "OpSuccess n n'"]
    by (simp add: sys_inv_def pc_simps insert_absorb)
next
  case (fail s i n n')
  then have "state (onFailure n n' (brk s)) \<noteq> StateHalfOpen"
    by (auto simp: onFailure_state split: State.splits)
  with fail show ?case
    using breaker_inv_failure [of "brk s" n n'] finite_calls_at [of "pcs s"]
    by (simp add: sys_inv_def pc_simps insert_absorb wrap64_card_succ del: of_nat_Suc)
next
  case (panic s i)
  then show ?case by (simp add: sys_inv_def pc_simps insert_absorb)
qed

lemma sys_inv_step: "sys_inv s \<Longrightarrow> cb_step s t \<Longrightarrow> sys_inv t"
  using breaker_inv_apply [of "brk s" "OpReset n" for n]
  by (auto simp: cb_step_simps sys_inv_serve) (auto simp: sys_inv_def)

definition sys_start :: "Sys \<Rightarrow> bool" where
  "sys_start s \<longleftrightarrow>
     (\<exists>cfg lg now. in_int64 (HalfOpenMaxReqs cfg) \<and> s = sys_init cfg lg now)"

lemma sys_inv_start: "sys_start s \<Longrightarrow> sys_inv s"
  by (auto simp: sys_start_def sys_inv_def sys_init_def breaker_inv_New calls_at_def
      pc_simps)
     (auto simp: NewBreaker_def)

interpretation interleaving: step_system sys_start cb_step sys_inv
  by unfold_locales (auto intro: sys_inv_start sys_inv_step)

section \<open>A breaker wedged in half-open\<close>

text \<open>
  All half-open slots are used and no call that could complete is left: a protected function
  that panicked has used a slot and never reports a result.
\<close>

definition wedged :: "Sys \<Rightarrow> bool" where
  "wedged s \<longleftrightarrow> state (brk s) = StateHalfOpen \<and>
     halfOpenReqs (brk s) \<ge> HalfOpenMaxReqs (config (brk s)) \<and>
     (\<forall>i. pcs s i \<noteq> Admitted \<and> pcs s i \<noteq> Running)"

lemma wedged_rejects: "wedged s \<Longrightarrow> beforeRequest n n' (brk s) = (Some ErrCircuitOpen, brk s)"
  by (simp add: wedged_def beforeRequest_def)

lemma wedged_serve: "serve_step s t \<Longrightarrow> wedged s \<Longrightarrow> wedged t \<and> brk t = brk s"
proof (induction rule: serve_step.induct)
  case (admit s i n n' b)
  then show ?case using wedged_rejects [of s n n'] by simp
next
  case (reject s i n n' e b)
  then show ?case using wedged_rejects [of s n n'] by (auto simp: wedged_def)
qed (simp_all add: wedged_def)

lemma wedged_forever: "serve_step\<^sup>*\<^sup>* s t \<Longrightarrow> wedged s \<Longrightarrow> wedged t \<and> brk t = brk s"
  by (induction rule: rtranclp_induct) (auto dest: wedged_serve)

text \<open>Steps chosen by an event, to exhibit runs.\<close>

datatype ev = EAdmit nat Time | ECount nat | EFail nat Time | EPanic nat

fun ev_step :: "ev \<Rightarrow> Sys \<Rightarrow> Sys option" where
  "ev_step (EAdmit i t) s =
     (case beforeRequest t t (brk s) of
        (None, b) \<Rightarrow> if pcs s i = Idle
          then Some (s\<lparr>brk := b, pcs := (pcs s)(i := Admitted), probes := probes_after s\<rparr>) else None
      | (Some e, b) \<Rightarrow> None)"
| "ev_step (ECount i) s = (if pcs s i = Admitted
     then Some (s\<lparr>brk := countRequest (brk s), pcs := (pcs s)(i := Running)\<rparr>) else None)"
| "ev_step (EFail i t) s = (if pcs s i = Running
     then Some (s\<lparr>brk := onFailure t t (brk s), pcs := (pcs s)(i := Failed)\<rparr>) else None)"
| "ev_step (EPanic i) s = (if pcs s i = Running
     then Some (s\<lparr>pcs := (pcs s)(i := Panicked)\<rparr>) else None)"

fun ev_run :: "ev list \<Rightarrow> Sys \<Rightarrow> Sys option" where
  "ev_run [] s = Some s"
| "ev_run (e # es) s = (case ev_step e s of None \<Rightarrow> None | Some t \<Rightarrow> ev_run es t)"

lemma ev_step_serves: "ev_step e s = Some t \<Longrightarrow> serve_step s t"
  by (cases e) (auto intro: serve_step.intros split: prod.splits option.splits if_splits)

lemma ev_run_serves: "ev_run es s = Some t \<Longrightarrow> serve_step\<^sup>*\<^sup>* s t"
  by (induction es arbitrary: s)
     (auto split: option.splits dest: ev_step_serves intro: converse_rtranclp_into_rtranclp)

lemma serve_cb_steps: "serve_step\<^sup>*\<^sup>* s t \<Longrightarrow> cb_step\<^sup>*\<^sup>* s t"
  by (erule rtranclp_mono [THEN predicate2D, rotated]) (auto intro: cb_step.serve)

text \<open>Two failures open the sample breaker; the two calls it then admits both panic.\<close>

definition wedging_run :: "ev list" where
  "wedging_run = [EAdmit 0 1, ECount 0, EFail 0 2, EAdmit 1 3, ECount 1, EFail 1 4,
     EAdmit 2 20, ECount 2, EPanic 2, EAdmit 3 21, ECount 3, EPanic 3]"

lemma sample_start: "sys_start (sys_init sample_config lg now)"
proof -
  have "in_int64 (HalfOpenMaxReqs sample_config)" by (simp add: sample_simps)
  then show ?thesis unfolding sys_start_def by blast
qed

lemmas sample_eval = sys_init_def NewBreaker_def beforeRequest_def countRequest_def
  onFailure_def transitionTo_def probes_after_def clean_filter Time_Add_def Duration_neg_def
  wrap64_def sample_simps

lemma wedging_run_result:
  "\<exists>s. ev_run wedging_run (sys_init sample_config False 0) = Some s \<and> wedged s"
  by (simp add: wedging_run_def sample_eval wedged_def)

section \<open>Properties\<close>

text \<open>
  C19. Under every interleaving of concurrent calls and resets, the statistics are exact: the
  total of requests is the number of calls whose protected function was started, the total of
  failures the number of calls that failed, each modulo the 64-bit counter. No update is lost.
\<close>

theorem stats_exact:
  assumes "sys_start s" and "cb_step\<^sup>*\<^sup>* s t"
  shows "sTotalRequests (Stats (brk t)) = wrap64 (int (card {i. counted (pcs t i)})) \<and>
         sTotalFailures (Stats (brk t)) = wrap64 (int (card {i. pcs t i = Failed}))"
  using interleaving.inv_reachable [OF assms]
  by (simp add: sys_inv_def Stats_def calls_at_def failed_def)

theorem stats_exact_witness:
  "sTotalRequests (Stats (brk (sys_init sample_config True 0))) = 0 \<and>
   (\<exists>t. cb_step\<^sup>*\<^sup>* (sys_init sample_config False 0) t \<and> wedged t \<and>
      sTotalFailures (Stats (brk t)) = wrap64 (int (card {i. pcs t i = Failed})))"
proof
  show "sTotalRequests (Stats (brk (sys_init sample_config True 0))) = 0"
    using stats_exact [OF sample_start rtranclp.rtrancl_refl, of True 0]
    by (simp add: sys_init_def counted_def)
  obtain t where t: "cb_step\<^sup>*\<^sup>* (sys_init sample_config False 0) t" "wedged t"
    using wedging_run_result ev_run_serves serve_cb_steps by blast
  show "\<exists>t. cb_step\<^sup>*\<^sup>* (sys_init sample_config False 0) t \<and> wedged t \<and>
      sTotalFailures (Stats (brk t)) = wrap64 (int (card {i. pcs t i = Failed}))"
    using t stats_exact [OF sample_start t(1)] by blast
qed

text \<open>
  C20. Under every interleaving, the calls admitted since the breaker last became half-open
  never number more than one plus the configured maximum, however many callers race for the
  guard.
\<close>

theorem half_open_probe_bound:
  assumes "sys_start s" and "cb_step\<^sup>*\<^sup>* s t" and "state (brk t) = StateHalfOpen"
  shows "1 \<le> probes t \<and> int (probes t) \<le> 1 + max 0 (HalfOpenMaxReqs (config (brk t)))"
  using interleaving.inv_reachable [OF assms(1,2)] assms(3)
  by (auto simp: sys_inv_def breaker_inv_def)

theorem half_open_probe_bound_witness:
  "\<exists>t. cb_step\<^sup>*\<^sup>* (sys_init sample_config False 0) t \<and> state (brk t) = StateHalfOpen \<and>
     1 \<le> probes t \<and> int (probes t) \<le> 1 + max 0 (HalfOpenMaxReqs (config (brk t)))"
proof -
  obtain t where t: "cb_step\<^sup>*\<^sup>* (sys_init sample_config False 0) t" "wedged t"
    using wedging_run_result ev_run_serves serve_cb_steps by blast
  then have h: "state (brk t) = StateHalfOpen" by (simp add: wedged_def)
  show ?thesis using t h half_open_probe_bound [OF sample_start t(1) h] by blast
qed

text \<open>
  C35. A half-open breaker whose slots are used up and whose admitted calls have all panicked
  is lost for good: however long the gateway goes on serving, at whatever times, the breaker
  does not change and every further call is rejected.
\<close>

theorem wedged_breaker_never_recovers:
  assumes "wedged s" and "serve_step\<^sup>*\<^sup>* s t"
  shows "brk t = brk s \<and> Execute (n, n') t' fn (brk t) w = (FnReturn (Some ErrCircuitOpen), brk t, w)"
  using wedged_forever [OF assms(2,1)] wedged_rejects [of t n n'] by (simp add: Execute_def)

theorem wedged_breaker_never_recovers_witness:
  "\<exists>s. serve_step\<^sup>*\<^sup>* (sys_init sample_config False 0) s \<and>
     Execute (1000000, 1000000) (1000001, 1000001) (\<lambda>w. (FnReturn None, w + 1)) (brk s) (0::nat)
       = (FnReturn (Some ErrCircuitOpen), brk s, 0)"
proof -
  obtain s where s: "serve_step\<^sup>*\<^sup>* (sys_init sample_config False 0) s" "wedged s"
    using wedging_run_result ev_run_serves by blast
  have "Execute (1000000, 1000000) (1000001, 1000001) (\<lambda>w. (FnReturn None, w + 1)) (brk s) (0::nat)
      = (FnReturn (Some ErrCircuitOpen), brk s, 0)"
    using wedged_breaker_never_recovers [OF s(2) rtranclp.rtrancl_refl] by (rule conjunct2)
  with s(1) show ?thesis by blast
qed

text \<open>
  The wedged state is reachable by ordinary traffic: enough failures to open the breaker,
  then a protected function that panics in each call the half-open breaker admits.
\<close>

theorem wedged_reachable:
  "\<exists>s. serve_step\<^sup>*\<^sup>* (sys_init sample_config False 0) s \<and> wedged s"
  using wedging_run_result ev_run_serves by blast

end
