(* ===== verification/Go_Strings.thy ===== *)
theory Go_Strings
  imports Prelude
begin

text \<open>
  The string functions of Go's standard library that the gateway calls. A Go string is a
  sequence of bytes, here a \<open>char list\<close>.
\<close>

section \<open>Package strings\<close>

definition HasPrefix :: "string \<Rightarrow> string \<Rightarrow> bool" where
  "HasPrefix s p \<longleftrightarrow> take (length p) s = p"

definition HasSuffix :: "string \<Rightarrow> string \<Rightarrow> bool" where
  "HasSuffix s p \<longleftrightarrow> length p \<le> length s \<and> drop (length s - length p) s = p"

definition TrimPrefix :: "string \<Rightarrow> string \<Rightarrow> string" where
  "TrimPrefix s p = (if HasPrefix s p then drop (length p) s else s)"

fun Contains :: "string \<Rightarrow> string \<Rightarrow> bool" where
  "Contains [] sub \<longleftrightarrow> sub = []"
| "Contains (c # cs) sub \<longleftrightarrow> HasPrefix (c # cs) sub \<or> Contains cs sub"

fun Join :: "string list \<Rightarrow> string \<Rightarrow> string" where
  "Join [] sep = []"
| "Join [x] sep = x"
| "Join (x # xs) sep = x @ sep @ Join xs sep"

text \<open>\<open>IndexByte\<close>: the first position of a byte, \<open>-1\<close> if there is none.\<close>

fun IndexByte :: "string \<Rightarrow> char \<Rightarrow> int" where
  "IndexByte [] c = -1"
| "IndexByte (x # xs) c =
     (if x = c then 0 else let i = IndexByte xs c in if i = -1 then -1 else i + 1)"

text \<open>
  \<open>TrimSpace\<close> removes Unicode white space at both ends; these are the UTF-8 encodings of the
  white-space code points.
\<close>

definition white_space :: "string list" where
  "white_space =
     [[CHR 0x09], [CHR 0x0A], [CHR 0x0B], [CHR 0x0C], [CHR 0x0D], [CHR 0x20],
      [CHR 0xC2, CHR 0x85], [CHR 0xC2, CHR 0xA0], [CHR 0xE1, CHR 0x9A, CHR 0x80]]
     @ map (\<lambda>c. [CHR 0xE2, CHR 0x80, c])
         [CHR 0x80, CHR 0x81, CHR 0x82, CHR 0x83, CHR 0x84, CHR 0x85, CHR 0x86, CHR 0x87,
          CHR 0x88, CHR 0x89, CHR 0x8A, CHR 0xA8, CHR 0xA9, CHR 0xAF]
     @ [[CHR 0xE2, CHR 0x81, CHR 0x9F], [CHR 0xE3, CHR 0x80, CHR 0x80]]"

fun strip_front :: "nat \<Rightarrow> string list \<Rightarrow> string \<Rightarrow> string" where
  "strip_front 0 ws s = s"
| "strip_front (Suc n) ws s =
     (case find (\<lambda>w. HasPrefix s w) ws of
        None \<Rightarrow> s | Some w \<Rightarrow> strip_front n ws (drop (length w) s))"

text \<open>Every round removes at least one byte, so the length of the string bounds the rounds.\<close>

definition TrimSpace :: "string \<Rightarrow> string" where
  "TrimSpace s =
     (let s = strip_front (length s) white_space s
      in rev (strip_front (length s) (map rev white_space) (rev s)))"

text \<open>
  \<open>ToLower\<close> maps ASCII letters; on a string with other bytes it consults the Unicode tables,
  the argument \<open>unicode_lower\<close>.
\<close>

definition is_ascii :: "char \<Rightarrow> bool" where
  "is_ascii c \<longleftrightarrow> (of_char c :: nat) < 128"

definition lower_byte :: "char \<Rightarrow> char" where
  "lower_byte c =
     (let n = (of_char c :: nat) in if 65 \<le> n \<and> n \<le> 90 then char_of (n + 32) else c)"

definition ToLower :: "(string \<Rightarrow> string) \<Rightarrow> string \<Rightarrow> string" where
  "ToLower unicode_lower s = (if list_all is_ascii s then map lower_byte s else unicode_lower s)"

section \<open>Package strconv\<close>

definition digit_char :: "nat \<Rightarrow> char" where
  "digit_char d = char_of (48 + d)"

fun nat_digits :: "nat \<Rightarrow> string" where
  "nat_digits n = (if n < 10 then [digit_char n] else nat_digits (n div 10) @ [digit_char (n mod 10)])"

declare nat_digits.simps [simp del]

text \<open>\<open>strconv.Itoa\<close>, and \<open>fmt\<close>'s verb \<open>%d\<close>.\<close>

definition Itoa :: "int \<Rightarrow> string" where
  "Itoa n = (if n < 0 then CHR ''-'' # nat_digits (nat (- n)) else nat_digits (nat n))"

definition digit_val :: "char \<Rightarrow> nat option" where
  "digit_val c =
     (let n = (of_char c :: nat) in if 48 \<le> n \<and> n \<le> 57 then Some (n - 48) else None)"

fun digits_val :: "nat \<Rightarrow> string \<Rightarrow> nat option" where
  "digits_val acc [] = Some acc"
| "digits_val acc (c # cs) =
     (case digit_val c of None \<Rightarrow> None | Some d \<Rightarrow> digits_val (10 * acc + d) cs)"

text \<open>\<open>strconv.Atoi\<close>: \<open>None\<close> stands for its error (syntax or range).\<close>

definition Atoi :: "string \<Rightarrow> int option" where
  "Atoi s =
     (let (neg, ds) = (case s of
            c # cs \<Rightarrow> if c = CHR ''-'' then (True, cs) else if c = CHR ''+'' then (False, cs) else (False, s)
          | [] \<Rightarrow> (False, []))
      in if ds = [] then None
         else case digits_val 0 ds of
                None \<Rightarrow> None
              | Some n \<Rightarrow> let v = (if neg then - int n else int n)
                          in if in_int64 v then Some v else None)"

section \<open>os.ExpandEnv\<close>

definition isShellSpecialVar :: "char \<Rightarrow> bool" where
  "isShellSpecialVar c \<longleftrightarrow> c \<in> set ''*#$@!?-0123456789''"

definition isAlphaNum :: "char \<Rightarrow> bool" where
  "isAlphaNum c \<longleftrightarrow> (let n = (of_char c :: nat)
     in n = 95 \<or> 48 \<le> n \<and> n \<le> 57 \<or> 97 \<le> n \<and> n \<le> 122 \<or> 65 \<le> n \<and> n \<le> 90)"

text \<open>The name after a dollar sign and the number of bytes it takes.\<close>

definition getShellName :: "string \<Rightarrow> string \<times> nat" where
  "getShellName s =
     (case s of
        [] \<Rightarrow> ([], 0)
      | c # cs \<Rightarrow>
          if c = CHR ''{'' then
            (if length s > 2 \<and> isShellSpecialVar (s ! 1) \<and> s ! 2 = CHR ''}'' then ([s ! 1], 3)
             else let i = IndexByte cs (CHR ''}'')
                  in if i = -1 then ([], 1)
                     else if i = 0 then ([], 2)
                     else (take (nat i) cs, nat i + 2))
          else if isShellSpecialVar c then ([c], 1)
          else let n = takeWhile isAlphaNum s in (n, length n))"

function os_Expand :: "(string \<Rightarrow> string) \<Rightarrow> string \<Rightarrow> string" where
  "os_Expand env [] = []"
| "os_Expand env (c # cs) =
     (if c = CHR ''$'' \<and> cs \<noteq> []
      then (let (name, w) = getShellName cs
            in (if name = [] \<and> w > 0 then [] else if name = [] then [c] else env name)
                 @ os_Expand env (drop w cs))
      else c # os_Expand env cs)"
  by pat_completeness auto
termination
  by (relation "measure (\<lambda>(env, s). length s)") auto

declare os_Expand.simps [simp del]

section \<open>Lemmas\<close>

lemma HasPrefix_append [simp]: "HasPrefix (p @ s) p"
  by (simp add: HasPrefix_def)

lemma HasPrefix_Nil [simp]: "HasPrefix s []"
  by (simp add: HasPrefix_def)

lemma HasPrefix_iff: "HasPrefix s p \<longleftrightarrow> (\<exists>t. s = p @ t)"
  by (metis HasPrefix_append HasPrefix_def append_take_drop_id)

lemma HasSuffix_iff: "HasSuffix s p \<longleftrightarrow> (\<exists>t. s = t @ p)"
proof
  assume "HasSuffix s p"
  then show "\<exists>t. s = t @ p"
    unfolding HasSuffix_def by (metis append_take_drop_id)
qed (auto simp: HasSuffix_def)

lemma HasSuffix_single: "HasSuffix s [c] \<longleftrightarrow> s \<noteq> [] \<and> last s = c"
  unfolding HasSuffix_iff by (metis append_butlast_last_id last_snoc snoc_eq_iff_butlast)

lemma TrimPrefix_append [simp]: "TrimPrefix (p @ s) p = s"
  by (simp add: TrimPrefix_def)

lemma Contains_iff: "Contains s sub \<longleftrightarrow> (\<exists>a b. s = a @ sub @ b)"
proof (induction s)
  case Nil
  then show ?case by simp
next
  case (Cons c cs)
  show ?case
  proof
    assume "Contains (c # cs) sub"
    then show "\<exists>a b. c # cs = a @ sub @ b"
      using Cons.IH by (auto simp: HasPrefix_iff intro: exI [of _ "[]"]) (metis append_Cons)
  next
    assume "\<exists>a b. c # cs = a @ sub @ b"
    then obtain a b where ab: "c # cs = a @ sub @ b" by blast
    show "Contains (c # cs) sub"
    proof (cases a)
      case Nil
      with ab have "HasPrefix (c # cs) sub" by (auto simp: HasPrefix_iff)
      then show ?thesis by simp
    next
      case (Cons x xs)
      then show ?thesis using ab Cons.IH by auto
    qed
  qed
qed

lemma IndexByte_none: "IndexByte s c = -1 \<longleftrightarrow> c \<notin> set s"
  and IndexByte_ge: "-1 \<le> IndexByte s c"
  by (induction s) (auto simp: Let_def)

lemma IndexByte_append: "c \<notin> set a \<Longrightarrow> IndexByte (a @ c # b) c = int (length a)"
  by (induction a) (auto simp: Let_def)

lemma digit_val_char [simp]: "d < 10 \<Longrightarrow> digit_val (digit_char d) = Some d"
  by (simp add: digit_val_def digit_char_def Let_def)

lemma digits_val_append:
  "digits_val acc (xs @ ys) = (case digits_val acc xs of None \<Rightarrow> None | Some a \<Rightarrow> digits_val a ys)"
  by (induction acc xs rule: digits_val.induct) (auto split: option.splits)

lemma digits_val_nat_digits: "digits_val 0 (nat_digits n) = Some n"
proof (induction n rule: nat_digits.induct)
  case (1 n)
  show ?case
  proof (cases "n < 10")
    case True
    then show ?thesis by (simp add: nat_digits.simps [of n])
  next
    case False
    with 1 show ?thesis by (simp add: nat_digits.simps [of n] digits_val_append)
  qed
qed

lemma nat_digits_head: "\<exists>d cs. d < 10 \<and> nat_digits n = digit_char d # cs"
proof (induction n rule: nat_digits.induct)
  case (1 n)
  show ?case
  proof (cases "n < 10")
    case True
    then show ?thesis by (auto simp: nat_digits.simps [of n])
  next
    case False
    with 1 obtain d cs where "d < 10" "nat_digits (n div 10) = digit_char d # cs" by blast
    with False show ?thesis by (auto simp: nat_digits.simps [of n])
  qed
qed

lemma digit_not_sign: "d < 10 \<Longrightarrow> digit_char d \<noteq> CHR ''-'' \<and> digit_char d \<noteq> CHR ''+''"
  using digit_val_char [of d] by (auto simp: digit_val_def Let_def split: if_splits)

lemma Atoi_Itoa:
  assumes "in_int64 n"
  shows "Atoi (Itoa n) = Some n"
proof (cases "n < 0")
  case True
  have "nat_digits (nat (- n)) \<noteq> []" using nat_digits_head [of "nat (- n)"] by auto
  then show ?thesis
    using True assms digits_val_nat_digits [of "nat (- n)"] by (simp add: Atoi_def Itoa_def)
next
  case False
  obtain d cs where d: "d < 10" "nat_digits (nat n) = digit_char d # cs"
    using nat_digits_head by blast
  then show ?thesis
    using False assms digits_val_nat_digits [of "nat n"] digit_not_sign [OF d(1)]
    by (simp add: Atoi_def Itoa_def)
qed

lemma os_Expand_plain: "CHR ''$'' \<notin> set s \<Longrightarrow> os_Expand env s = s"
  by (induction s) (auto simp: os_Expand.simps)

lemma os_Expand_append_plain:
  "CHR ''$'' \<notin> set a \<Longrightarrow> os_Expand env (a @ s) = a @ os_Expand env s"
  by (induction a) (auto simp: os_Expand.simps)

text \<open>\<open>${NAME}\<close> is replaced by the variable's value.\<close>

lemma os_Expand_braced:
  assumes "name \<noteq> []" and "list_all isAlphaNum name"
  shows "os_Expand env (''${'' @ name @ ''}'' @ s) = env name @ os_Expand env s"
proof -
  have nb: "CHR ''}'' \<notin> set name"
    using assms(2) by (auto simp: list_all_iff isAlphaNum_def Let_def)
  have "getShellName (CHR ''{'' # name @ CHR ''}'' # s) = (name, length name + 2)"
  proof (cases "length name = 1")
    case True
    then obtain c where "name = [c]" by (metis One_nat_def length_0_conv length_Suc_conv)
    then show ?thesis using nb by (auto simp: getShellName_def Let_def)
  next
    case False
    then obtain a b cs where n: "name = a # b # cs"
      using assms(1) by (metis One_nat_def list.size(3,4) neq_Nil_conv add.commute plus_1_eq_Suc)
    have "IndexByte (name @ CHR ''}'' # s) (CHR ''}'') = int (length name)"
      by (rule IndexByte_append [OF nb])
    moreover have "take (nat (int (length name))) (name @ CHR ''}'' # s) = name" by simp
    moreover have "(CHR ''{'' # name @ CHR ''}'' # s) ! 2 \<noteq> CHR ''}''" using nb n by auto
    ultimately show ?thesis
      using assms(1) by (simp add: getShellName_def Let_def del: IndexByte.simps)
  qed
  then show ?thesis
    using assms(1) by (simp add: os_Expand.simps(2))
qed

end
