(* ===== verification/Http.thy ===== *)
theory Http
  imports Go_Strings
begin

text \<open>
  What the gateway uses of \<open>net/http\<close> and \<open>net\<close>: header maps with canonical keys,
  requests with their context values, the server's response writer, and \<open>SplitHostPort\<close>.
  \<open>internal/middleware/logging.go\<close> wraps a response writer in another one; a writer is
  therefore a stack of wrappers over the server's own writer. \<open>IPKeyExtractor\<close> of
  \<open>internal/ratelimit/limiter.go\<close> is here because logging and rate limiting share it.
\<close>

section \<open>Headers\<close>

type_synonym Header = "string \<rightharpoonup> string list"

definition token_char :: "char \<Rightarrow> bool" where
  "token_char c \<longleftrightarrow> (let n = (of_char c :: nat) in
     48 \<le> n \<and> n \<le> 57 \<or> 65 \<le> n \<and> n \<le> 90 \<or> 97 \<le> n \<and> n \<le> 122
     \<or> n \<in> {33, 35, 36, 37, 38, 39, 42, 43, 45, 46, 94, 95, 96, 124, 126})"

definition upper_byte :: "char \<Rightarrow> char" where
  "upper_byte c =
     (let n = (of_char c :: nat) in if 97 \<le> n \<and> n \<le> 122 then char_of (n - 32) else c)"

fun canonical :: "bool \<Rightarrow> string \<Rightarrow> string" where
  "canonical up [] = []"
| "canonical up (c # cs) = (if up then upper_byte c else lower_byte c) # canonical (c = CHR ''-'') cs"

text \<open>A key with a byte that no header name may hold is left as it is.\<close>

definition CanonicalHeaderKey :: "string \<Rightarrow> string" where
  "CanonicalHeaderKey k = (if list_all token_char k then canonical True k else k)"

definition Header_Get :: "Header \<Rightarrow> string \<Rightarrow> string" where
  "Header_Get h k = (case h (CanonicalHeaderKey k) of Some (v # vs) \<Rightarrow> v | _ \<Rightarrow> [])"

definition Header_Set :: "string \<Rightarrow> string \<Rightarrow> Header \<Rightarrow> Header" where
  "Header_Set k v h = h(CanonicalHeaderKey k \<mapsto> [v])"

lemma Header_Get_Set [simp]:
  "Header_Get (Header_Set k v h) k' =
     (if CanonicalHeaderKey k' = CanonicalHeaderKey k then v else Header_Get h k')"
  by (simp add: Header_Get_def Header_Set_def)

section \<open>Contexts\<close>

text \<open>
  \<open>internal/observability/context.go\<close>: three private keys; a stored value is a string or a
  logger, and the accessors test its type.
\<close>

datatype contextKey = requestIDKey | loggerKey | upstreamTargetKey

datatype ctx_value = VString string | VLogger nat

type_synonym Context = "contextKey \<rightharpoonup> ctx_value"

definition WithRequestID :: "Context \<Rightarrow> string \<Rightarrow> Context" where
  "WithRequestID ctx i = ctx(requestIDKey \<mapsto> VString i)"

definition GetRequestID :: "Context \<Rightarrow> string" where
  "GetRequestID ctx = (case ctx requestIDKey of Some (VString i) \<Rightarrow> i | _ \<Rightarrow> [])"

definition WithLogger :: "Context \<Rightarrow> nat \<Rightarrow> Context" where
  "WithLogger ctx l = ctx(loggerKey \<mapsto> VLogger l)"

text \<open>The argument \<open>dflt\<close> is \<open>slog.Default()\<close>.\<close>

definition GetLogger :: "nat \<Rightarrow> Context \<Rightarrow> nat" where
  "GetLogger dflt ctx = (case ctx loggerKey of Some (VLogger l) \<Rightarrow> l | _ \<Rightarrow> dflt)"

definition WithUpstreamTarget :: "Context \<Rightarrow> string \<Rightarrow> Context" where
  "WithUpstreamTarget ctx t = ctx(upstreamTargetKey \<mapsto> VString t)"

definition GetUpstreamTarget :: "Context \<Rightarrow> string" where
  "GetUpstreamTarget ctx = (case ctx upstreamTargetKey of Some (VString t) \<Rightarrow> t | _ \<Rightarrow> [])"

lemma context_laws [simp]:
  "GetRequestID (WithRequestID ctx i) = i" "GetLogger d (WithLogger ctx l) = l"
  "GetUpstreamTarget (WithUpstreamTarget ctx t) = t"
  "GetRequestID (WithLogger ctx l) = GetRequestID ctx"
  "GetRequestID (WithUpstreamTarget ctx t) = GetRequestID ctx"
  "GetUpstreamTarget (WithRequestID ctx i) = GetUpstreamTarget ctx"
  "GetUpstreamTarget (WithLogger ctx l) = GetUpstreamTarget ctx"
  "GetLogger d (WithRequestID ctx i) = GetLogger d ctx"
  "GetLogger d (WithUpstreamTarget ctx t) = GetLogger d ctx"
  by (simp_all add: WithRequestID_def GetRequestID_def WithLogger_def GetLogger_def
      WithUpstreamTarget_def GetUpstreamTarget_def)

section \<open>Requests\<close>

record Request =
  Method :: string
  RemoteAddr :: string
  ReqHost :: string
  TLS :: bool
  URL_Scheme :: string
  URL_Host :: string
  URL_Path :: string
  RawQuery :: string
  ReqHeader :: Header
  ReqContext :: Context
  ReqDeadline :: "Time option"

definition UserAgent :: "Request \<Rightarrow> string" where
  "UserAgent r = Header_Get (ReqHeader r) ''User-Agent''"

definition WithContext :: "Context \<Rightarrow> Request \<Rightarrow> Request" where
  "WithContext ctx r = r\<lparr>ReqContext := ctx\<rparr>"

fun LastIndexByte :: "string \<Rightarrow> char \<Rightarrow> int" where
  "LastIndexByte [] c = -1"
| "LastIndexByte (x # xs) c =
     (let i = LastIndexByte xs c in if i \<noteq> -1 then i + 1 else if x = c then 0 else -1)"

text \<open>\<open>net.SplitHostPort\<close>; \<open>None\<close> is an error.\<close>

definition SplitHostPort :: "string \<Rightarrow> (string \<times> string) option" where
  "SplitHostPort hp =
     (let i = LastIndexByte hp (CHR '':'')
      in if i < 0 then None
         else
           let parts =
             (if hd hp = CHR ''['' then
                let e = IndexByte hp (CHR '']'')
                in if e < 0 \<or> e + 1 = int (length hp) \<or> e + 1 \<noteq> i then None
                   else Some (take (nat (e - 1)) (drop 1 hp), 1, nat (e + 1))
              else
                let host = take (nat i) hp
                in if IndexByte host (CHR '':'') \<ge> 0 then None else Some (host, 0, 0))
           in case parts of
                None \<Rightarrow> None
              | Some (host, j, k) \<Rightarrow>
                  if IndexByte (drop j hp) (CHR ''['') \<ge> 0 then None
                  else if IndexByte (drop k hp) (CHR '']'') \<ge> 0 then None
                  else Some (host, drop (nat (i + 1)) hp))"

text \<open>\<open>IPKeyExtractor.Extract\<close>: the client a request is counted for.\<close>

definition Extract :: "Request \<Rightarrow> string" where
  "Extract r =
     (let xff = Header_Get (ReqHeader r) ''X-Forwarded-For''
      in if xff \<noteq> [] then
           let idx = IndexByte xff (CHR '','')
           in if idx \<noteq> -1 then TrimSpace (take (nat idx) xff) else TrimSpace xff
         else
           let xri = Header_Get (ReqHeader r) ''X-Real-IP''
           in if xri \<noteq> [] then xri
              else case SplitHostPort (RemoteAddr r) of None \<Rightarrow> RemoteAddr r | Some (host, _) \<Rightarrow> host)"

section \<open>Response writers\<close>

text \<open>
  The server's writer: the header map the handlers change, whether the final header is out, the
  status and headers that went out with it, the body, and the informational responses sent
  before.
\<close>

record Resp =
  rsHeader :: Header
  wroteHeader :: bool
  rsStatus :: int
  sentHeader :: Header
  rsBody :: string
  interim :: "(int \<times> Header) list"

definition fresh_resp :: Resp where
  "fresh_resp = \<lparr>rsHeader = Map.empty, wroteHeader = False, rsStatus = 0, sentHeader = Map.empty,
     rsBody = [], interim = []\<rparr>"

record responseWriter =
  statusCode :: int
  bytesWritten :: int
  written :: bool

datatype writer = Base Resp | Wrap responseWriter writer

definition newResponseWriter :: "writer \<Rightarrow> writer" where
  "newResponseWriter w = Wrap \<lparr>statusCode = 200, bytesWritten = 0, written = False\<rparr> w"

text \<open>How a handler ends: it returns, or a panic unwinds through it.\<close>

datatype outcome = Returned | Panicked string

fun header_of :: "writer \<Rightarrow> Header" where
  "header_of (Base rs) = rsHeader rs"
| "header_of (Wrap rw w) = header_of w"

fun on_header :: "(Header \<Rightarrow> Header) \<Rightarrow> writer \<Rightarrow> writer" where
  "on_header f (Base rs) = Base (rs\<lparr>rsHeader := f (rsHeader rs)\<rparr>)"
| "on_header f (Wrap rw w) = Wrap rw (on_header f w)"

definition set_header :: "string \<Rightarrow> string \<Rightarrow> writer \<Rightarrow> writer" where
  "set_header k v = on_header (Header_Set k v)"

text \<open>
  \<open>response.WriteHeader\<close> of the server: a second final header is ignored, a code outside
  100..999 panics, an informational code other than 101 is sent without ending the header.
\<close>

definition resp_WriteHeader :: "int \<Rightarrow> Resp \<Rightarrow> outcome \<times> Resp" where
  "resp_WriteHeader code rs =
     (if wroteHeader rs then (Returned, rs)
      else if code < 100 \<or> code > 999 then (Panicked ''invalid WriteHeader code'', rs)
      else if code \<le> 199 \<and> code \<noteq> 101 then (Returned, rs\<lparr>interim := interim rs @ [(code, rsHeader rs)]\<rparr>)
      else (Returned, rs\<lparr>wroteHeader := True, rsStatus := code, sentHeader := rsHeader rs\<rparr>))"

definition bodyAllowed :: "int \<Rightarrow> bool" where
  "bodyAllowed code \<longleftrightarrow> \<not> (100 \<le> code \<and> code \<le> 199) \<and> code \<noteq> 204 \<and> code \<noteq> 304"

text \<open>\<open>Write\<close> sends status 200 first if no header is out; it returns the number of bytes taken.\<close>

definition resp_Write :: "string \<Rightarrow> Resp \<Rightarrow> int \<times> Resp" where
  "resp_Write b rs =
     (let rs = snd (resp_WriteHeader 200 rs)
      in if bodyAllowed (rsStatus rs) then (int (length b), rs\<lparr>rsBody := rsBody rs @ b\<rparr>) else (0, rs))"

fun WriteHeader :: "int \<Rightarrow> writer \<Rightarrow> outcome \<times> writer" where
  "WriteHeader code (Base rs) = (case resp_WriteHeader code rs of (out, rs') \<Rightarrow> (out, Base rs'))"
| "WriteHeader code (Wrap rw w) =
     (let rw = (if \<not> written rw then rw\<lparr>statusCode := code, written := True\<rparr> else rw)
      in case WriteHeader code w of (out, w') \<Rightarrow> (out, Wrap rw w'))"

fun Write :: "string \<Rightarrow> writer \<Rightarrow> int \<times> writer" where
  "Write b (Base rs) = (case resp_Write b rs of (n, rs') \<Rightarrow> (n, Base rs'))"
| "Write b (Wrap rw w) =
     (let rw = (if \<not> written rw then rw\<lparr>statusCode := 200, written := True\<rparr> else rw)
      in case Write b w of (n, w') \<Rightarrow> (n, Wrap (rw\<lparr>bytesWritten := wrap64 (bytesWritten rw + n)\<rparr>) w'))"

text \<open>The server's writer below all wrappers.\<close>

fun base_of :: "writer \<Rightarrow> Resp" where
  "base_of (Base rs) = rs"
| "base_of (Wrap rw w) = base_of w"

text \<open>The wrapper a middleware made, and the writer it wrapped.\<close>

fun unwrap :: "writer \<Rightarrow> writer" where
  "unwrap (Wrap rw w) = w"
| "unwrap (Base rs) = Base rs"

fun wrapper :: "writer \<Rightarrow> responseWriter" where
  "wrapper (Wrap rw w) = rw"
| "wrapper (Base rs) = \<lparr>statusCode = 200, bytesWritten = 0, written = False\<rparr>"

text \<open>
  What a transport brings back for a request: an error, or informational responses followed by a
  final one with status, headers and body; the last component says whether the body could be read
  to its end.
\<close>

datatype upstream_result =
    RTError string
  | RTResponse "(int \<times> Header) list" int Header string bool

section \<open>JSON bodies\<close>

datatype json = JString string | JInt int | JObject "(string \<times> json) list"

text \<open>
  \<open>encoding/json\<close> with its escapes for ASCII; strings with other bytes are rendered by the
  argument \<open>uni\<close>. The keys of the maps the gateway encodes are constants, listed here in
  the sorted order the encoder uses.
\<close>

definition hex_digit :: "nat \<Rightarrow> char" where
  "hex_digit n = (if n < 10 then char_of (48 + n) else char_of (87 + n))"

definition json_escape :: "char \<Rightarrow> string" where
  "json_escape c =
     (let n = (of_char c :: nat) in
      if c = CHR 0x22 then [CHR 0x5C, CHR 0x22]
      else if c = CHR 0x5C then [CHR 0x5C, CHR 0x5C]
      else if n = 8 then [CHR 0x5C, CHR ''b''] else if n = 12 then [CHR 0x5C, CHR ''f'']
      else if n = 10 then [CHR 0x5C, CHR ''n''] else if n = 13 then [CHR 0x5C, CHR ''r'']
      else if n = 9 then [CHR 0x5C, CHR ''t'']
      else if n < 32 \<or> n \<in> {38, 60, 62} then [CHR 0x5C] @ ''u00'' @ [hex_digit (n div 16), hex_digit (n mod 16)]
      else [c])"

definition json_quote :: "(string \<Rightarrow> string) \<Rightarrow> string \<Rightarrow> string" where
  "json_quote uni s = [CHR 0x22] @ (if list_all is_ascii s then concat (map json_escape s) else uni s) @ [CHR 0x22]"

fun json_text :: "(string \<Rightarrow> string) \<Rightarrow> json \<Rightarrow> string" where
  "json_text uni (JString s) = json_quote uni s"
| "json_text uni (JInt n) = Itoa n"
| "json_text uni (JObject kvs) =
     ''{'' @ Join (map (\<lambda>(k, v). json_quote uni k @ '':'' @ json_text uni v) kvs) '','' @ ''}''"

definition Encode :: "(string \<Rightarrow> string) \<Rightarrow> json \<Rightarrow> writer \<Rightarrow> writer" where
  "Encode uni j w = snd (Write (json_text uni j @ [CHR 0x0A]) w)"

section \<open>Facts about writers\<close>

lemma WriteHeader_base:
  "fst (WriteHeader code w) = fst (resp_WriteHeader code (base_of w))"
  "base_of (snd (WriteHeader code w)) = snd (resp_WriteHeader code (base_of w))"
  by (induction w) (auto simp: Let_def split: prod.splits)

lemma Write_base:
  "fst (Write b w) = fst (resp_Write b (base_of w))"
  "base_of (snd (Write b w)) = snd (resp_Write b (base_of w))"
  by (induction w) (auto simp: Let_def split: prod.splits)

lemma on_header_base: "base_of (on_header f w) = (base_of w)\<lparr>rsHeader := f (rsHeader (base_of w))\<rparr>"
  by (induction w) auto

lemma header_of_base: "header_of w = rsHeader (base_of w)"
  by (induction w) auto

lemma base_newResponseWriter [simp]: "base_of (newResponseWriter w) = base_of w"
  by (simp add: newResponseWriter_def)

lemma unwrap_newResponseWriter [simp]: "unwrap (newResponseWriter w) = w"
  by (simp add: newResponseWriter_def)

lemma Encode_base: "base_of (Encode uni j w) = snd (resp_Write (json_text uni j @ [CHR 0x0A]) (base_of w))"
  by (simp add: Encode_def Write_base)

lemma set_header_base:
  "base_of (set_header k v w) = (base_of w)\<lparr>rsHeader := Header_Set k v (rsHeader (base_of w))\<rparr>"
  by (simp add: set_header_def on_header_base)

lemmas writer_base = WriteHeader_base Write_base Encode_base set_header_base

text \<open>The number of wrappers never changes.\<close>

fun depth :: "writer \<Rightarrow> nat" where
  "depth (Base rs) = 0"
| "depth (Wrap rw w) = Suc (depth w)"

lemma depth_ops [simp]:
  "depth (snd (WriteHeader code w)) = depth w" "depth (snd (Write b w)) = depth w"
  "depth (on_header f w) = depth w" "depth (set_header k v w) = depth w" "depth (Encode uni j w) = depth w"
proof -
  show a: "depth (snd (WriteHeader code w)) = depth w" by (induction w) (auto simp: Let_def split: prod.splits)
  show b: "depth (snd (Write b w)) = depth w" for b by (induction w) (auto simp: Let_def split: prod.splits)
  show c: "depth (on_header f w) = depth w" for f by (induction w) auto
  show "depth (set_header k v w) = depth w" "depth (Encode uni j w) = depth w"
    by (simp_all add: set_header_def Encode_def b c)
qed

text \<open>What a handler may do to a writer, and what the client finally gets as status.\<close>

datatype wop = SetOp string string | HeaderOp int | WriteOp string

fun wop_apply :: "wop \<Rightarrow> writer \<Rightarrow> writer" where
  "wop_apply (SetOp k v) w = set_header k v w"
| "wop_apply (HeaderOp c) w = snd (WriteHeader c w)"
| "wop_apply (WriteOp b) w = snd (Write b w)"

definition final_status :: "Resp \<Rightarrow> int" where
  "final_status rs = (if wroteHeader rs then rsStatus rs else 200)"

definition final_code :: "int \<Rightarrow> bool" where
  "final_code c \<longleftrightarrow> c = 101 \<or> 200 \<le> c \<and> c \<le> 999"

definition final_op :: "wop \<Rightarrow> bool" where
  "final_op p = (case p of HeaderOp c \<Rightarrow> final_code c | _ \<Rightarrow> True)"

text \<open>The wrapper agrees with the server's writer about the status.\<close>

definition captured :: "writer \<Rightarrow> bool" where
  "captured w \<longleftrightarrow> depth w \<noteq> 0 \<and> written (wrapper w) = wroteHeader (base_of w)
     \<and> statusCode (wrapper w) = final_status (base_of w)"

lemma captured_step:
  assumes "captured w" and "final_op p"
  shows "captured (wop_apply p w)"
proof -
  obtain rw v where w: "w = Wrap rw v" using assms(1) by (cases w) (auto simp: captured_def)
  show ?thesis
  proof (cases p)
    case (SetOp k x)
    then show ?thesis
      using assms(1) by (simp add: w captured_def set_header_def on_header_base final_status_def)
  next
    case (HeaderOp c)
    then have "final_code c" using assms(2) by (simp add: final_op_def)
    then show ?thesis
      using assms(1) WriteHeader_base [of c v]
      by (auto simp: HeaderOp w captured_def final_code_def final_status_def resp_WriteHeader_def Let_def
          split: prod.splits if_splits)
  next
    case (WriteOp b)
    then show ?thesis
      using assms(1) Write_base [of b v]
      by (auto simp: w captured_def final_status_def resp_Write_def resp_WriteHeader_def Let_def
          split: prod.splits if_splits)
  qed
qed

lemma captured_run: "captured w \<Longrightarrow> list_all final_op ops \<Longrightarrow> captured (fold wop_apply ops w)"
  by (induction ops arbitrary: w) (auto simp: captured_step)

lemma captured_new: "\<not> wroteHeader (base_of w) \<Longrightarrow> captured (newResponseWriter w)"
  by (simp add: captured_def newResponseWriter_def final_status_def)

end
