(* ===== verification/Go_Float.thy ===== *)
theory Go_Float
  imports Prelude "HOL-Library.Log_Nat"
begin

text \<open>
  Go's \<open>float64\<close>: IEEE 754 binary64 with round-to-nearest, ties to even, built on the
  rationals. A finite value is a rational; an arithmetic operation is the exact rational
  operation followed by rounding, with the IEEE rules for infinities and NaN. The two zeros
  are one value here: they differ only in the sign of a division by zero, and the gateway
  never divides by a value it has not checked to be positive.
\<close>

section \<open>Rounding a rational to 53 bits\<close>

text \<open>\<open>binexp x\<close> is the exponent of the binade of \<open>x \<noteq> 0\<close>: \<open>2^e \<le> |x| < 2^(e+1)\<close>.\<close>

definition binexp :: "rat \<Rightarrow> int" where
  "binexp x =
     (let (p, q) = quotient_of \<bar>x\<bar>; k = bitlen p - bitlen q
      in if 2 powi k \<le> \<bar>x\<bar> then k else k - 1)"

definition ulp :: "rat \<Rightarrow> rat" where
  "ulp x = 2 powi (max (binexp x - 52) (-1074))"

definition half_even :: "rat \<Rightarrow> int" where
  "half_even y =
     (let n = \<lfloor>y\<rfloor>; d = y - of_int n
      in if d < 1 / 2 then n else if d > 1 / 2 then n + 1 else if even n then n else n + 1)"

definition fl :: "rat \<Rightarrow> rat" where
  "fl x = (if x = 0 then 0 else of_int (half_even (x / ulp x)) * ulp x)"

section \<open>Facts about rounding\<close>

lemma bitlen_powi:
  assumes "0 < p"
  shows "2 powi (bitlen p - 1) \<le> (of_int p :: rat)" and "(of_int p :: rat) < 2 powi (bitlen p)"
proof -
  have b: "0 \<le> bitlen p - 1"
    using assms bitlen_eq_zero_iff [of p] bitlen_nonneg [of p] by linarith
  have le: "2 ^ nat (bitlen p - 1) \<le> p" and less: "p < 2 ^ nat (bitlen p)"
    using bitlen_bounds [OF assms] by auto
  have "(of_int (2 ^ nat (bitlen p - 1)) :: rat) \<le> of_int p" using le by (simp only: of_int_le_iff)
  then show "2 powi (bitlen p - 1) \<le> (of_int p :: rat)" using b by (simp add: power_int_def)
  have "(of_int p :: rat) < of_int (2 ^ nat (bitlen p))" using less by (simp only: of_int_less_iff)
  then show "(of_int p :: rat) < 2 powi (bitlen p)" using b by (simp add: power_int_def)
qed

lemma binexp_bounds:
  assumes "x \<noteq> 0"
  shows "2 powi (binexp x) \<le> \<bar>x\<bar>" and "\<bar>x\<bar> < 2 powi (binexp x + 1)"
proof -
  obtain p q where pq: "quotient_of \<bar>x\<bar> = (p, q)" by (cases "quotient_of \<bar>x\<bar>")
  have q: "0 < q" by (rule quotient_of_denom_pos [OF pq])
  have x: "\<bar>x\<bar> = of_int p / of_int q" by (rule quotient_of_div [OF pq])
  have "0 < \<bar>x\<bar>" using assms by simp
  then have p: "0 < p" using q by (simp add: x zero_less_divide_iff)
  define k where "k = bitlen p - bitlen q"
  have "2 powi (k - 1) = (2 powi (bitlen p - 1) :: rat) / 2 powi (bitlen q)"
    by (simp add: k_def power_int_diff [symmetric] algebra_simps)
  also have "\<dots> \<le> \<bar>x\<bar>"
    unfolding x using bitlen_powi [OF p] bitlen_powi [OF q] p q
    by (intro frac_le) auto
  finally have lo: "2 powi (k - 1) \<le> \<bar>x\<bar>" .
  have "\<bar>x\<bar> < (2 powi (bitlen p) :: rat) / 2 powi (bitlen q - 1)"
    unfolding x using bitlen_powi [OF p] bitlen_powi [OF q] p
    by (intro frac_less) auto
  also have "\<dots> = 2 powi (k + 1)"
    by (simp add: k_def power_int_diff [symmetric] algebra_simps)
  finally have hi: "\<bar>x\<bar> < 2 powi (k + 1)" .
  have e: "binexp x = (if 2 powi k \<le> \<bar>x\<bar> then k else k - 1)"
    by (simp add: binexp_def pq k_def Let_def)
  show "2 powi (binexp x) \<le> \<bar>x\<bar>" using lo by (simp add: e)
  show "\<bar>x\<bar> < 2 powi (binexp x + 1)" using hi by (simp add: e)
qed

lemma binexp_minus [simp]: "binexp (- x) = binexp x"
  by (simp add: binexp_def)

lemma powi2_less_iff: "(2 powi a :: rat) < 2 powi b \<longleftrightarrow> a < b"
  by (metis power_int_increasing power_int_strict_increasing one_le_numeral one_less_numeral_iff
      semiring_norm(76) linorder_not_less)

lemma binexp_mono:
  assumes "x \<noteq> 0" and "\<bar>x\<bar> \<le> \<bar>y\<bar>"
  shows "binexp x \<le> binexp y"
proof -
  have "y \<noteq> 0" using assms by auto
  have "(2 powi binexp x :: rat) < 2 powi (binexp y + 1)"
    using binexp_bounds(1) [OF assms(1)] binexp_bounds(2) [OF \<open>y \<noteq> 0\<close>] assms(2) by linarith
  then show ?thesis by (simp add: powi2_less_iff)
qed

lemma ulp_pos [simp]: "0 < ulp x"
  by (simp add: ulp_def)

lemma ulp_neq_0 [simp]: "ulp x \<noteq> 0"
  by (simp add: ulp_def)

lemma ulp_minus [simp]: "ulp (- x) = ulp x"
  by (simp add: ulp_def)

subsection \<open>Rounding to an integer\<close>

lemma half_even_int [simp]: "half_even (of_int n) = n"
  by (simp add: half_even_def)

lemma half_even_cases:
  obtains "half_even y = \<lfloor>y\<rfloor>" "y - of_int \<lfloor>y\<rfloor> \<le> 1 / 2"
  | "half_even y = \<lfloor>y\<rfloor> + 1" "1 / 2 \<le> y - of_int \<lfloor>y\<rfloor>"
  by (cases "y - of_int \<lfloor>y\<rfloor> < 1 / 2"; cases "y - of_int \<lfloor>y\<rfloor> > 1 / 2"; cases "even \<lfloor>y\<rfloor>")
     (auto simp: half_even_def Let_def)

lemma half_even_error: "\<bar>of_int (half_even y) - y\<bar> \<le> 1 / 2"
proof (cases rule: half_even_cases [of y])
  case 1
  then show ?thesis by simp
next
  case 2
  then show ?thesis using floor_correct [of y] by (simp add: abs_le_iff)
qed

lemma half_even_mono:
  assumes "y \<le> z"
  shows "half_even y \<le> half_even z"
proof (rule ccontr)
  assume "\<not> half_even y \<le> half_even z"
  then have gap: "half_even z + 1 \<le> half_even y" by simp
  have fl: "\<lfloor>y\<rfloor> \<le> \<lfloor>z\<rfloor>" using assms by (rule floor_mono)
  have "half_even y \<le> \<lfloor>y\<rfloor> + 1" "\<lfloor>z\<rfloor> \<le> half_even z"
    by (cases rule: half_even_cases [of y]; simp) (cases rule: half_even_cases [of z]; simp)
  with gap fl have eq: "\<lfloor>y\<rfloor> = \<lfloor>z\<rfloor>" "half_even y = \<lfloor>y\<rfloor> + 1" "half_even z = \<lfloor>z\<rfloor>" by auto
  then show False
    using assms by (auto simp: half_even_def Let_def split: if_splits)
qed

lemma half_even_minus: "half_even (- y) = - half_even y"
proof (cases "y \<in> \<int>")
  case True
  then obtain n where "y = of_int n" by (auto elim: Ints_cases)
  then show ?thesis by (metis half_even_int of_int_minus)
next
  case False
  then have f: "\<lfloor>- y\<rfloor> = - \<lfloor>y\<rfloor> - 1"
    by (metis ceiling_altdef ceiling_def Ints_of_int add.inverse_inverse diff_minus_eq_add
        floor_minus minus_add_distrib uminus_add_conv_diff)
  show ?thesis
    unfolding half_even_def Let_def f by (auto simp: algebra_simps)
qed

subsection \<open>Rounding to the binary64 grid\<close>

lemma fl_0 [simp]: "fl 0 = 0"
  by (simp add: fl_def)

lemma fl_minus [simp]: "fl (- x) = - fl x"
  by (simp add: fl_def half_even_minus)

lemma fl_le_grid:
  assumes "x \<le> of_int m * ulp x" and "x \<noteq> 0"
  shows "fl x \<le> of_int m * ulp x"
proof -
  have "x / ulp x \<le> of_int m" using assms(1) by (simp add: divide_le_eq)
  then have "half_even (x / ulp x) \<le> m" using half_even_mono [of "x / ulp x" "of_int m"] by simp
  then show ?thesis using assms(2) by (simp add: fl_def)
qed

lemma grid_le_fl:
  assumes "of_int m * ulp x \<le> x" and "x \<noteq> 0"
  shows "of_int m * ulp x \<le> fl x"
  using fl_le_grid [of "- x" "- m"] assms by simp

lemma fl_exact:
  assumes "x = of_int m * ulp x"
  shows "fl x = x"
proof (cases "x = 0")
  case False
  then show ?thesis using fl_le_grid [of x m] grid_le_fl [of m x] assms by auto
qed simp

lemma fl_error_ulp: "\<bar>fl x - x\<bar> \<le> ulp x / 2"
proof (cases "x = 0")
  case False
  have "fl x - x = (of_int (half_even (x / ulp x)) - x / ulp x) * ulp x"
    using False by (simp add: fl_def algebra_simps)
  then have "\<bar>fl x - x\<bar> = \<bar>of_int (half_even (x / ulp x)) - x / ulp x\<bar> * ulp x"
    by (simp add: abs_mult less_imp_le)
  also have "\<dots> \<le> 1 / 2 * ulp x"
    by (intro mult_right_mono half_even_error) (simp add: less_imp_le)
  finally show ?thesis by simp
qed (simp add: less_imp_le)

text \<open>The unit roundoff and half the smallest subnormal.\<close>

definition u_round :: rat where
  "u_round = 1 / 2 ^ 53"

definition tiny :: rat where
  "tiny = 2 powi (-1075)"

lemma tiny_pos: "0 < tiny"
  unfolding tiny_def by (rule zero_less_power_int) simp

lemma fl_error: "\<bar>fl x - x\<bar> \<le> u_round * \<bar>x\<bar> + tiny"
proof (cases "x = 0")
  case False
  have g: "ulp x \<le> 2 powi (binexp x - 52) + 2 powi (-1075 + 1)"
    unfolding ulp_def by (cases "binexp x - 52 \<le> -1074") (simp_all add: max_def less_imp_le)
  have n: "(2::rat) powi (binexp x - 52) \<le> \<bar>x\<bar> / 2 ^ 52"
    using binexp_bounds(1) [OF False] by (simp add: power_int_diff divide_right_mono)
  have t: "(2::rat) powi (-1075 + 1) = 2 * tiny"
    unfolding tiny_def by (subst power_int_add_1) simp_all
  have "ulp x \<le> \<bar>x\<bar> / 2 ^ 52 + 2 * tiny" using g n unfolding t by (meson add_mono order_refl order_trans)
  then have "ulp x / 2 \<le> (\<bar>x\<bar> / 2 ^ 52 + 2 * tiny) / 2" by (rule divide_right_mono) simp
  also have "\<dots> = u_round * \<bar>x\<bar> + tiny" by (simp add: u_round_def field_simps)
  finally show ?thesis using fl_error_ulp [of x] by linarith
qed (simp add: tiny_pos less_imp_le)

text \<open>A power of two not below the grid of \<open>x\<close> is a point of it.\<close>

lemma powi_on_grid:
  assumes "max (binexp x - 52) (-1074) \<le> e"
  shows "\<exists>m. (2::rat) powi e = of_int m * ulp x"
proof -
  let ?g = "max (binexp x - 52) (-1074)"
  have "(2::rat) powi e = 2 powi (e - ?g) * 2 powi ?g"
    by (simp add: power_int_add [symmetric])
  also have "(2::rat) powi (e - ?g) = of_int (2 ^ nat (e - ?g))"
    using assms by (simp add: power_int_def)
  finally show ?thesis unfolding ulp_def by blast
qed

lemma fl_mono_pos:
  assumes "0 < x" and "x \<le> y"
  shows "fl x \<le> fl y"
proof (cases "ulp x = ulp y")
  case True
  have "half_even (x / ulp x) \<le> half_even (y / ulp x)"
    using assms by (intro half_even_mono divide_right_mono) (auto simp: less_imp_le)
  then show ?thesis using assms True by (simp add: fl_def)
next
  case False
  have "binexp x \<le> binexp y" using assms by (intro binexp_mono) auto
  moreover have "binexp x \<noteq> binexp y" using False by (auto simp: ulp_def)
  moreover have "-1074 < binexp y - 52"
  proof (rule ccontr)
    assume "\<not> -1074 < binexp y - 52"
    then have "max (binexp x - 52) (-1074) = max (binexp y - 52) (-1074)"
      using \<open>binexp x \<le> binexp y\<close> by linarith
    with False show False by (simp add: ulp_def)
  qed
  ultimately have b: "binexp x < binexp y" "-1074 < binexp y - 52" by auto
  obtain m where m: "(2::rat) powi binexp y = of_int m * ulp x"
    using powi_on_grid [of x "binexp y"] b by auto
  obtain k where k: "(2::rat) powi binexp y = of_int k * ulp y"
    using powi_on_grid [of y "binexp y"] b by auto
  have "x < 2 powi (binexp x + 1)" using binexp_bounds(2) [of x] assms by simp
  also have "(2::rat) powi (binexp x + 1) \<le> 2 powi binexp y"
    using b by (intro power_int_increasing) auto
  finally have "fl x \<le> 2 powi binexp y" using fl_le_grid [of x m] m assms by simp
  also have "\<dots> \<le> fl y" using grid_le_fl [of k y] k binexp_bounds(1) [of y] assms by simp
  finally show ?thesis .
qed

lemma fl_nonneg: "0 \<le> x \<Longrightarrow> 0 \<le> fl x"
  using grid_le_fl [of 0 x] by (cases "x = 0") auto

lemma fl_mono:
  assumes "x \<le> y"
  shows "fl x \<le> fl y"
proof -
  consider "0 < x" | "y < 0" | "x \<le> 0" "0 \<le> y" using assms by linarith
  then show ?thesis
  proof cases
    case 1
    then show ?thesis using assms by (rule fl_mono_pos)
  next
    case 2
    then show ?thesis using fl_mono_pos [of "- y" "- x"] assms by simp
  next
    case 3
    then show ?thesis using fl_nonneg [of y] fl_nonneg [of "- x"] by simp
  qed
qed

lemma fl_of_int:
  assumes "\<bar>n\<bar> \<le> 2 ^ 53"
  shows "fl (of_int n) = of_int n"
proof (cases "n = 0")
  case False
  let ?x = "of_int n :: rat"
  have "(2::rat) powi binexp ?x \<le> \<bar>?x\<bar>" using False by (intro binexp_bounds) simp
  also have "\<bar>?x\<bar> = of_int \<bar>n\<bar>" by simp
  also have "\<dots> \<le> of_int (2 ^ 53)" using assms by (simp only: of_int_le_iff)
  also have "\<dots> = 2 powi 53" by simp
  also have "\<dots> < 2 powi 54" by simp
  finally have hi: "binexp ?x < 54" by (simp only: powi2_less_iff)
  have "(2::rat) powi 0 \<le> \<bar>?x\<bar>" using False by simp
  also have "\<dots> < 2 powi (binexp ?x + 1)" using False by (intro binexp_bounds) simp
  finally have lo: "0 \<le> binexp ?x" by (simp only: powi2_less_iff)
  show ?thesis
  proof (cases "binexp ?x \<le> 52")
    case True
    have "ulp ?x * 2 ^ nat (52 - binexp ?x) = 2 powi (binexp ?x - 52) * 2 powi (52 - binexp ?x)"
      using True lo by (simp add: ulp_def power_int_def)
    also have "\<dots> = 1" by (simp add: power_int_add [symmetric])
    finally have "?x = of_int (n * 2 ^ nat (52 - binexp ?x)) * ulp ?x" by (simp add: mult.commute)
    then show ?thesis by (rule fl_exact)
  next
    case False
    with hi have "binexp ?x = 53" by simp
    then have b: "(2::rat) ^ 53 \<le> \<bar>?x\<bar>" and u: "ulp ?x = 2"
      using binexp_bounds(1) [of ?x] \<open>n \<noteq> 0\<close> by (simp_all add: ulp_def)
    have "(of_int (2 ^ 53) :: rat) \<le> of_int \<bar>n\<bar>" using b by simp
    then have "2 ^ 53 \<le> \<bar>n\<bar>" by (simp only: of_int_le_iff)
    with assms have "\<bar>n\<bar> = 2 ^ 53" by simp
    then have "n = 2 ^ 53 \<or> n = - (2 ^ 53)" by linarith
    then have "n = (n div 2) * 2" by auto
    then have "?x = of_int (n div 2) * ulp ?x" unfolding u by (metis of_int_mult of_int_numeral)
    then show ?thesis by (rule fl_exact)
  qed
qed simp

text \<open>Scaling an integer by a power of two keeps it on the grid.\<close>

lemma binexp_unique:
  assumes "2 powi e \<le> \<bar>x\<bar>" and "\<bar>x\<bar> < 2 powi (e + 1)"
  shows "binexp x = e"
proof -
  have "0 < (2::rat) powi e" by simp
  then have "0 < \<bar>x\<bar>" using assms(1) by (rule less_le_trans)
  then have "x \<noteq> 0" by simp
  note b = binexp_bounds [OF this]
  have "(2::rat) powi e < 2 powi (binexp x + 1)" "(2::rat) powi binexp x < 2 powi (e + 1)"
    using assms b by linarith+
  then show ?thesis by (simp add: powi2_less_iff)
qed

lemma fl_on_own_grid: "\<exists>m. fl x = of_int m * ulp (fl x)"
proof (cases "x = 0 \<or> fl x = 0")
  case True
  then show ?thesis by (intro exI [of _ 0]) auto
next
  case False
  then have x: "x \<noteq> 0" and f: "fl x \<noteq> 0" by auto
  let ?e = "binexp x" and ?h = "half_even (x / ulp x)"
  have fx: "fl x = of_int ?h * ulp x" using x by (simp add: fl_def)
  have "max (?e - 52) (-1074) \<le> max (?e + 1) (-1074)" by linarith
  then obtain k where k: "(2::rat) powi (max (?e + 1) (-1074)) = of_int k * ulp x"
    using powi_on_grid by blast
  have up: "\<bar>fl x\<bar> \<le> 2 powi (max (?e + 1) (-1074))"
  proof -
    have "\<bar>x\<bar> \<le> 2 powi (?e + 1)" using binexp_bounds(2) [OF x] by simp
    also have "\<dots> \<le> (2::rat) powi (max (?e + 1) (-1074))" by (intro power_int_increasing) auto
    finally have "x \<le> of_int k * ulp x" "- x \<le> of_int k * ulp (- x)" unfolding k by auto
    then show ?thesis using fl_le_grid [of x k] fl_le_grid [of "- x" k] x unfolding k by auto
  qed
  show ?thesis
  proof (cases "\<bar>fl x\<bar> < 2 powi (max (?e + 1) (-1074))")
    case less: True
    have "binexp (fl x) \<le> max ?e (-1075)"
    proof -
      have "(2::rat) powi binexp (fl x) < 2 powi (max (?e + 1) (-1074))"
        using binexp_bounds(1) [OF f] less by linarith
      then show ?thesis by (simp add: powi2_less_iff)
    qed
    then have g: "max (binexp (fl x) - 52) (-1074) \<le> max (?e - 52) (-1074)" by linarith
    then have "ulp x = 2 powi (max (?e - 52) (-1074) - max (binexp (fl x) - 52) (-1074)) * ulp (fl x)"
      by (simp add: ulp_def power_int_add [symmetric])
    also have "(2::rat) powi (max (?e - 52) (-1074) - max (binexp (fl x) - 52) (-1074))
        = of_int (2 ^ nat (max (?e - 52) (-1074) - max (binexp (fl x) - 52) (-1074)))"
      using g by (simp add: power_int_def)
    finally have "fl x = of_int (?h * 2 ^ nat (max (?e - 52) (-1074) - max (binexp (fl x) - 52) (-1074)))
        * ulp (fl x)"
      using fx by simp
    then show ?thesis by blast
  next
    case False
    let ?E = "max (?e + 1) (-1074)"
    have eq: "\<bar>fl x\<bar> = 2 powi ?E" using up False by linarith
    then have "binexp (fl x) = ?E"
      by (intro binexp_unique) (auto simp: powi2_less_iff)
    then obtain m where "(2::rat) powi ?E = of_int m * ulp (fl x)"
      using powi_on_grid [of "fl x" ?E] by auto
    then have "fl x = of_int (if 0 \<le> fl x then m else - m) * ulp (fl x)" using eq by auto
    then show ?thesis by blast
  qed
qed

lemma fl_idem [simp]: "fl (fl x) = fl x"
  using fl_on_own_grid [of x] fl_exact [of "fl x"] by metis

lemma ulp_scale:
  assumes "n \<noteq> 0"
  shows "ulp (of_int n * 2 ^ j) = ulp (of_int n) * 2 ^ j"
proof -
  let ?x = "of_int n :: rat"
  have x: "?x \<noteq> 0" using assms by simp
  have "(2::rat) powi 0 \<le> \<bar>?x\<bar>" using assms by simp
  also have "\<dots> < 2 powi (binexp ?x + 1)" using x by (rule binexp_bounds)
  finally have lo: "0 \<le> binexp ?x" by (simp only: powi2_less_iff)
  have "binexp (?x * 2 ^ j) = binexp ?x + int j"
    using binexp_bounds [OF x]
    by (intro binexp_unique)
       (simp_all add: abs_mult power_int_add algebra_simps flip: power_int_of_nat)
  then have "ulp (?x * 2 ^ j) = 2 powi ((binexp ?x - 52) + int j)"
    using lo by (simp add: ulp_def max_def algebra_simps)
  also have "\<dots> = 2 powi (binexp ?x - 52) * 2 ^ j"
    by (subst power_int_add) simp_all
  finally show ?thesis using lo by (simp add: ulp_def)
qed

lemma fl_of_int_scaled:
  assumes "\<bar>n\<bar> \<le> 2 ^ 53"
  shows "fl (of_int n * 2 ^ j) = of_int n * 2 ^ j"
proof (cases "n = 0")
  case False
  obtain m where m: "(of_int n :: rat) = of_int m * ulp (of_int n)"
    using fl_on_own_grid [of "of_int n"] fl_of_int [OF assms] by auto
  then have "(of_int n * 2 ^ j :: rat) = of_int m * ulp (of_int n * 2 ^ j)"
    by (simp add: ulp_scale [OF False])
  then show ?thesis by (rule fl_exact)
qed simp

section \<open>What the arithmetic of the gateway needs of rounding\<close>

text \<open>
  The interface between the float format and the code that computes with it: rounding is
  monotone and idempotent, exact on integers up to \<open>2^53\<close>, and has a relative error of at
  most one unit roundoff (plus half a subnormal).
\<close>

locale rounding =
  fixes rd :: "rat \<Rightarrow> rat"
  assumes rd_mono: "x \<le> y \<Longrightarrow> rd x \<le> rd y"
    and rd_idem: "rd (rd x) = rd x"
    and rd_int: "\<bar>n\<bar> \<le> 2 ^ 53 \<Longrightarrow> rd (of_int n) = of_int n"
    and rd_error: "\<bar>rd x - x\<bar> \<le> u_round * \<bar>x\<bar> + tiny"
begin

lemma rd_0: "rd 0 = 0"
  using rd_int [of 0] by simp

lemma rd_nonneg: "0 \<le> x \<Longrightarrow> 0 \<le> rd x"
  using rd_mono [of 0 x] by (simp add: rd_0)

lemma rd_upper: "0 \<le> x \<Longrightarrow> rd x \<le> x * (1 + u_round) + tiny"
  using rd_error [of x] by (simp add: algebra_simps)

text \<open>Comparison with an exactly represented bound is not disturbed by rounding.\<close>

lemma rd_less_fixed: "rd b = b \<Longrightarrow> rd x < b \<Longrightarrow> x < b"
  using rd_mono [of b x] by fastforce

lemma rd_greater_fixed: "rd b = b \<Longrightarrow> b < rd x \<Longrightarrow> b < x"
  using rd_mono [of x b] by fastforce

text \<open>Adding a refill and cutting at the capacity overshoots the exact sum by one roundoff of
  the capacity at most.\<close>

lemma capped_sum_upper:
  assumes "rd b = b" and "0 \<le> x" and "0 \<le> d" and "0 \<le> b"
  shows "min b (rd (x + d)) \<le> x + d + (u_round * b + tiny)"
proof (cases "x + d \<le> b")
  case True
  have "rd (x + d) \<le> x + d + (u_round * (x + d) + tiny)"
    using rd_upper [of "x + d"] assms by (simp add: algebra_simps)
  also have "\<dots> \<le> x + d + (u_round * b + tiny)"
    using True by (simp add: u_round_def)
  finally show ?thesis by simp
next
  case False
  have "0 \<le> u_round * b + tiny" using assms(4) tiny_pos by (simp add: u_round_def)
  with False show ?thesis by (intro min.coboundedI1) linarith
qed

text \<open>Taking one token away leaves one roundoff too much at most.\<close>

lemma minus_one_upper:
  assumes "1 \<le> y" and "y \<le> b"
  shows "rd (y - 1) + 1 \<le> y + (u_round * b + tiny)"
proof -
  have "rd (y - 1) \<le> (y - 1) + u_round * (y - 1) + tiny"
    using rd_upper [of "y - 1"] assms by (simp add: algebra_simps)
  also have "u_round * (y - 1) \<le> u_round * b" using assms by (simp add: u_round_def)
  finally show ?thesis by simp
qed

end

interpretation binary64: rounding fl
  by unfold_locales (auto intro: fl_mono fl_of_int fl_error)

end
