(* ===== verification/Go_Float64.thy ===== *)
theory Go_Float64
  imports Go_Float "HOL-Library.Signed_Division"
begin

text \<open>
  The \<open>float64\<close> values with infinities and NaN, Go's operations on them, and the conversions
  the gateway uses: \<open>float64(n)\<close>, \<open>math.Floor\<close>, \<open>int(x)\<close>, \<open>time.Duration(x)\<close> and
  \<open>Duration.Seconds\<close>.
\<close>

datatype float64 = Fin rat | PInf | NInf | NaN

definition overflow_limit :: rat where
  "overflow_limit = 2 ^ 1024"

definition to_f64 :: "rat \<Rightarrow> float64" where
  "to_f64 x =
     (if \<bar>fl x\<bar> < overflow_limit then Fin (fl x) else if 0 < x then PInf else NInf)"

definition signed_inf :: "bool \<Rightarrow> float64" where
  "signed_inf positive = (if positive then PInf else NInf)"

instantiation float64 :: "{plus, minus, times, inverse, uminus, ord}"
begin

fun uminus_float64 :: "float64 \<Rightarrow> float64" where
  "uminus_float64 (Fin a) = Fin (- a)"
| "uminus_float64 PInf = NInf"
| "uminus_float64 NInf = PInf"
| "uminus_float64 NaN = NaN"

fun plus_float64 :: "float64 \<Rightarrow> float64 \<Rightarrow> float64" where
  "plus_float64 (Fin a) (Fin b) = to_f64 (a + b)"
| "plus_float64 NaN _ = NaN"
| "plus_float64 _ NaN = NaN"
| "plus_float64 PInf NInf = NaN"
| "plus_float64 NInf PInf = NaN"
| "plus_float64 PInf _ = PInf"
| "plus_float64 _ PInf = PInf"
| "plus_float64 NInf _ = NInf"
| "plus_float64 _ NInf = NInf"

definition minus_float64 :: "float64 \<Rightarrow> float64 \<Rightarrow> float64" where
  "minus_float64 x y = x + (- y)"

fun times_float64 :: "float64 \<Rightarrow> float64 \<Rightarrow> float64" where
  "times_float64 (Fin a) (Fin b) = to_f64 (a * b)"
| "times_float64 NaN _ = NaN"
| "times_float64 _ NaN = NaN"
| "times_float64 (Fin a) PInf = (if a = 0 then NaN else signed_inf (0 < a))"
| "times_float64 (Fin a) NInf = (if a = 0 then NaN else signed_inf (a < 0))"
| "times_float64 PInf (Fin a) = (if a = 0 then NaN else signed_inf (0 < a))"
| "times_float64 NInf (Fin a) = (if a = 0 then NaN else signed_inf (a < 0))"
| "times_float64 PInf PInf = PInf"
| "times_float64 NInf NInf = PInf"
| "times_float64 PInf NInf = NInf"
| "times_float64 NInf PInf = NInf"

fun divide_float64 :: "float64 \<Rightarrow> float64 \<Rightarrow> float64" where
  "divide_float64 (Fin a) (Fin b) =
     (if b = 0 then (if a = 0 then NaN else signed_inf (0 < a)) else to_f64 (a / b))"
| "divide_float64 NaN _ = NaN"
| "divide_float64 _ NaN = NaN"
| "divide_float64 (Fin _) _ = Fin 0"
| "divide_float64 PInf (Fin b) = signed_inf (0 \<le> b)"
| "divide_float64 NInf (Fin b) = signed_inf (b < 0)"
| "divide_float64 _ _ = NaN"

definition inverse_float64 :: "float64 \<Rightarrow> float64" where
  "inverse_float64 x = divide (Fin 1) x"

fun less_eq_float64 :: "float64 \<Rightarrow> float64 \<Rightarrow> bool" where
  "less_eq_float64 (Fin a) (Fin b) = (a \<le> b)"
| "less_eq_float64 NaN _ = False"
| "less_eq_float64 _ NaN = False"
| "less_eq_float64 NInf _ = True"
| "less_eq_float64 _ PInf = True"
| "less_eq_float64 _ _ = False"

fun less_float64 :: "float64 \<Rightarrow> float64 \<Rightarrow> bool" where
  "less_float64 (Fin a) (Fin b) = (a < b)"
| "less_float64 NaN _ = False"
| "less_float64 _ NaN = False"
| "less_float64 NInf NInf = False"
| "less_float64 PInf PInf = False"
| "less_float64 NInf _ = True"
| "less_float64 _ PInf = True"
| "less_float64 _ _ = False"

instance ..

end

section \<open>Conversions\<close>

definition float64_of_int :: "int \<Rightarrow> float64" where
  "float64_of_int n = to_f64 (of_int n)"

definition math_Floor :: "float64 \<Rightarrow> float64" where
  "math_Floor x = (case x of Fin r \<Rightarrow> Fin (of_int \<lfloor>r\<rfloor>) | _ \<Rightarrow> x)"

text \<open>Truncation towards zero.\<close>

definition trunc :: "rat \<Rightarrow> int" where
  "trunc r = (if 0 \<le> r then \<lfloor>r\<rfloor> else \<lceil>r\<rceil>)"

text \<open>
  \<open>int64(x)\<close> truncates; when the truncated value does not fit, the language leaves the
  result to the implementation, here the argument \<open>impl\<close>.
\<close>

definition int64_of :: "(float64 \<Rightarrow> int) \<Rightarrow> float64 \<Rightarrow> int" where
  "int64_of impl x = (case x of
       Fin r \<Rightarrow> if in_int64 (trunc r) then trunc r else impl x
     | _ \<Rightarrow> impl x)"

definition Duration_Seconds :: "Duration \<Rightarrow> float64" where
  "Duration_Seconds d =
     float64_of_int (d sdiv time_Second)
       + float64_of_int (d smod time_Second) / float64_of_int time_Second"

section \<open>NaN\<close>

lemma NaN_absorbs [simp]:
  "x + NaN = NaN" "NaN + x = NaN" "x * NaN = NaN" "NaN * x = NaN"
  by (cases x; simp)+

lemma NaN_incomparable [simp]:
  "\<not> x < NaN" "\<not> NaN < x" "\<not> x \<le> NaN" "\<not> NaN \<le> (x :: float64)"
  by (cases x; simp)+

section \<open>Operations that stay finite\<close>

lemma overflow_limit_big: "2 ^ 1000 < overflow_limit"
  unfolding overflow_limit_def by (rule power_strict_increasing) simp_all

lemma fl_abs: "fl \<bar>x\<bar> = \<bar>fl x\<bar>"
  using fl_nonneg [of x] fl_nonneg [of "- x"] by (cases "0 \<le> x") auto

lemma fl_below_power: "\<bar>x\<bar> \<le> 2 ^ n \<Longrightarrow> \<bar>fl x\<bar> \<le> 2 ^ n"
  using fl_mono [of "\<bar>x\<bar>" "2 ^ n"] fl_of_int_scaled [of 1 n] by (simp add: fl_abs)

lemma to_f64_fin:
  assumes "\<bar>x\<bar> \<le> 2 ^ 1000"
  shows "to_f64 x = Fin (fl x)"
  using fl_below_power [OF assms] overflow_limit_big by (simp add: to_f64_def)

lemma to_f64_nonneg_cases:
  assumes "0 \<le> x"
  shows "to_f64 x = Fin (fl x) \<and> fl x < overflow_limit \<or>
         to_f64 x = PInf \<and> overflow_limit \<le> fl x"
proof -
  have "x \<noteq> 0" if "overflow_limit \<le> fl x"
    using that by (auto simp: overflow_limit_def)
  then show ?thesis using assms fl_nonneg [OF assms] by (auto simp: to_f64_def not_less)
qed

lemma pow2_1000_le: "n \<le> 1000 \<Longrightarrow> (2::rat) ^ n \<le> 2 ^ 1000"
  by (rule power_increasing) simp_all

lemma float64_of_int_exact:
  assumes "\<bar>n\<bar> \<le> 2 ^ 53"
  shows "float64_of_int n = Fin (of_int n)"
proof -
  have "(of_int \<bar>n\<bar> :: rat) \<le> of_int (2 ^ 53)" using assms by (simp only: of_int_le_iff)
  then have "\<bar>of_int n :: rat\<bar> \<le> 2 ^ 53" by simp
  also have "\<dots> \<le> 2 ^ 1000" by (rule pow2_1000_le) simp
  finally show ?thesis using fl_of_int [OF assms] by (simp add: float64_of_int_def to_f64_fin)
qed

section \<open>Seconds of a duration\<close>

lemma duration_parts:
  assumes "0 \<le> d" and "d \<le> max_int64"
  shows "d sdiv time_Second = d div time_Second" and "d smod time_Second = d mod time_Second"
    and "0 \<le> d div time_Second" and "d div time_Second \<le> 2 ^ 34"
    and "0 \<le> d mod time_Second" and "d mod time_Second < 10 ^ 9"
  using assms
  by (simp_all add: time_Second_def signed_divide_int_def signed_modulo_int_def
      sgn_if minus_div_mult_eq_mod max_int64_def)

definition seconds :: "Duration \<Rightarrow> rat" where
  "seconds d = fl (of_int (d div time_Second) + fl (of_int (d mod time_Second) / 10 ^ 9))"

lemma nanos_float:
  assumes "0 \<le> n" and "n < 10 ^ 9"
  shows "float64_of_int n / float64_of_int time_Second = Fin (fl (of_int n / 10 ^ 9))"
    and "0 \<le> fl (of_int n / 10 ^ 9)" and "fl (of_int n / 10 ^ 9) \<le> 1"
proof -
  have n: "float64_of_int n = Fin (of_int n)" using assms by (intro float64_of_int_exact) simp
  have s: "float64_of_int time_Second = Fin (10 ^ 9)"
    by (subst float64_of_int_exact) (simp_all add: time_Second_def)
  have r: "(0::rat) \<le> of_int n / 10 ^ 9" "(of_int n / 10 ^ 9 :: rat) \<le> 1"
    using assms by simp_all
  have "\<bar>of_int n / 10 ^ 9 :: rat\<bar> \<le> 2 ^ 0" using r by simp
  also have "\<dots> \<le> (2::rat) ^ 1000" by (rule pow2_1000_le) simp
  finally show "float64_of_int n / float64_of_int time_Second = Fin (fl (of_int n / 10 ^ 9))"
    unfolding n s by (simp add: to_f64_fin)
  show "0 \<le> fl (of_int n / 10 ^ 9)" using r(1) by (rule fl_nonneg)
  show "fl (of_int n / 10 ^ 9) \<le> 1" using fl_mono [OF r(2)] fl_of_int [of 1] by simp
qed

lemma seconds_int_part:
  assumes "0 \<le> d" and "d \<le> max_int64"
  shows "of_int (d div time_Second) \<le> seconds d"
proof -
  have "fl (of_int (d div time_Second)) \<le> seconds d"
    unfolding seconds_def
    using nanos_float(2) [of "d mod time_Second"] duration_parts [OF assms]
    by (intro fl_mono) simp
  then show ?thesis using fl_of_int [of "d div time_Second"] duration_parts [OF assms] by simp
qed

lemma seconds_nonneg: "0 \<le> d \<Longrightarrow> d \<le> max_int64 \<Longrightarrow> 0 \<le> seconds d"
  using seconds_int_part [of d] duration_parts(3) [of d] by (meson of_int_0_le_iff order_trans)

lemma seconds_0 [simp]: "seconds 0 = 0"
  by (simp add: seconds_def)

lemma Duration_Seconds_fin:
  assumes "0 \<le> d" and "d \<le> max_int64"
  shows "Duration_Seconds d = Fin (seconds d)" and "seconds d \<le> 2 ^ 35"
proof -
  note p = duration_parts [OF assms]
  let ?s = "of_int (d div time_Second) :: rat" and ?f = "fl (of_int (d mod time_Second) / 10 ^ 9)"
  have s: "float64_of_int (d div time_Second) = Fin ?s" using p by (intro float64_of_int_exact) simp
  have "(of_int (d div time_Second) :: rat) \<le> of_int (2 ^ 34)" using p(4) by (simp only: of_int_le_iff)
  moreover have "(0::rat) \<le> ?s" using p(3) by simp
  ultimately have b: "\<bar>?s + ?f\<bar> \<le> 2 ^ 35"
    using nanos_float(2,3) [OF p(5,6)] by simp
  also have "\<dots> \<le> (2::rat) ^ 1000" by (rule pow2_1000_le) simp
  finally show "Duration_Seconds d = Fin (seconds d)"
    unfolding Duration_Seconds_def p(1,2) s nanos_float(1) [OF p(5,6)]
    by (simp add: to_f64_fin seconds_def)
  show "seconds d \<le> 2 ^ 35"
    using fl_below_power [OF b] unfolding seconds_def by linarith
qed

lemma seconds_upper:
  assumes "0 \<le> d" and "d \<le> max_int64"
  shows "seconds d \<le> of_int d / 10 ^ 9 * (1 + u_round) ^ 2 + 3 * tiny"
proof -
  note p = duration_parts [OF assms]
  let ?s = "of_int (d div time_Second) :: rat" and ?g = "of_int (d mod time_Second) / 10 ^ 9 :: rat"
  have u: "0 \<le> u_round" "u_round \<le> 1" by (simp_all add: u_round_def)
  have "d = d div time_Second * 10 ^ 9 + d mod time_Second"
    by (simp add: time_Second_def)
  then have "(of_int d :: rat) = ?s * 10 ^ 9 + of_int (d mod time_Second)"
    by (metis of_int_add of_int_mult of_int_numeral of_int_power)
  then have d: "of_int d / 10 ^ 9 = ?s + ?g" by (simp add: field_simps)
  have s0: "0 \<le> ?s" and g0: "0 \<le> ?g" using p by simp_all
  have f0: "0 \<le> fl ?g" using g0 by (rule fl_nonneg)
  have "seconds d \<le> (?s + fl ?g) * (1 + u_round) + tiny"
    unfolding seconds_def using s0 f0 by (intro binary64.rd_upper) simp
  also have "\<dots> \<le> (?s + (?g * (1 + u_round) + tiny)) * (1 + u_round) + tiny"
    using binary64.rd_upper [OF g0] u by (intro add_right_mono mult_right_mono) auto
  also have "\<dots> = (?s + ?g * (1 + u_round)) * (1 + u_round) + (tiny * (1 + u_round) + tiny)"
    by (simp add: algebra_simps)
  also have "\<dots> \<le> (?s * (1 + u_round) + ?g * (1 + u_round)) * (1 + u_round) + 3 * tiny"
    using s0 u tiny_pos mult_left_mono [of "1 + u_round" 2 tiny]
    by (intro add_mono mult_right_mono) (auto simp: algebra_simps)
  also have "\<dots> = of_int d / 10 ^ 9 * (1 + u_round) ^ 2 + 3 * tiny"
    unfolding d by (simp add: power2_eq_square algebra_simps)
  finally show ?thesis .
qed

end
