(* ===== verification/Config.thy ===== *)
theory Config
  imports Go_Strings Go_Float64
begin

text \<open>
  The configuration, \<open>internal/config/config.go\<close>: the records the YAML file is decoded into,
  \<open>ApplyDefaults\<close> and \<open>Validate\<close>. A pointer field that may be nil is an \<open>option\<close>.
  \<open>url.Parse\<close> is an argument: it returns a parsed URL or the text of its error.
\<close>

section \<open>Data\<close>

text \<open>
  What the gateway reads of a parsed target URL: its scheme, its host and the text that
  \<open>URL.String\<close> renders. Target URLs are never changed after parsing.
\<close>

record URL =
  Scheme :: string
  Host :: string
  URL_String :: string

type_synonym url_parser = "string \<Rightarrow> string + URL"

record ServerConfig =
  scPort :: int
  scReadTimeout :: Duration
  scWriteTimeout :: Duration
  scIdleTimeout :: Duration

record TargetConfig =
  tcURL :: string
  tcWeight :: int

record RateLimitConfig =
  rlRequestsPerSecond :: float64
  rlBurst :: int

record CircuitBreakerConfig =
  cbFailureThreshold :: int
  cbResetTimeout :: Duration
  cbHalfOpenMaxReqs :: int

record RouteConfig =
  rcPath :: string
  rcMethods :: "string list"
  rcTargets :: "TargetConfig list"
  rcBalanceStrategy :: string
  rcStripPrefix :: bool
  rcTimeout :: Duration
  rcRateLimit :: "RateLimitConfig option"
  rcCircuitBreaker :: "CircuitBreakerConfig option"

record MetricsConfig =
  mcEnabled :: bool
  mcPath :: string

record LoggingConfig =
  lcLevel :: string
  lcFormat :: string

record CORSConfig =
  AllowedOrigins :: "string list"
  AllowedMethods :: "string list"
  AllowedHeaders :: "string list"
  corsMaxAge :: int

record GatewayConfig =
  Server :: ServerConfig
  Routes :: "RouteConfig list"
  Metrics :: MetricsConfig
  Logging :: LoggingConfig
  CORS :: CORSConfig

section \<open>Defaults\<close>

definition default_server :: "ServerConfig \<Rightarrow> ServerConfig" where
  "default_server s = s\<lparr>
     scPort := (if scPort s = 0 then 8080 else scPort s),
     scReadTimeout := (if scReadTimeout s = 0 then 30 * time_Second else scReadTimeout s),
     scWriteTimeout := (if scWriteTimeout s = 0 then 30 * time_Second else scWriteTimeout s),
     scIdleTimeout := (if scIdleTimeout s = 0 then 120 * time_Second else scIdleTimeout s)\<rparr>"

definition default_logging :: "LoggingConfig \<Rightarrow> LoggingConfig" where
  "default_logging l = l\<lparr>
     lcLevel := (if lcLevel l = [] then ''info'' else lcLevel l),
     lcFormat := (if lcFormat l = [] then ''json'' else lcFormat l)\<rparr>"

definition default_metrics :: "MetricsConfig \<Rightarrow> MetricsConfig" where
  "default_metrics m =
     (let m = (if \<not> mcEnabled m \<and> mcPath m = [] then m\<lparr>mcEnabled := True\<rparr> else m)
      in if mcPath m = [] then m\<lparr>mcPath := ''/metrics''\<rparr> else m)"

definition default_cors :: "CORSConfig \<Rightarrow> CORSConfig" where
  "default_cors c = c\<lparr>
     AllowedOrigins := (if AllowedOrigins c = [] then [''*''] else AllowedOrigins c),
     AllowedMethods := (if AllowedMethods c = []
       then [''GET'', ''POST'', ''PUT'', ''DELETE'', ''OPTIONS''] else AllowedMethods c),
     corsMaxAge := (if corsMaxAge c = 0 then 86400 else corsMaxAge c)\<rparr>"

definition default_target :: "TargetConfig \<Rightarrow> TargetConfig" where
  "default_target t = (if tcWeight t = 0 then t\<lparr>tcWeight := 1\<rparr> else t)"

definition default_breaker :: "CircuitBreakerConfig \<Rightarrow> CircuitBreakerConfig" where
  "default_breaker cb = cb\<lparr>
     cbFailureThreshold := (if cbFailureThreshold cb = 0 then 5 else cbFailureThreshold cb),
     cbResetTimeout := (if cbResetTimeout cb = 0 then 30 * time_Second else cbResetTimeout cb),
     cbHalfOpenMaxReqs := (if cbHalfOpenMaxReqs cb = 0 then 3 else cbHalfOpenMaxReqs cb)\<rparr>"

definition default_route :: "RouteConfig \<Rightarrow> RouteConfig" where
  "default_route r = r\<lparr>
     rcTimeout := (if rcTimeout r = 0 then 30 * time_Second else rcTimeout r),
     rcBalanceStrategy := (if rcBalanceStrategy r = [] then ''round-robin'' else rcBalanceStrategy r),
     rcTargets := map default_target (rcTargets r),
     rcCircuitBreaker := map_option default_breaker (rcCircuitBreaker r)\<rparr>"

definition ApplyDefaults :: "GatewayConfig \<Rightarrow> GatewayConfig" where
  "ApplyDefaults c = c\<lparr>
     Server := default_server (Server c),
     Logging := default_logging (Logging c),
     Metrics := default_metrics (Metrics c),
     CORS := default_cors (CORS c),
     Routes := map default_route (Routes c)\<rparr>"

section \<open>Validation\<close>

definition err_if :: "bool \<Rightarrow> 'a \<Rightarrow> 'a list" where
  "err_if b x = (if b then [x] else [])"

definition quoted :: "string \<Rightarrow> string" where
  "quoted s = CHR 0x27 # s @ [CHR 0x27]"

text \<open>The prefixes \<open>route[i]\<close> and \<open>route[i].target[j]\<close> of the messages.\<close>

definition route_tag :: "nat \<Rightarrow> string" where
  "route_tag i = ''route['' @ Itoa (int i) @ '']''"

definition target_tag :: "nat \<Rightarrow> nat \<Rightarrow> string" where
  "target_tag i j = route_tag i @ ''.target['' @ Itoa (int j) @ '']''"

definition target_errs :: "url_parser \<Rightarrow> nat \<Rightarrow> nat \<Rightarrow> TargetConfig \<Rightarrow> string list" where
  "target_errs parse i j t =
     (case parse (tcURL t) of
        Inl err \<Rightarrow> [target_tag i j @ '': invalid URL: '' @ err] | Inr _ \<Rightarrow> [])
     @ err_if (tcURL t = []) (target_tag i j @ '': URL is required'')"

definition route_errs :: "url_parser \<Rightarrow> nat \<Rightarrow> RouteConfig \<Rightarrow> string list" where
  "route_errs parse i r =
     err_if (rcPath r = []) (route_tag i @ '': path is required'')
     @ err_if (rcPath r \<noteq> [] \<and> \<not> HasPrefix (rcPath r) ''/'')
         (route_tag i @ '': path must start with /'')
     @ err_if (Contains (rcPath r) ''..'')
         (route_tag i @ '': path must not contain '' @ quoted ''..'' @ '' (path traversal)'')
     @ err_if (rcTargets r = []) (route_tag i @ '': at least one target required'')
     @ concat (map (\<lambda>(j, t). target_errs parse i j t) (enumerate 0 (rcTargets r)))
     @ err_if (rcBalanceStrategy r \<noteq> [] \<and> rcBalanceStrategy r \<noteq> ''round-robin''
             \<and> rcBalanceStrategy r \<noteq> ''weighted'')
         (route_tag i @ '': unsupported balance strategy: '' @ rcBalanceStrategy r)
     @ (case rcRateLimit r of None \<Rightarrow> []
        | Some rl \<Rightarrow>
            err_if (rlRequestsPerSecond rl \<le> Fin 0) (route_tag i @ '': requests_per_second must be > 0'')
            @ err_if (rlBurst rl \<le> 0) (route_tag i @ '': burst must be > 0''))"

definition config_errs :: "url_parser \<Rightarrow> GatewayConfig \<Rightarrow> string list" where
  "config_errs parse c =
     err_if (scPort (Server c) < 1 \<or> scPort (Server c) > 65535)
       (''invalid port: '' @ Itoa (scPort (Server c)))
     @ err_if (Routes c = []) ''at least one route required''
     @ concat (map (\<lambda>(i, r). route_errs parse i r) (enumerate 0 (Routes c)))
     @ err_if (lcLevel (Logging c) \<notin> {''debug'', ''info'', ''warn'', ''error''})
         (''invalid log level: '' @ lcLevel (Logging c))
     @ err_if (lcFormat (Logging c) \<notin> {''json'', ''text''})
         (''invalid log format: '' @ lcFormat (Logging c))"

text \<open>\<open>None\<close> is the nil error.\<close>

definition Validate :: "url_parser \<Rightarrow> GatewayConfig \<Rightarrow> string option" where
  "Validate parse c =
     (let errs = config_errs parse c; sep = CHR 0x0A # ''  ''
      in if errs \<noteq> [] then Some (''config validation failed:'' @ sep @ Join errs sep) else None)"

section \<open>Defaults are complete and idempotent\<close>

lemmas default_defs =
  default_server_def default_logging_def default_metrics_def default_cors_def
  default_target_def default_breaker_def default_route_def

lemma default_idem [simp]:
  "default_server (default_server s) = default_server s"
  "default_logging (default_logging l) = default_logging l"
  "default_metrics (default_metrics m) = default_metrics m"
  "default_cors (default_cors k) = default_cors k"
  "default_target (default_target t) = default_target t"
  "default_breaker (default_breaker b) = default_breaker b"
  by (simp_all add: default_defs time_Second_def Let_def)

lemma default_route_idem [simp]: "default_route (default_route r) = default_route r"
proof -
  have "map default_target (map default_target ts) = map default_target ts" for ts
    by (simp add: comp_def)
  moreover have "map_option default_breaker (map_option default_breaker b) = map_option default_breaker b" for b
    by (cases b) simp_all
  ultimately show ?thesis by (simp add: default_route_def time_Second_def)
qed

definition defaults_set :: "GatewayConfig \<Rightarrow> bool" where
  "defaults_set c \<longleftrightarrow>
     scPort (Server c) \<noteq> 0 \<and> scReadTimeout (Server c) \<noteq> 0 \<and> scWriteTimeout (Server c) \<noteq> 0
     \<and> scIdleTimeout (Server c) \<noteq> 0 \<and> lcLevel (Logging c) \<noteq> [] \<and> lcFormat (Logging c) \<noteq> []
     \<and> mcPath (Metrics c) \<noteq> [] \<and> AllowedOrigins (CORS c) \<noteq> [] \<and> AllowedMethods (CORS c) \<noteq> []
     \<and> corsMaxAge (CORS c) \<noteq> 0
     \<and> list_all (\<lambda>r. rcTimeout r \<noteq> 0 \<and> rcBalanceStrategy r \<noteq> []
          \<and> list_all (\<lambda>t. tcWeight t \<noteq> 0) (rcTargets r)
          \<and> (case rcCircuitBreaker r of None \<Rightarrow> True
             | Some b \<Rightarrow> cbFailureThreshold b \<noteq> 0 \<and> cbResetTimeout b \<noteq> 0 \<and> cbHalfOpenMaxReqs b \<noteq> 0))
        (Routes c)"

lemma ApplyDefaults_idem: "ApplyDefaults (ApplyDefaults c) = ApplyDefaults c"
proof -
  have "map default_route (map default_route rs) = map default_route rs" for rs
    by (simp add: comp_def)
  then show ?thesis by (simp add: ApplyDefaults_def)
qed

lemma defaults_set_ApplyDefaults: "defaults_set (ApplyDefaults c)"
  by (auto simp: defaults_set_def ApplyDefaults_def default_defs Let_def list_all_iff time_Second_def
           split: option.splits)

text \<open>On a configuration with every field set the defaults change nothing.\<close>

lemma default_route_set:
  assumes "rcTimeout r \<noteq> 0" "rcBalanceStrategy r \<noteq> []" "list_all (\<lambda>t. tcWeight t \<noteq> 0) (rcTargets r)"
    and "case rcCircuitBreaker r of None \<Rightarrow> True
         | Some b \<Rightarrow> cbFailureThreshold b \<noteq> 0 \<and> cbResetTimeout b \<noteq> 0 \<and> cbHalfOpenMaxReqs b \<noteq> 0"
  shows "default_route r = r"
proof -
  have "map default_target (rcTargets r) = rcTargets r"
    using assms(3) by (induction "rcTargets r" arbitrary: r) (auto simp: default_target_def list_all_iff intro: map_idI)
  moreover have "map_option default_breaker (rcCircuitBreaker r) = rcCircuitBreaker r"
    using assms(4) by (cases "rcCircuitBreaker r") (auto simp: default_breaker_def)
  ultimately show ?thesis using assms(1,2) by (simp add: default_route_def)
qed

lemma ApplyDefaults_unchanged:
  assumes "defaults_set c"
  shows "ApplyDefaults c = c"
proof -
  have "map default_route (Routes c) = Routes c"
    using assms by (intro map_idI) (auto simp: defaults_set_def list_all_iff intro!: default_route_set)
  then show ?thesis
    using assms by (simp add: defaults_set_def ApplyDefaults_def default_server_def default_logging_def
        default_metrics_def default_cors_def)
qed

section \<open>What validation accepts\<close>

definition valid_target :: "url_parser \<Rightarrow> TargetConfig \<Rightarrow> bool" where
  "valid_target parse t \<longleftrightarrow> tcURL t \<noteq> [] \<and> (\<exists>u. parse (tcURL t) = Inr u)"

definition valid_route :: "url_parser \<Rightarrow> RouteConfig \<Rightarrow> bool" where
  "valid_route parse r \<longleftrightarrow>
     (\<exists>rest. rcPath r = ''/'' @ rest) \<and> (\<nexists>a b. rcPath r = a @ ''..'' @ b)
     \<and> rcTargets r \<noteq> [] \<and> (\<forall>t \<in> set (rcTargets r). valid_target parse t)
     \<and> rcBalanceStrategy r \<in> {[], ''round-robin'', ''weighted''}
     \<and> (\<forall>rl. rcRateLimit r = Some rl \<longrightarrow> \<not> rlRequestsPerSecond rl \<le> Fin 0 \<and> 0 < rlBurst rl)"

definition valid_config :: "url_parser \<Rightarrow> GatewayConfig \<Rightarrow> bool" where
  "valid_config parse c \<longleftrightarrow>
     1 \<le> scPort (Server c) \<and> scPort (Server c) \<le> 65535
     \<and> Routes c \<noteq> [] \<and> (\<forall>r \<in> set (Routes c). valid_route parse r)
     \<and> lcLevel (Logging c) \<in> {''debug'', ''info'', ''warn'', ''error''}
     \<and> lcFormat (Logging c) \<in> {''json'', ''text''}"

lemma err_if_Nil [simp]: "err_if b x = [] \<longleftrightarrow> \<not> b"
  by (simp add: err_if_def)

lemma concat_enumerate_Nil:
  "concat (map (\<lambda>(i, x). f i x) (enumerate n xs)) = [] \<longleftrightarrow>
   (\<forall>i < length xs. f (n + i) (xs ! i) = [])"
proof (induction xs arbitrary: n)
  case (Cons x xs)
  then show ?case by (auto simp: less_Suc_eq_0_disj)
qed simp

lemma target_errs_Nil: "target_errs parse i j t = [] \<longleftrightarrow> valid_target parse t"
  by (auto simp: target_errs_def valid_target_def split: sum.splits)

lemma route_errs_Nil: "route_errs parse i r = [] \<longleftrightarrow> valid_route parse r"
proof -
  have "concat (map (\<lambda>(j, t). target_errs parse i j t) (enumerate 0 (rcTargets r))) = []
      \<longleftrightarrow> (\<forall>t \<in> set (rcTargets r). valid_target parse t)"
    by (simp only: concat_enumerate_Nil target_errs_Nil) (metis in_set_conv_nth)
  then show ?thesis
    unfolding route_errs_def valid_route_def append_is_Nil_conv err_if_Nil Contains_iff HasPrefix_iff
    by (cases "rcRateLimit r") auto
qed

lemma Validate_None_iff: "Validate parse c = None \<longleftrightarrow> valid_config parse c"
proof -
  have "concat (map (\<lambda>(i, r). route_errs parse i r) (enumerate 0 (Routes c))) = []
      \<longleftrightarrow> (\<forall>r \<in> set (Routes c). valid_route parse r)"
    by (simp only: concat_enumerate_Nil route_errs_Nil) (metis in_set_conv_nth)
  then have "config_errs parse c = [] \<longleftrightarrow> valid_config parse c"
    unfolding config_errs_def valid_config_def append_is_Nil_conv err_if_Nil by auto
  then show ?thesis by (simp add: Validate_def Let_def)
qed

text \<open>
  C29. Defaults are complete, idempotent and conservative: after \<open>ApplyDefaults\<close> no
  defaulted field holds its zero value, a second application changes nothing, and the result
  equals the input exactly when the input had every such field set already.
\<close>

theorem defaults_complete:
  "defaults_set (ApplyDefaults c) \<and> ApplyDefaults (ApplyDefaults c) = ApplyDefaults c
   \<and> (ApplyDefaults c = c \<longleftrightarrow> defaults_set c)"
  by (metis ApplyDefaults_idem ApplyDefaults_unchanged defaults_set_ApplyDefaults)

lemma default_level_allowed:
  "lcLevel (default_logging l) \<in> {''debug'', ''info'', ''warn'', ''error''} \<longleftrightarrow>
   lcLevel l \<in> {[], ''debug'', ''info'', ''warn'', ''error''}"
  by (simp add: default_logging_def)

lemma default_format_allowed:
  "lcFormat (default_logging l) \<in> {''json'', ''text''} \<longleftrightarrow> lcFormat l \<in> {[], ''json'', ''text''}"
  by (simp add: default_logging_def)

lemma valid_route_default [simp]: "valid_route parse (default_route r) \<longleftrightarrow> valid_route parse r"
proof -
  have "tcURL (default_target t) = tcURL t" for t by (simp add: default_target_def)
  then show ?thesis by (simp add: valid_route_def default_route_def valid_target_def)
qed

text \<open>
  C23. What a configuration file may say: after the defaults, validation accepts exactly the
  configurations whose port is 0 (unset) or a TCP port, that have at least one route, whose
  routes each have an absolute path without \<open>..\<close>, at least one target, targets with
  non-empty parsable URLs, a known strategy, and a rate limit that is positive or absent, and
  whose log level and format are unset or known.
\<close>

theorem validation_exact:
  "Validate parse (ApplyDefaults c) = None \<longleftrightarrow>
     0 \<le> scPort (Server c) \<and> scPort (Server c) \<le> 65535
     \<and> Routes c \<noteq> [] \<and> list_all (valid_route parse) (Routes c)
     \<and> lcLevel (Logging c) \<in> {[], ''debug'', ''info'', ''warn'', ''error''}
     \<and> lcFormat (Logging c) \<in> {[], ''json'', ''text''}"
proof -
  have port: "1 \<le> scPort (default_server s) \<and> scPort (default_server s) \<le> 65535
      \<longleftrightarrow> 0 \<le> scPort s \<and> scPort s \<le> 65535" for s
    by (auto simp: default_server_def)
  show ?thesis
    unfolding Validate_None_iff valid_config_def ApplyDefaults_def list_all_iff
    using port [of "Server c"] default_level_allowed [of "Logging c"] default_format_allowed [of "Logging c"]
    by (simp del: insert_iff) blast
qed

end
