(* ===== verification/Observability.thy ===== *)
theory Observability
  imports Config
begin

text \<open>
  Logging and metrics, \<open>internal/observability/logger.go\<close> and \<open>metrics.go\<close>. A metric is
  its description; the calls of the Prometheus client library that the middleware makes are
  recorded, and the library's rule that the number of label values must match the description
  (it panics otherwise) is the predicate \<open>label_ok\<close>.
\<close>

section \<open>The logger\<close>

datatype LogFormat = TextHandler | JSONHandler

record Logger =
  lgLevel :: LogLevel
  lgFormat :: LogFormat

definition parseLevel :: "string \<Rightarrow> LogLevel" where
  "parseLevel l =
     (if l = ''debug'' then LevelDebug else if l = ''warn'' then LevelWarn
      else if l = ''error'' then LevelError else LevelInfo)"

definition NewLogger :: "LoggingConfig \<Rightarrow> Logger" where
  "NewLogger cfg = \<lparr>lgLevel = parseLevel (lcLevel cfg),
     lgFormat = (if lcFormat cfg = ''text'' then TextHandler else JSONHandler)\<rparr>"

text \<open>The numeric levels of \<open>slog\<close>, and what a logger writes of the records given to it.\<close>

definition level_int :: "LogLevel \<Rightarrow> int" where
  "level_int l = (case l of LevelDebug \<Rightarrow> -4 | LevelInfo \<Rightarrow> 0 | LevelWarn \<Rightarrow> 4 | LevelError \<Rightarrow> 8)"

definition enabled :: "Logger \<Rightarrow> LogRecord \<Rightarrow> bool" where
  "enabled lg r \<longleftrightarrow> level_int (level r) \<ge> level_int (lgLevel lg)"

lemma info_logger_keeps_warnings:
  assumes "lcLevel cfg \<notin> {''error''}" and "level r \<in> {LevelWarn, LevelError}"
  shows "enabled (NewLogger cfg) r"
  using assms by (auto simp: enabled_def NewLogger_def parseLevel_def level_int_def)

section \<open>Metrics\<close>

record metric =
  mName :: string
  mLabels :: "string list"

definition HTTPRequestsTotal :: metric where
  "HTTPRequestsTotal = \<lparr>mName = ''gateforge_http_requests_total'', mLabels = [''method'', ''path'', ''status_code'']\<rparr>"

definition HTTPRequestDuration :: metric where
  "HTTPRequestDuration = \<lparr>mName = ''gateforge_http_request_duration_seconds'', mLabels = [''method'', ''path'']\<rparr>"

definition HTTPActiveRequests :: metric where
  "HTTPActiveRequests = \<lparr>mName = ''gateforge_http_active_requests'', mLabels = [''method'', ''path'']\<rparr>"

definition CircuitBreakerState :: metric where
  "CircuitBreakerState = \<lparr>mName = ''gateforge_circuit_breaker_state'', mLabels = [''route'']\<rparr>"

definition UpstreamHealth :: metric where
  "UpstreamHealth = \<lparr>mName = ''gateforge_upstream_healthy'', mLabels = [''route'', ''target'']\<rparr>"

definition RateLimitRejections :: metric where
  "RateLimitRejections = \<lparr>mName = ''gateforge_rate_limit_rejections_total'', mLabels = [''route'', ''client_ip'']\<rparr>"

datatype metric_op = Inc | Dec | SetTo float64 | Observe float64

record metric_call =
  mcMetric :: metric
  mcValues :: "string list"
  mcOp :: metric_op

definition call_metric :: "metric \<Rightarrow> string list \<Rightarrow> metric_op \<Rightarrow> metric_call" where
  "call_metric m vs p = \<lparr>mcMetric = m, mcValues = vs, mcOp = p\<rparr>"

definition label_ok :: "metric_call \<Rightarrow> bool" where
  "label_ok c \<longleftrightarrow> length (mcValues c) = length (mLabels (mcMetric c))"

lemmas metric_defs = HTTPRequestsTotal_def HTTPRequestDuration_def HTTPActiveRequests_def
  CircuitBreakerState_def UpstreamHealth_def RateLimitRejections_def

end
