(* ===== verification/Token_Bucket.thy ===== *)
theory Token_Bucket
  imports Go_Float64 "HOL-Library.AList"
begin

text \<open>
  The rate limiter, \<open>internal/ratelimit/token_bucket.go\<close> and \<open>internal/ratelimit/store.go\<close>.
  A bucket holds a \<open>float64\<close> number of tokens; the store is a \<open>sync.Map\<close> from client keys
  to buckets, here an association list with distinct keys (its order is the order in which
  \<open>Range\<close> happens to visit). The clock reading of a call is an argument. \<open>impl\<close> is what
  the implementation returns for a conversion of a float that does not fit an integer.
\<close>

section \<open>Data\<close>

record TokenBucket =
  rate :: float64
  burst :: int

definition NewTokenBucket :: "float64 \<Rightarrow> int \<Rightarrow> TokenBucket" where
  "NewTokenBucket rps b = \<lparr>rate = rps, burst = b\<rparr>"

record bucket =
  tokens :: float64
  lastRefill :: Time
  lastAccess :: Time

text \<open>\<open>stopped\<close> says that \<open>stopCh\<close> has been closed.\<close>

record TokenBucketStore =
  tb :: TokenBucket
  buckets :: "(string \<times> bucket) list"
  stopped :: bool

record Decision =
  Allowed :: bool
  Limit :: int
  Remaining :: int
  ResetAt :: Time
  RetryAfter :: Duration

record BucketInfo =
  biKey :: string
  biTokens :: float64
  biLastAccess :: Time

record CleanupConfig =
  Interval :: Duration
  MaxAge :: Duration

definition DefaultCleanupConfig :: CleanupConfig where
  "DefaultCleanupConfig = \<lparr>Interval = 60 * time_Second, MaxAge = 5 * time_Minute\<rparr>"

section \<open>Operations\<close>

definition NewTokenBucketStore :: "TokenBucket \<Rightarrow> TokenBucketStore" where
  "NewTokenBucketStore t = \<lparr>tb = t, buckets = [], stopped = False\<rparr>"

definition new_bucket :: "TokenBucket \<Rightarrow> Time \<Rightarrow> bucket" where
  "new_bucket t now =
     \<lparr>tokens = float64_of_int (burst t), lastRefill = now, lastAccess = now\<rparr>"

text \<open>\<open>sync.Map.LoadOrStore\<close>.\<close>

definition LoadOrStore ::
  "string \<Rightarrow> bucket \<Rightarrow> (string \<times> bucket) list \<Rightarrow> bucket \<times> (string \<times> bucket) list" where
  "LoadOrStore k b m = (case map_of m k of Some b' \<Rightarrow> (b', m) | None \<Rightarrow> (b, m @ [(k, b)]))"

text \<open>Adding the tokens of the elapsed time, up to the capacity.\<close>

definition refill :: "TokenBucket \<Rightarrow> Time \<Rightarrow> bucket \<Rightarrow> bucket" where
  "refill t now b =
     (let elapsed = Duration_Seconds (Time_Sub now (lastRefill b));
          b = b\<lparr>lastAccess := now, tokens := tokens b + elapsed * rate t\<rparr>;
          b = (if tokens b > float64_of_int (burst t)
               then b\<lparr>tokens := float64_of_int (burst t)\<rparr> else b)
      in b\<lparr>lastRefill := now\<rparr>)"

text \<open>The body of \<open>Allow\<close> under the bucket's lock.\<close>

definition bucket_allow ::
  "(float64 \<Rightarrow> int) \<Rightarrow> TokenBucket \<Rightarrow> Time \<Rightarrow> bucket \<Rightarrow> Decision \<times> bucket" where
  "bucket_allow impl t now b =
     (let b = refill t now b;
          remaining = int64_of impl (math_Floor (tokens b));
          resetAt = Time_Add now (int64_of impl (float64_of_int time_Second / rate t))
      in if tokens b \<ge> Fin 1
         then (let b = b\<lparr>tokens := tokens b - Fin 1\<rparr>
               in (\<lparr>Allowed = True, Limit = burst t,
                    Remaining = int64_of impl (math_Floor (tokens b)),
                    ResetAt = resetAt, RetryAfter = 0\<rparr>, b))
         else (let deficit = Fin 1 - tokens b;
                   retryAfter = int64_of impl (deficit / rate t * float64_of_int time_Second)
               in (\<lparr>Allowed = False, Limit = burst t, Remaining = remaining,
                    ResetAt = resetAt, RetryAfter = retryAfter\<rparr>, b)))"

definition Allow ::
  "(float64 \<Rightarrow> int) \<Rightarrow> Time \<Rightarrow> string \<Rightarrow> TokenBucketStore \<Rightarrow> Decision \<times> TokenBucketStore" where
  "Allow impl now key s =
     (let (b, m) = LoadOrStore key (new_bucket (tb s) now) (buckets s);
          (d, b') = bucket_allow impl (tb s) now b
      in (d, s\<lparr>buckets := AList.update key b' m\<rparr>))"

text \<open>\<open>RunCleanup\<close>: \<open>Range\<close> visits every entry and deletes the stale ones.\<close>

definition RunCleanup :: "Time \<Rightarrow> TokenBucketStore \<Rightarrow> TokenBucketStore" where
  "RunCleanup staleThreshold s =
     s\<lparr>buckets := fold (\<lambda>(k, b) m. if Time_Before (lastAccess b) staleThreshold
                                   then AList.delete k m else m) (buckets s) (buckets s)\<rparr>"

text \<open>
  The cleanup goroutine: it waits for \<open>stopCh\<close> or the next tick of the 60 s ticker. Its loop
  runs over what those channels deliver, each tick with the clock reading it then makes.
\<close>

datatype cleanup_event = StopClosed | Tick Time

fun cleanup :: "cleanup_event list \<Rightarrow> TokenBucketStore \<Rightarrow> TokenBucketStore" where
  "cleanup [] s = s"
| "cleanup (StopClosed # _) s = s"
| "cleanup (Tick now # es) s =
     cleanup es (RunCleanup (Time_Add now (- (5 * time_Minute))) s)"

text \<open>Closing a channel twice panics.\<close>

definition Stop :: "TokenBucketStore \<Rightarrow> string + TokenBucketStore" where
  "Stop s = (if stopped s then Inl ''close of closed channel'' else Inr (s\<lparr>stopped := True\<rparr>))"

definition Entries :: "TokenBucketStore \<Rightarrow> BucketInfo list" where
  "Entries s = map (\<lambda>(k, b). \<lparr>biKey = k, biTokens = tokens b, biLastAccess = lastAccess b\<rparr>)
     (buckets s)"

text \<open>\<open>InMemoryStore\<close> wraps a \<open>TokenBucketStore\<close>.\<close>

record InMemoryStore =
  inner :: TokenBucketStore

definition NewInMemoryStore :: "float64 \<Rightarrow> int \<Rightarrow> InMemoryStore" where
  "NewInMemoryStore rps b = \<lparr>inner = NewTokenBucketStore (NewTokenBucket rps b)\<rparr>"

definition InMemoryStore_Allow ::
  "(float64 \<Rightarrow> int) \<Rightarrow> Time \<Rightarrow> string \<Rightarrow> InMemoryStore \<Rightarrow> Decision \<times> InMemoryStore" where
  "InMemoryStore_Allow impl now key s =
     (let (d, i) = Allow impl now key (inner s) in (d, s\<lparr>inner := i\<rparr>))"

definition InMemoryStore_Stop :: "InMemoryStore \<Rightarrow> string + InMemoryStore" where
  "InMemoryStore_Stop s =
     (case Stop (inner s) of Inl p \<Rightarrow> Inl p | Inr i \<Rightarrow> Inr (s\<lparr>inner := i\<rparr>))"

section \<open>One bucket\<close>

text \<open>
  A limiter the configuration check accepts and whose numbers are exact: a finite positive
  rate and a capacity that \<open>float64\<close> represents.
\<close>

definition good_limiter :: "TokenBucket \<Rightarrow> bool" where
  "good_limiter t \<longleftrightarrow>
     (\<exists>r. rate t = Fin r \<and> 0 < r \<and> fl r = r) \<and> 1 \<le> burst t \<and> burst t \<le> 2 ^ 53"

definition bucket_ok :: "TokenBucket \<Rightarrow> bucket \<Rightarrow> bool" where
  "bucket_ok t b \<longleftrightarrow> (\<exists>x. tokens b = Fin x \<and> 0 \<le> x \<and> x \<le> of_int (burst t) \<and> fl x = x)"

text \<open>The exact content of a refill, on the rationals.\<close>

definition refilled :: "rat \<Rightarrow> int \<Rightarrow> rat \<Rightarrow> Duration \<Rightarrow> rat" where
  "refilled r n x d = min (of_int n) (fl (x + fl (seconds d * r)))"

lemma good_limiterE:
  assumes "good_limiter t"
  obtains r where "rate t = Fin r" "0 < r" "fl r = r"
    "float64_of_int (burst t) = Fin (of_int (burst t))"
    "fl (of_int (burst t)) = of_int (burst t)" "(1::rat) \<le> of_int (burst t)"
    "of_int (burst t) < overflow_limit"
proof -
  have n: "\<bar>burst t\<bar> \<le> 2 ^ 53" and n1: "1 \<le> burst t" using assms by (auto simp: good_limiter_def)
  have "(of_int (burst t) :: rat) \<le> of_int (2 ^ 53)"
    using n n1 by (simp only: of_int_le_iff abs_le_iff)
  also have "\<dots> = 2 ^ 53" by simp
  also have "\<dots> \<le> 2 ^ 1000" by (rule pow2_1000_le) simp
  also have "\<dots> < overflow_limit" by (rule overflow_limit_big)
  finally have "of_int (burst t) < overflow_limit" .
  with assms n n1 that show ?thesis
    by (auto simp: good_limiter_def float64_of_int_exact fl_of_int)
qed

text \<open>Overflow of the product or the sum to \<open>+Inf\<close> is cut at the capacity like any other
  excess.\<close>

lemma refill_tokens:
  assumes t: "good_limiter t" "rate t = Fin r"
    and b: "tokens b = Fin x" "0 \<le> x"
    and now: "lastRefill b \<le> now"
  shows "tokens (refill t now b) = Fin (refilled r (burst t) x (Time_Sub now (lastRefill b)))"
proof -
  define d where "d = Time_Sub now (lastRefill b)"
  have d: "0 \<le> d" "d \<le> max_int64"
    using Time_Sub_nonneg [OF now] Time_Sub_in_range [of now "lastRefill b"]
    by (simp_all add: d_def in_int64_def)
  have r: "0 < r" and n: "float64_of_int (burst t) = Fin (of_int (burst t))"
    and nb: "(of_int (burst t) :: rat) < overflow_limit"
    using t by (auto elim!: good_limiterE)
  let ?e = "seconds d" and ?n = "of_int (burst t) :: rat"
  have er: "0 \<le> ?e * r" using seconds_nonneg [OF d] r by simp
  have sec: "Duration_Seconds d * rate t = to_f64 (?e * r)"
    using Duration_Seconds_fin(1) [OF d] t(2) by simp
  have step: "tokens (refill t now b) =
      (if tokens b + to_f64 (?e * r) > Fin ?n then Fin ?n else tokens b + to_f64 (?e * r))"
    unfolding refill_def Let_def d_def [symmetric] sec n by simp
  from to_f64_nonneg_cases [OF er] show ?thesis
  proof
    assume f: "to_f64 (?e * r) = Fin (fl (?e * r)) \<and> fl (?e * r) < overflow_limit"
    have "0 \<le> x + fl (?e * r)" using b fl_nonneg [OF er] by simp
    from to_f64_nonneg_cases [OF this] show ?thesis
      using f b step nb by (auto simp: refilled_def d_def [symmetric] min_def)
  next
    assume i: "to_f64 (?e * r) = PInf \<and> overflow_limit \<le> fl (?e * r)"
    have "overflow_limit \<le> fl (fl (?e * r))" using i by simp
    also have "\<dots> \<le> fl (x + fl (?e * r))" using b by (intro fl_mono) simp
    finally have "?n \<le> fl (x + fl (?e * r))" using nb by linarith
    then show ?thesis
      using i b step by (simp add: refilled_def d_def [symmetric] min_def)
  qed
qed

lemma refilled_bounds:
  assumes "0 \<le> x" and "x \<le> of_int n" and "fl x = x" and "fl (of_int n) = of_int n"
    and "0 < r" and "0 \<le> d" and "d \<le> max_int64"
  shows "x \<le> refilled r n x d" and "refilled r n x d \<le> of_int n"
    and "fl (refilled r n x d) = refilled r n x d"
proof -
  have "0 \<le> fl (seconds d * r)"
    using seconds_nonneg [OF assms(6,7)] assms(5) by (intro fl_nonneg) simp
  then have "fl x \<le> fl (x + fl (seconds d * r))" by (intro fl_mono) simp
  then show "x \<le> refilled r n x d" using assms(2,3) by (simp add: refilled_def)
  show "refilled r n x d \<le> of_int n" by (simp add: refilled_def)
  show "fl (refilled r n x d) = refilled r n x d"
    using assms(4) by (simp add: refilled_def min_def)
qed

lemma refilled_upper:
  assumes "0 \<le> x" and "0 \<le> n" and "fl (of_int n) = of_int n"
    and "0 < r" and "0 \<le> d" and "d \<le> max_int64"
  shows "refilled r n x d
    \<le> x + seconds d * r * (1 + u_round) + (u_round * of_int n + 2 * tiny)"
proof -
  have er: "0 \<le> seconds d * r" using seconds_nonneg [OF assms(5,6)] assms(4) by simp
  have "refilled r n x d \<le> x + fl (seconds d * r) + (u_round * of_int n + tiny)"
    unfolding refilled_def using assms fl_nonneg [OF er]
    by (intro binary64.capped_sum_upper) auto
  also have "\<dots> \<le> x + (seconds d * r * (1 + u_round) + tiny) + (u_round * of_int n + tiny)"
    using binary64.rd_upper [OF er] by simp
  finally show ?thesis by simp
qed

lemma small_int_conversion:
  assumes "0 \<le> y" and "y \<le> 2 ^ 53"
  shows "int64_of impl (math_Floor (Fin y)) = \<lfloor>y\<rfloor>"
proof -
  have "\<lfloor>y\<rfloor> \<le> \<lfloor>(2 ^ 53 :: rat)\<rfloor>" using assms(2) by (rule floor_mono)
  then have "\<lfloor>y\<rfloor> \<le> 2 ^ 53" by simp
  then show ?thesis
    using assms(1) by (simp add: int64_of_def math_Floor_def trunc_def in_int64_def
        min_int64_def max_int64_def)
qed

lemma burst_small: "good_limiter t \<Longrightarrow> (of_int (burst t) :: rat) \<le> 2 ^ 53"
proof -
  assume "good_limiter t"
  then have "burst t \<le> 2 ^ 53" by (simp add: good_limiter_def)
  then have "(of_int (burst t) :: rat) \<le> of_int (2 ^ 53)" by (simp only: of_int_le_iff)
  then show ?thesis by simp
qed

lemma minus_one_fin:
  assumes "1 \<le> y" and "y \<le> 2 ^ 53"
  shows "Fin y - Fin 1 = Fin (fl (y - 1))"
proof -
  have "\<bar>y - 1\<bar> \<le> 2 ^ 53" using assms by simp
  also have "\<dots> \<le> (2::rat) ^ 1000" by (rule pow2_1000_le) simp
  finally show ?thesis by (simp add: minus_float64_def to_f64_fin)
qed

lemma refill_times [simp]:
  "lastRefill (refill t now b) = now" "lastAccess (refill t now b) = now"
  by (simp_all add: refill_def Let_def)

text \<open>What \<open>Allow\<close> decides and leaves behind, over the rationals.\<close>

lemma bucket_allow_step:
  assumes t: "good_limiter t" "rate t = Fin r"
    and b: "tokens b = Fin x" "0 \<le> x" "x \<le> of_int (burst t)" "fl x = x"
    and now: "lastRefill b \<le> now"
    and y: "y = refilled r (burst t) x (Time_Sub now (lastRefill b))"
  shows "x \<le> y" and "y \<le> of_int (burst t)"
    and "Allowed (fst (bucket_allow impl t now b)) \<longleftrightarrow> 1 \<le> y"
    and "tokens (snd (bucket_allow impl t now b)) = Fin (if 1 \<le> y then fl (y - 1) else y)"
    and "Remaining (fst (bucket_allow impl t now b)) = \<lfloor>if 1 \<le> y then fl (y - 1) else y\<rfloor>"
    and "lastRefill (snd (bucket_allow impl t now b)) = now"
    and "lastAccess (snd (bucket_allow impl t now b)) = now"
proof -
  have d: "0 \<le> Time_Sub now (lastRefill b)" "Time_Sub now (lastRefill b) \<le> max_int64"
    using Time_Sub_nonneg [OF now] Time_Sub_in_range [of now "lastRefill b"]
    by (simp_all add: in_int64_def)
  have r: "0 < r" and nb: "fl (of_int (burst t)) = of_int (burst t)"
    using t by (auto elim!: good_limiterE)
  show xy: "x \<le> y" and yn: "y \<le> of_int (burst t)"
    unfolding y using refilled_bounds [OF b(2,3,4) nb r d] by auto
  have y53: "y \<le> 2 ^ 53" using yn burst_small [OF t(1)] by linarith
  have tok: "tokens (refill t now b) = Fin y" unfolding y by (rule refill_tokens [OF t b(1,2) now])
  have f: "0 \<le> fl (y - 1)" "fl (y - 1) \<le> 2 ^ 53" if "1 \<le> y"
    using that fl_nonneg [of "y - 1"] fl_below_power [of "y - 1" 53] y53 by auto
  show "Allowed (fst (bucket_allow impl t now b)) \<longleftrightarrow> 1 \<le> y"
    by (simp add: bucket_allow_def Let_def tok)
  show "tokens (snd (bucket_allow impl t now b)) = Fin (if 1 \<le> y then fl (y - 1) else y)"
    using minus_one_fin [OF _ y53] by (simp add: bucket_allow_def Let_def tok)
  show "Remaining (fst (bucket_allow impl t now b)) = \<lfloor>if 1 \<le> y then fl (y - 1) else y\<rfloor>"
    using minus_one_fin [OF _ y53] small_int_conversion [OF _ y53] small_int_conversion [OF f]
      xy b(2)
    by (simp add: bucket_allow_def Let_def tok)
  show "lastRefill (snd (bucket_allow impl t now b)) = now"
    and "lastAccess (snd (bucket_allow impl t now b)) = now"
    by (simp_all add: bucket_allow_def Let_def)
qed

lemma bucket_ok_new:
  assumes "good_limiter t"
  shows "tokens (new_bucket t now) = Fin (of_int (burst t))" and "bucket_ok t (new_bucket t now)"
  using assms by (auto elim!: good_limiterE simp: new_bucket_def bucket_ok_def)

lemma bucket_ok_allow:
  assumes "good_limiter t" and "bucket_ok t b" and "lastRefill b \<le> now"
  shows "bucket_ok t (snd (bucket_allow impl t now b))"
    and "0 \<le> Remaining (fst (bucket_allow impl t now b))"
    and "Remaining (fst (bucket_allow impl t now b)) \<le> burst t"
proof -
  obtain x where x: "tokens b = Fin x" "0 \<le> x" "x \<le> of_int (burst t)" "fl x = x"
    using assms(2) by (auto simp: bucket_ok_def)
  obtain r where r: "rate t = Fin r" and nb: "fl (of_int (burst t)) = of_int (burst t)"
    and r0: "0 < r" using assms(1) by (auto elim!: good_limiterE)
  define y where "y = refilled r (burst t) x (Time_Sub now (lastRefill b))"
  note st = bucket_allow_step [OF assms(1) r x assms(3) y_def]
  have y: "fl y = y"
    unfolding y_def
    using refilled_bounds(3) [OF x(2,3,4) nb r0] Time_Sub_nonneg [OF assms(3)]
      Time_Sub_in_range [of now "lastRefill b"] by (simp add: in_int64_def)
  define z where "z = (if 1 \<le> y then fl (y - 1) else y)"
  have "fl (y - 1) \<le> of_int (burst t)" using fl_mono [of "y - 1" "of_int (burst t)"] nb st(2) by simp
  then have z: "0 \<le> z" "z \<le> of_int (burst t)" "fl z = z"
    using fl_nonneg [of "y - 1"] st(1,2) x(2) y by (auto simp: z_def)
  show "bucket_ok t (snd (bucket_allow impl t now b))"
    using z unfolding bucket_ok_def st(4) z_def [symmetric] by auto
  show "0 \<le> Remaining (fst (bucket_allow impl t now b))"
    unfolding st(5) z_def [symmetric] using z by simp
  have "\<lfloor>z\<rfloor> \<le> \<lfloor>of_int (burst t) :: rat\<rfloor>" using z(2) by (rule floor_mono)
  then show "Remaining (fst (bucket_allow impl t now b)) \<le> burst t"
    unfolding st(5) z_def [symmetric] by simp
qed

section \<open>A run of requests on one bucket\<close>

fun bucket_run ::
  "(float64 \<Rightarrow> int) \<Rightarrow> TokenBucket \<Rightarrow> Time list \<Rightarrow> bucket \<Rightarrow> Decision list \<times> bucket" where
  "bucket_run impl t [] b = ([], b)"
| "bucket_run impl t (now # ts) b =
     (let (d, b) = bucket_allow impl t now b; (ds, b) = bucket_run impl t ts b in (d # ds, b))"

definition allowed_count :: "Decision list \<Rightarrow> nat" where
  "allowed_count ds = length (filter Allowed ds)"

text \<open>What one request may gain by rounding.\<close>

definition slack :: "rat \<Rightarrow> int \<Rightarrow> rat" where
  "slack r n = 2 * u_round * of_int n + (3 + 6 * r) * tiny"

text \<open>One request: the tokens after it, plus one if it was allowed, exceed the tokens before it
  by the refill of the elapsed time and the slack at most.\<close>

lemma bucket_allow_cost:
  assumes t: "good_limiter t" "rate t = Fin r"
    and b: "tokens b = Fin x" "0 \<le> x" "x \<le> of_int (burst t)" "fl x = x"
    and now: "lastRefill b \<le> now"
    and b': "tokens (snd (bucket_allow impl t now b)) = Fin x'"
  shows "x' + (if Allowed (fst (bucket_allow impl t now b)) then 1 else 0)
    \<le> x + r * (of_int (now - lastRefill b) / 10 ^ 9) * (1 + u_round) ^ 3 + slack r (burst t)"
proof -
  define d where "d = Time_Sub now (lastRefill b)"
  have d: "0 \<le> d" "d \<le> max_int64"
    using Time_Sub_nonneg [OF now] Time_Sub_in_range [of now "lastRefill b"]
    by (simp_all add: d_def in_int64_def)
  have dle: "d \<le> now - lastRefill b" using now by (simp add: d_def Time_Sub_def min_int64_def)
  have r: "0 < r" and nb: "fl (of_int (burst t)) = of_int (burst t)"
    using t by (auto elim!: good_limiterE)
  have n1: "1 \<le> burst t" using t(1) by (simp add: good_limiter_def)
  define y where "y = refilled r (burst t) x d"
  note st = bucket_allow_step [OF t b now y_def [unfolded d_def]]
  let ?n = "of_int (burst t) :: rat" and ?D = "of_int (now - lastRefill b) / 10 ^ 9 :: rat"
  have u: "0 \<le> u_round" "u_round \<le> 1" by (simp_all add: u_round_def)
  have "of_int d / 10 ^ 9 \<le> ?D" using dle by (intro divide_right_mono) (simp_all only: of_int_le_iff, simp)
  then have s: "seconds d \<le> ?D * (1 + u_round) ^ 2 + 3 * tiny"
    using seconds_upper [OF d] u mult_right_mono [of "of_int d / 10 ^ 9" ?D "(1 + u_round) ^ 2"]
    by (meson add_mono order_refl order_trans zero_le_power2)
  have "y \<le> x + seconds d * r * (1 + u_round) + (u_round * ?n + 2 * tiny)"
    unfolding y_def using n1 by (intro refilled_upper b nb r d) simp
  also have "seconds d * r * (1 + u_round) \<le> (?D * (1 + u_round) ^ 2 + 3 * tiny) * r * (1 + u_round)"
    using s r u by (intro mult_right_mono) auto
  also have "\<dots> = r * ?D * (1 + u_round) ^ 3 + 3 * r * tiny * (1 + u_round)"
    by (simp add: power2_eq_square power3_eq_cube algebra_simps)
  also have "3 * r * tiny * (1 + u_round) \<le> 3 * r * tiny * 2"
    using r u tiny_pos by (intro mult_left_mono) auto
  finally have y: "y \<le> x + r * ?D * (1 + u_round) ^ 3 + 6 * r * tiny + (u_round * ?n + 2 * tiny)"
    by simp
  have "x' + (if Allowed (fst (bucket_allow impl t now b)) then 1 else 0) \<le> y + (u_round * ?n + tiny)"
  proof (cases "1 \<le> y")
    case True
    then show ?thesis
      using b' st(3,4) binary64.minus_one_upper [OF True st(2)] by simp
  next
    case False
    have "0 \<le> u_round * ?n + tiny" using u n1 tiny_pos by simp
    then show ?thesis using False b' st(3,4) by simp
  qed
  then show ?thesis using y by (simp add: slack_def algebra_simps)
qed

end
