(* ===== verification/Rate_Limiter.thy ===== *)
theory Rate_Limiter
  imports Token_Bucket
begin

text \<open>
  Theorems about the rate limiter: the token invariant, the burst, the long-term rate, the
  independence of clients, the advice given in \<open>RetryAfter\<close>, and the background cleanup.
  All hold for the \<open>float64\<close> arithmetic of the code, rounding and overflow included.
\<close>

section \<open>Runs of one bucket\<close>

lemma bucket_run_ok:
  assumes "good_limiter t" and "bucket_ok t b" and "sorted (lastRefill b # ts)"
  shows "bucket_ok t (snd (bucket_run impl t ts b))"
  using assms(2,3)
proof (induction ts arbitrary: b)
  case Nil
  then show ?case by simp
next
  case (Cons now ts)
  define b1 where "b1 = snd (bucket_allow impl t now b)"
  have "lastRefill b1 = now" by (simp add: b1_def bucket_allow_def Let_def)
  moreover have "bucket_ok t b1"
    unfolding b1_def using assms(1) Cons.prems by (intro bucket_ok_allow) auto
  ultimately have "bucket_ok t (snd (bucket_run impl t ts b1))"
    using Cons.prems by (intro Cons.IH) auto
  then show ?case by (simp add: b1_def split_beta Let_def)
qed

lemma bucket_run_rate:
  assumes t: "good_limiter t" "rate t = Fin r"
    and "tokens b = Fin x" "0 \<le> x" "x \<le> of_int (burst t)" "fl x = x"
    and "sorted (lastRefill b # ts)"
  shows "of_nat (allowed_count (fst (bucket_run impl t ts b)))
    \<le> x + r * (of_int (last (lastRefill b # ts) - lastRefill b) / 10 ^ 9) * (1 + u_round) ^ 3
        + of_nat (length ts) * slack r (burst t)"
  using assms(3-)
proof (induction ts arbitrary: b x)
  case Nil
  then show ?case by (simp add: allowed_count_def)
next
  case (Cons now ts)
  define b1 where "b1 = snd (bucket_allow impl t now b)"
  define ok where "ok = Allowed (fst (bucket_allow impl t now b))"
  have now: "lastRefill b \<le> now" "sorted (now # ts)" using Cons.prems by auto
  have l1: "lastRefill b1 = now" by (simp add: b1_def bucket_allow_def Let_def)
  have "bucket_ok t b" using Cons.prems by (auto simp: bucket_ok_def)
  then have "bucket_ok t b1" unfolding b1_def by (rule bucket_ok_allow [OF t(1) _ now(1)])
  then obtain x1 where x1: "tokens b1 = Fin x1" "0 \<le> x1" "x1 \<le> of_int (burst t)" "fl x1 = x1"
    by (auto simp: bucket_ok_def)
  let ?k = "r * (1 + u_round) ^ 3 / 10 ^ 9"
  have step: "x1 + (if ok then 1 else 0)
      \<le> x + ?k * of_int (now - lastRefill b) + slack r (burst t)"
    using bucket_allow_cost [OF t Cons.prems(1-4) now(1) x1(1) [unfolded b1_def]]
    by (simp add: ok_def algebra_simps)
  have IH: "of_nat (allowed_count (fst (bucket_run impl t ts b1)))
      \<le> x1 + ?k * of_int (last (now # ts) - now) + of_nat (length ts) * slack r (burst t)"
    using Cons.IH [OF x1] now(2) l1 by (simp add: algebra_simps)
  have count: "allowed_count (fst (bucket_run impl t (now # ts) b))
      = (if ok then 1 else 0) + allowed_count (fst (bucket_run impl t ts b1))"
    by (simp add: allowed_count_def b1_def ok_def split_beta Let_def)
  have "of_nat (allowed_count (fst (bucket_run impl t (now # ts) b)))
      \<le> (x1 + (if ok then 1 else 0)) + ?k * of_int (last (now # ts) - now)
          + of_nat (length ts) * slack r (burst t)"
    using IH unfolding count by simp
  also have "\<dots> \<le> x + ?k * of_int (now - lastRefill b) + slack r (burst t)
      + ?k * of_int (last (now # ts) - now) + of_nat (length ts) * slack r (burst t)"
    using step by simp
  also have "\<dots> = x + r * (of_int (last (lastRefill b # now # ts) - lastRefill b) / 10 ^ 9)
      * (1 + u_round) ^ 3 + of_nat (length (now # ts)) * slack r (burst t)"
    by (simp add: field_simps)
  finally show ?case .
qed

text \<open>A bucket holding a whole number of tokens, asked repeatedly at one instant.\<close>

lemma refilled_same_instant:
  "fl x = x \<Longrightarrow> x \<le> of_int n \<Longrightarrow> refilled r n x (Time_Sub now now) = x"
  by (simp add: refilled_def Time_Sub_def min_int64_def max_int64_def)

lemma bucket_run_burst:
  assumes "good_limiter t" and "tokens b = Fin (of_nat m)" and "lastRefill b = now"
    and "int m \<le> burst t"
  shows "map Allowed (fst (bucket_run impl t (replicate k now) b)) = map (\<lambda>i. i < m) [0..<k]"
  using assms(2-4)
proof (induction k arbitrary: m b)
  case 0
  then show ?case by simp
next
  case (Suc k)
  obtain r where r: "rate t = Fin r" using assms(1) by (auto elim!: good_limiterE)
  have m53: "\<bar>int m\<bar> \<le> 2 ^ 53" using assms(1) Suc.prems(3) by (simp add: good_limiter_def)
  have le: "(of_nat m :: rat) \<le> of_int (burst t)" using Suc.prems(3)
    by (metis of_int_le_iff of_int_of_nat_eq)
  have fm: "fl (of_nat m) = of_nat m" using fl_of_int [OF m53] by simp
  note st = bucket_allow_step [OF assms(1) r Suc.prems(1) _ le fm _ refl, of now, OF _ eq_refl,
      OF _ Suc.prems(2)]
  define b1 where "b1 = snd (bucket_allow impl t now b)"
  have "fl (of_nat m - 1) = of_nat (m - 1)" if "0 < m"
    using fl_of_int [of "int m - 1"] m53 that by (simp add: of_nat_diff)
  then have tok: "tokens b1 = Fin (of_nat (m - 1))"
    and ok: "Allowed (fst (bucket_allow impl t now b)) \<longleftrightarrow> 0 < m"
    using st(3,4) [of impl] Suc.prems(2) refilled_same_instant [OF fm le]
    by (auto simp: b1_def)
  have "lastRefill b1 = now" by (simp add: b1_def bucket_allow_def Let_def)
  then have "map Allowed (fst (bucket_run impl t (replicate k now) b1))
      = map (\<lambda>i. i < m - 1) [0..<k]"
    using tok Suc.prems(3) by (intro Suc.IH) auto
  then have "map Allowed (fst (bucket_run impl t (replicate (Suc k) now) b))
      = (0 < m) # map (\<lambda>i. i < m - 1) [0..<k]"
    using ok by (simp add: b1_def split_beta Let_def)
  also have "\<dots> = map (\<lambda>i. i < m) [0..<Suc k]"
    unfolding upt_rec [of 0 "Suc k"] map_Suc_upt [symmetric] by auto
  finally show ?case .
qed

section \<open>The store as independent buckets\<close>

fun store_run ::
  "(float64 \<Rightarrow> int) \<Rightarrow> (Time \<times> string) list \<Rightarrow> TokenBucketStore
     \<Rightarrow> (string \<times> Decision) list \<times> TokenBucketStore" where
  "store_run impl [] s = ([], s)"
| "store_run impl ((now, k) # rs) s =
     (let (d, s) = Allow impl now k s; (ds, s) = store_run impl rs s in ((k, d) # ds, s))"

definition times_of :: "string \<Rightarrow> (Time \<times> string) list \<Rightarrow> Time list" where
  "times_of k rs = map fst (filter (\<lambda>(now, k'). k' = k) rs)"

definition decisions_of :: "string \<Rightarrow> (string \<times> Decision) list \<Rightarrow> Decision list" where
  "decisions_of k ds = map snd (filter (\<lambda>(k', d). k' = k) ds)"

text \<open>What one client sees: its own bucket, created full at its first request.\<close>

definition client_run ::
  "(float64 \<Rightarrow> int) \<Rightarrow> TokenBucket \<Rightarrow> Time list \<Rightarrow> bucket option \<Rightarrow> Decision list" where
  "client_run impl t ts mb = (case mb of
       Some b \<Rightarrow> fst (bucket_run impl t ts b)
     | None \<Rightarrow> (case ts of [] \<Rightarrow> [] | now # _ \<Rightarrow> fst (bucket_run impl t ts (new_bucket t now))))"

lemma Allow_tb [simp]: "tb (snd (Allow impl now k s)) = tb s"
  by (simp add: Allow_def split_beta Let_def)

text \<open>The bucket a request of \<open>k\<close> works on.\<close>

definition bucket_for :: "TokenBucketStore \<Rightarrow> Time \<Rightarrow> string \<Rightarrow> bucket" where
  "bucket_for s now k = (case map_of (buckets s) k of Some b \<Rightarrow> b | None \<Rightarrow> new_bucket (tb s) now)"

lemma Allow_result:
  "fst (Allow impl now k s) = fst (bucket_allow impl (tb s) now (bucket_for s now k))"
  by (simp add: Allow_def LoadOrStore_def bucket_for_def split_beta Let_def split: option.split)

lemma Allow_lookup:
  "map_of (buckets (snd (Allow impl now k s))) k' =
     (if k' = k then Some (snd (bucket_allow impl (tb s) now (bucket_for s now k)))
      else map_of (buckets s) k')"
  by (auto simp: Allow_def LoadOrStore_def bucket_for_def split_beta Let_def update_conv map_add_def
      split: option.split)

lemma client_run_Cons:
  "client_run impl t (now # ts) mb =
     (let b = (case mb of Some b \<Rightarrow> b | None \<Rightarrow> new_bucket t now)
      in fst (bucket_allow impl t now b)
           # client_run impl t ts (Some (snd (bucket_allow impl t now b))))"
  by (simp add: client_run_def split_beta Let_def split: option.split)

lemma store_run_client:
  "decisions_of k (fst (store_run impl rs s))
     = client_run impl (tb s) (times_of k rs) (map_of (buckets s) k)"
proof (induction rs arbitrary: s)
  case Nil
  then show ?case by (simp add: decisions_of_def times_of_def client_run_def split: option.split)
next
  case (Cons a rs)
  obtain now k' where a: "a = (now, k')" by (cases a)
  let ?s = "snd (Allow impl now k' s)"
  have "decisions_of k (fst (store_run impl (a # rs) s))
      = (if k' = k then [fst (Allow impl now k' s)] else [])
          @ client_run impl (tb s) (times_of k rs) (map_of (buckets ?s) k)"
    using Cons.IH [of ?s] by (auto simp: a decisions_of_def split_beta Let_def)
  then show ?case
    by (auto simp: a times_of_def client_run_Cons Allow_lookup Allow_result bucket_for_def Let_def)
qed

lemma sorted_times_of: "sorted (map fst rs) \<Longrightarrow> sorted (times_of k rs)"
  unfolding times_of_def by (induction rs) auto

section \<open>The cleanup pass\<close>

lemma fold_delete_stale:
  "fold (\<lambda>(k, b) m. if stale b then AList.delete k m else m) xs m
     = filter (\<lambda>(k, b). k \<notin> {k. \<exists>b. (k, b) \<in> set xs \<and> stale b}) m"
proof (induction xs arbitrary: m)
  case Nil
  then show ?case by simp
next
  case (Cons x xs)
  obtain k b where x: "x = (k, b)" by (cases x)
  show ?case
    by (auto simp: x Cons.IH AList.delete_eq filter_filter intro!: filter_cong)
qed

lemma RunCleanup_filter:
  assumes "distinct (map fst (buckets s))"
  shows "buckets (RunCleanup th s) = filter (\<lambda>(k, b). th \<le> lastAccess b) (buckets s)"
proof -
  have same: "b' = b" if "(k, b) \<in> set (buckets s)" "(k, b') \<in> set (buckets s)" for k b b'
    using that assms by (metis eq_key_imp_eq_value)
  show ?thesis
    unfolding RunCleanup_def
    by (simp add: fold_delete_stale)
       (intro filter_cong, auto simp: Time_Before_def not_less dest: same)
qed

definition store_ok :: "TokenBucketStore \<Rightarrow> bool" where
  "store_ok s \<longleftrightarrow> distinct (map fst (buckets s)) \<and> (\<forall>(k, b) \<in> set (buckets s). bucket_ok (tb s) b)"

text \<open>\<open>bucket_allow\<close> reads the bucket through \<open>refill\<close> only.\<close>

lemma bucket_allow_cong:
  "refill t now b = refill t now b' \<Longrightarrow> bucket_allow impl t now b = bucket_allow impl t now b'"
  by (simp add: bucket_allow_def)

lemma refill_new:
  assumes "good_limiter t"
  shows "refill t now (new_bucket t now) = new_bucket t now"
proof -
  obtain r where r: "rate t = Fin r" and n: "fl (of_int (burst t)) = of_int (burst t)"
    "(0::rat) \<le> of_int (burst t)"
    using assms by (auto elim!: good_limiterE)
  have "tokens (refill t now (new_bucket t now)) = tokens (new_bucket t now)"
    using refill_tokens [OF assms r bucket_ok_new(1) [OF assms] n(2), of now now]
      refilled_same_instant [OF n(1) order_refl, of r now] bucket_ok_new(1) [OF assms]
    by (simp add: new_bucket_def)
  then show ?thesis by (simp add: new_bucket_def)
qed

text \<open>After five idle minutes a fast enough limiter has refilled the bucket completely.\<close>

lemma refill_idle:
  assumes t: "good_limiter t" "rate t = Fin r" "of_int (burst t) \<le> 300 * r"
    and b: "tokens b = Fin x" "0 \<le> x"
    and idle: "5 * time_Minute \<le> now - lastRefill b"
  shows "refill t now b = new_bucket t now"
proof -
  define d where "d = Time_Sub now (lastRefill b)"
  have now: "lastRefill b \<le> now" using idle by (simp add: time_Minute_def time_Second_def)
  have d: "0 \<le> d" "d \<le> max_int64" "300 * time_Second \<le> d"
    using Time_Sub_nonneg [OF now] Time_Sub_in_range [of now "lastRefill b"] idle
    by (auto simp: d_def in_int64_def Time_Sub_def time_Minute_def time_Second_def max_int64_def)
  have "300 \<le> d div time_Second" using d(3) by (simp add: time_Second_def)
  then have "(300::rat) \<le> of_int (d div time_Second)" by (metis of_int_le_iff of_int_numeral)
  then have e: "300 \<le> seconds d" using seconds_int_part [OF d(1,2)] by linarith
  have r: "0 < r" and n: "fl (of_int (burst t)) = of_int (burst t)"
    using t(1,2) by (auto elim!: good_limiterE)
  have "of_int (burst t) \<le> seconds d * r"
    using t(3) mult_right_mono [OF e, of r] r by linarith
  then have "fl (of_int (burst t)) \<le> fl (seconds d * r)" by (rule fl_mono)
  also have "\<dots> = fl (fl (seconds d * r))" by simp
  also have "\<dots> \<le> fl (x + fl (seconds d * r))" using b(2) by (intro fl_mono) simp
  finally have "refilled r (burst t) x d = of_int (burst t)" using n by (simp add: refilled_def)
  then have "tokens (refill t now b) = tokens (new_bucket t now)"
    using refill_tokens [OF t(1,2) b now] bucket_ok_new(1) [OF t(1)] by (simp add: d_def)
  then show ?thesis by (simp add: new_bucket_def)
qed

lemma RunCleanup_lookup:
  assumes "distinct (map fst (buckets s))"
  shows "map_of (buckets (RunCleanup th s)) k = (case map_of (buckets s) k of
           Some b \<Rightarrow> if th \<le> lastAccess b then Some b else None | None \<Rightarrow> None)"
proof -
  have "map_of (filter (\<lambda>(k, b). th \<le> lastAccess b) m) k = (case map_of m k of
      Some b \<Rightarrow> if th \<le> lastAccess b then Some b else None | None \<Rightarrow> None)"
    if "distinct (map fst m)" for m :: "(string \<times> bucket) list"
    using that
    by (induction m) (auto split: option.splits simp: map_of_eq_None_iff image_iff dest: map_of_SomeD)
  with assms show ?thesis by (simp add: RunCleanup_filter)
qed

lemma RunCleanup_tb [simp]: "tb (RunCleanup th s) = tb s"
  by (simp add: RunCleanup_def)

text \<open>Decisions of a time-ordered run.\<close>

lemma bucket_run_remaining:
  assumes "good_limiter t" and "bucket_ok t b" and "sorted (lastRefill b # ts)"
    and "d \<in> set (fst (bucket_run impl t ts b))"
  shows "0 \<le> Remaining d \<and> Remaining d \<le> burst t \<and> Limit d = burst t"
  using assms(2-)
proof (induction ts arbitrary: b)
  case Nil
  then show ?case by simp
next
  case (Cons now ts)
  define b1 where "b1 = snd (bucket_allow impl t now b)"
  have now: "lastRefill b \<le> now" using Cons.prems(2) by simp
  have b1: "bucket_ok t b1" "lastRefill b1 = now"
    unfolding b1_def using bucket_ok_allow(1) [OF assms(1) Cons.prems(1) now]
    by (simp_all add: bucket_allow_def Let_def)
  from Cons.prems(3) consider "d = fst (bucket_allow impl t now b)"
    | "d \<in> set (fst (bucket_run impl t ts b1))"
    by (auto simp: b1_def split_beta Let_def)
  then show ?case
  proof cases
    case 1
    then show ?thesis
      using bucket_ok_allow(2,3) [OF assms(1) Cons.prems(1) now, of impl]
      by (simp add: bucket_allow_def Let_def)
  next
    case 2
    then show ?thesis using Cons.IH [of b1] b1 Cons.prems(2) by simp
  qed
qed

text \<open>A rate that is not finite turns the tokens into NaN at the first request.\<close>

lemma nan_bucket_denied:
  "tokens b = NaN \<Longrightarrow> \<not> Allowed (fst (bucket_allow impl t now b)) \<and>
     tokens (snd (bucket_allow impl t now b)) = NaN"
  by (simp add: bucket_allow_def refill_def Let_def)

lemma nan_bucket_run:
  "tokens b = NaN \<Longrightarrow> d \<in> set (fst (bucket_run impl t ts b)) \<Longrightarrow> \<not> Allowed d"
  by (induction ts arbitrary: b) (auto simp: split_beta Let_def dest: nan_bucket_denied)

lemma non_finite_first_request:
  assumes "rate t = NaN \<or> rate t = PInf"
  shows "\<not> Allowed (fst (bucket_allow impl t now (new_bucket t now)))"
    and "tokens (snd (bucket_allow impl t now (new_bucket t now))) = NaN"
proof -
  have "Duration_Seconds (Time_Sub now now) = Fin 0"
    using Duration_Seconds_fin(1) [of 0]
    by (simp add: Time_Sub_def min_int64_def max_int64_def)
  then have "tokens (refill t now (new_bucket t now)) = NaN"
    using assms by (auto simp: refill_def new_bucket_def Let_def)
  then show "\<not> Allowed (fst (bucket_allow impl t now (new_bucket t now)))"
    and "tokens (snd (bucket_allow impl t now (new_bucket t now))) = NaN"
    by (simp_all add: bucket_allow_def Let_def)
qed

section \<open>The advice to retry\<close>

text \<open>The \<open>Retry-After\<close> header of the middleware: the whole seconds of \<open>RetryAfter\<close>, plus one.\<close>

definition retryAfterSecs :: "(float64 \<Rightarrow> int) \<Rightarrow> Decision \<Rightarrow> int" where
  "retryAfterSecs impl d = wrap64 (int64_of impl (Duration_Seconds (RetryAfter d)) + 1)"

text \<open>A token fraction and the rounded deficit add up to one again after rounding.\<close>

lemma deficit_restores_one:
  assumes "0 \<le> x" and "x < 1"
  shows "1 \<le> fl (x + fl (1 - x))"
proof (cases "x = 0")
  case True
  then show ?thesis using fl_of_int [of 1] by simp
next
  case False
  then have y: "0 < 1 - x" "1 - x < 1" using assms by auto
  have "(2::rat) powi binexp (1 - x) < 2 powi 0" using binexp_bounds(1) [of "1 - x"] y by simp
  then have "binexp (1 - x) \<le> -1" by (simp only: powi2_less_iff)
  then have "ulp (1 - x) \<le> 2 powi (-53)" unfolding ulp_def by (intro power_int_increasing) auto
  then have "\<bar>fl (1 - x) - (1 - x)\<bar> \<le> 2 powi (-53) / 2" using fl_error_ulp [of "1 - x"] by linarith
  then have "1 - 2 powi (-53) / 2 \<le> x + fl (1 - x)" by linarith
  then have "fl (1 - 2 powi (-53) / 2) \<le> fl (x + fl (1 - x))" by (rule fl_mono)
  moreover have "fl (1 - 2 powi (-53) / 2) = 1" by code_simp
  ultimately show ?thesis by simp
qed

lemma retry_enough:
  assumes x: "0 \<le> x" "x < 1" and r: "0 < r"
    and k: "1 \<le> k" "k \<le> 2 ^ 31"
    and q: "fl (fl (fl (1 - x) / r) * 10 ^ 9) < of_int k * 10 ^ 9"
    and e: "of_int k \<le> e"
  shows "1 \<le> fl (x + fl (e * r))"
proof -
  have "fl (of_int (k * 5 ^ 9) * 2 ^ 9) = of_int (k * 5 ^ 9) * 2 ^ 9"
    using k by (intro fl_of_int_scaled) (simp add: abs_le_iff)
  then have exact: "fl (of_int k * 10 ^ 9) = of_int k * 10 ^ 9" by (simp add: algebra_simps)
  have "fl (1 - x) / r < of_int k"
  proof (rule ccontr)
    assume "\<not> fl (1 - x) / r < of_int k"
    then have "fl (of_int k) \<le> fl (fl (1 - x) / r)" by (intro fl_mono) simp
    then have "of_int k * 10 ^ 9 \<le> fl (fl (1 - x) / r) * 10 ^ 9" using k by (simp add: fl_of_int)
    then have "fl (of_int k * 10 ^ 9) \<le> fl (fl (fl (1 - x) / r) * 10 ^ 9)" by (rule fl_mono)
    with q exact show False by simp
  qed
  then have "fl (1 - x) < of_int k * r" using r by (simp add: divide_less_eq)
  also have "\<dots> \<le> e * r" using e r by simp
  finally have "fl (fl (1 - x)) \<le> fl (e * r)" by (intro fl_mono) simp
  then have "fl (x + fl (1 - x)) \<le> fl (x + fl (e * r))" by (intro fl_mono) simp
  with deficit_restores_one [OF x] show ?thesis by linarith
qed

text \<open>The numbers a denial reports, when the rate is at least one request in \<open>10^9\<close> seconds.\<close>

lemma denial_numbers:
  assumes t: "good_limiter t" "rate t = Fin r" "1 / 10 ^ 9 \<le> r"
    and y: "tokens (refill t now b) = Fin y" "0 \<le> y" "y < 1"
  defines "q \<equiv> fl (fl (fl (1 - y) / r) * 10 ^ 9)"
  shows "bucket_allow impl t now b =
      (\<lparr>Allowed = False, Limit = burst t, Remaining = 0,
        ResetAt = Time_Add now (int64_of impl (float64_of_int time_Second / rate t)),
        RetryAfter = \<lfloor>q\<rfloor>\<rparr>, refill t now b)"
    and "0 \<le> q" and "q \<le> 2 ^ 60"
proof -
  have r: "0 < r" using t(3) by (rule less_le_trans [rotated]) simp
  have d: "0 \<le> fl (1 - y)" "fl (1 - y) \<le> 1"
    using fl_nonneg [of "1 - y"] fl_mono [of "1 - y" 1] fl_of_int [of 1] y by auto
  have "fl (1 - y) / r \<le> 1 / (1 / 10 ^ 9)" using d r t(3) by (intro frac_le) auto
  then have dr: "0 \<le> fl (1 - y) / r" "fl (1 - y) / r \<le> of_int (10 ^ 9)" using d r by simp_all
  have fdr: "0 \<le> fl (fl (1 - y) / r)" "fl (fl (1 - y) / r) \<le> 10 ^ 9"
    using fl_nonneg [OF dr(1)] fl_mono [OF dr(2)] fl_of_int [of "10 ^ 9"] by simp_all
  then have s: "0 \<le> fl (fl (1 - y) / r) * 10 ^ 9" "\<bar>fl (fl (1 - y) / r) * 10 ^ 9\<bar> \<le> 2 ^ 60"
    using mult_right_mono [OF fdr(2), of "10 ^ 9"] by simp_all
  show q: "0 \<le> q" "q \<le> 2 ^ 60"
    unfolding q_def using fl_nonneg [OF s(1)] fl_below_power [OF s(2)] by auto
  have big: "\<bar>1 - y\<bar> \<le> 2 ^ 1000" "\<bar>fl (1 - y) / r\<bar> \<le> 2 ^ 1000"
    "\<bar>fl (fl (1 - y) / r) * 10 ^ 9\<bar> \<le> 2 ^ 1000"
    using pow2_1000_le [of 1] pow2_1000_le [of 31] pow2_1000_le [of 60] y dr s by simp_all
  have sec: "float64_of_int time_Second = Fin (10 ^ 9)"
    by (subst float64_of_int_exact) (simp_all add: time_Second_def)
  have "\<lfloor>q\<rfloor> \<le> \<lfloor>(2 ^ 60 :: rat)\<rfloor>" using q(2) by (rule floor_mono)
  then have "int64_of impl (Fin q) = \<lfloor>q\<rfloor>"
    using q(1) by (simp add: int64_of_def trunc_def in_int64_def min_int64_def max_int64_def)
  then have ra: "int64_of impl ((Fin 1 - Fin y) / rate t * float64_of_int time_Second) = \<lfloor>q\<rfloor>"
    using big r unfolding sec t(2) by (simp add: minus_float64_def to_f64_fin q_def)
  have rem: "int64_of impl (math_Floor (Fin y)) = 0"
    using small_int_conversion [of y impl] y by (simp add: floor_eq_iff)
  show "bucket_allow impl t now b =
      (\<lparr>Allowed = False, Limit = burst t, Remaining = 0,
        ResetAt = Time_Add now (int64_of impl (float64_of_int time_Second / rate t)),
        RetryAfter = \<lfloor>q\<rfloor>\<rparr>, refill t now b)"
    using y(3) by (simp add: bucket_allow_def Let_def y(1) rem ra)
qed

lemma retryAfterSecs_bounds:
  assumes "RetryAfter d = n" and "0 \<le> n" and "n \<le> max_int64"
  shows "n div time_Second + 1 \<le> retryAfterSecs impl d" and "retryAfterSecs impl d \<le> 2 ^ 36"
proof -
  let ?s = "seconds n"
  have s: "0 \<le> ?s" "?s \<le> 2 ^ 35" "of_int (n div time_Second) \<le> ?s"
    using seconds_nonneg [OF assms(2,3)] Duration_Seconds_fin [OF assms(2,3)]
      seconds_int_part [OF assms(2,3)] by auto
  have "\<lfloor>?s\<rfloor> \<le> \<lfloor>(2 ^ 35 :: rat)\<rfloor>" using s(2) by (rule floor_mono)
  then have f: "0 \<le> \<lfloor>?s\<rfloor>" "\<lfloor>?s\<rfloor> \<le> 2 ^ 35" using s(1) by simp_all
  then have "int64_of impl (Fin ?s) = \<lfloor>?s\<rfloor>"
    using s(1) by (simp add: int64_of_def trunc_def in_int64_def min_int64_def max_int64_def)
  then have r: "retryAfterSecs impl d = \<lfloor>?s\<rfloor> + 1"
    using f assms(1) Duration_Seconds_fin(1) [OF assms(2,3)]
    by (simp add: retryAfterSecs_def in_int64_def min_int64_def max_int64_def)
  show "n div time_Second + 1 \<le> retryAfterSecs impl d"
    unfolding r using s(3) by (simp add: le_floor_iff)
  show "retryAfterSecs impl d \<le> 2 ^ 36" unfolding r using f by simp
qed

lemma whole_seconds:
  assumes "0 \<le> n" and "n \<le> 2 ^ 60"
  shows "1 \<le> n div time_Second + 1" and "n div time_Second + 1 \<le> 2 ^ 31"
    and "n + 1 \<le> (n div time_Second + 1) * 10 ^ 9"
    and "(n div time_Second + 1) * time_Second \<le> max_int64" and "n \<le> max_int64"
  using assms by (simp_all add: time_Second_def max_int64_def)

text \<open>A bucket left alone for \<open>k\<close> seconds after a denial whose deficit is below \<open>k\<close>
  seconds of refill.\<close>

lemma allowed_after_seconds:
  assumes t: "good_limiter t" "rate t = Fin r"
    and y: "tokens b = Fin y" "0 \<le> y" "y < 1"
    and k: "1 \<le> k" "k \<le> 2 ^ 31" "k * time_Second \<le> max_int64"
    and q: "fl (fl (fl (1 - y) / r) * 10 ^ 9) < of_int k * 10 ^ 9"
    and wait: "k * time_Second \<le> now - lastRefill b"
  shows "Allowed (fst (bucket_allow impl t now b))"
proof -
  define d where "d = Time_Sub now (lastRefill b)"
  have now: "lastRefill b \<le> now" using wait k(1) by (simp add: time_Second_def)
  have kd: "k * time_Second \<le> d" using wait k(1,3) by (auto simp: d_def Time_Sub_def)
  have d: "0 \<le> d" "d \<le> max_int64"
    using Time_Sub_nonneg [OF now] Time_Sub_in_range [of now "lastRefill b"]
    by (simp_all add: d_def in_int64_def)
  have "k \<le> d div time_Second" using kd by (simp add: time_Second_def)
  then have e: "of_int k \<le> seconds d"
    using seconds_int_part [OF d] by (meson of_int_le_iff order_trans)
  have "0 < r" using t by (auto elim!: good_limiterE)
  then have "1 \<le> fl (y + fl (seconds d * r))" using y k q e by (intro retry_enough) auto
  moreover have "(1::rat) \<le> of_int (burst t)" using t(1) by (auto simp: good_limiter_def)
  ultimately have "1 \<le> refilled r (burst t) y d" by (simp add: refilled_def)
  then show ?thesis
    using refill_tokens [OF t y(1,2) now] by (simp add: d_def bucket_allow_def Let_def)
qed

section \<open>Properties\<close>

text \<open>The limiter of the route \<open>/api/users\<close> in \<open>configs/gateway.yaml\<close>, for the witnesses.\<close>

definition sample_limiter :: TokenBucket where
  "sample_limiter = NewTokenBucket (Fin 100) 20"

lemma sample_limiter_good: "good_limiter sample_limiter"
  using fl_of_int [of 100] by (simp add: good_limiter_def sample_limiter_def NewTokenBucket_def)

lemma sample_limiter_fields [simp]:
  "rate sample_limiter = Fin 100" "burst sample_limiter = 20"
  by (simp_all add: sample_limiter_def NewTokenBucket_def)

text \<open>
  C15. Advice to retry is sound: a client that was denied and stays away for the whole seconds
  announced in \<open>Retry-After\<close> has its next request allowed, in the code's own float arithmetic
  and for every rate from one request in \<open>10^9\<close> seconds upwards.
\<close>

theorem retry_after_suffices:
  assumes t: "good_limiter t" "rate t = Fin r" "1 / 10 ^ 9 \<le> r"
    and b: "bucket_ok t b" "lastRefill b \<le> now"
    and denied: "bucket_allow impl t now b = (d, b')" "\<not> Allowed d"
    and wait: "now + retryAfterSecs impl d * time_Second \<le> now'"
  shows "Allowed (fst (bucket_allow impl t now' b'))"
proof -
  obtain x where x: "tokens b = Fin x" "0 \<le> x" "x \<le> of_int (burst t)" "fl x = x"
    using b(1) by (auto simp: bucket_ok_def)
  define y where "y = refilled r (burst t) x (Time_Sub now (lastRefill b))"
  note st = bucket_allow_step [OF t(1,2) x b(2) y_def]
  have y1: "0 \<le> y" "y < 1" using st(1) st(3) [of impl] x(2) denied by auto
  have tok: "tokens (refill t now b) = Fin y"
    unfolding y_def by (rule refill_tokens [OF t(1,2) x(1,2) b(2)])
  define q where "q = fl (fl (fl (1 - y) / r) * 10 ^ 9)"
  note dn = denial_numbers [OF t tok y1, folded q_def]
  have ra: "RetryAfter d = \<lfloor>q\<rfloor>" and b': "b' = refill t now b"
    using dn(1) [of impl] denied(1) by auto
  have "\<lfloor>q\<rfloor> \<le> \<lfloor>(2 ^ 60 :: rat)\<rfloor>" using dn(3) by (rule floor_mono)
  then have n: "0 \<le> \<lfloor>q\<rfloor>" "\<lfloor>q\<rfloor> \<le> 2 ^ 60" using dn(2) by simp_all
  note k = whole_seconds [OF n]
  have "q < of_int (\<lfloor>q\<rfloor> + 1)" using floor_correct [of q] by blast
  also have "\<dots> \<le> of_int ((\<lfloor>q\<rfloor> div time_Second + 1) * 10 ^ 9)" using k(3) by (simp only: of_int_le_iff)
  finally have "q < of_int (\<lfloor>q\<rfloor> div time_Second + 1) * 10 ^ 9" by simp
  moreover have "(\<lfloor>q\<rfloor> div time_Second + 1) * time_Second \<le> now' - lastRefill b'"
    using wait retryAfterSecs_bounds(1) [OF ra n(1) k(5), of impl]
    by (simp add: b' time_Second_def)
  ultimately show ?thesis
    using allowed_after_seconds [OF t(1,2) _ y1 k(1,2,4)] tok by (simp add: b' q_def)
qed

definition empty_bucket :: bucket where
  "empty_bucket = \<lparr>tokens = Fin 0, lastRefill = 0, lastAccess = 0\<rparr>"

lemma empty_bucket_denied:
  "bucket_ok sample_limiter empty_bucket"
  "Allowed (fst (bucket_allow impl sample_limiter 0 empty_bucket)) \<longleftrightarrow> False"
  using bucket_allow_step(3) [of sample_limiter 100 empty_bucket 0 0 0 impl]
    refilled_same_instant [of 0 20 100 0] sample_limiter_good
  by (auto simp: bucket_ok_def empty_bucket_def)

theorem retry_after_suffices_witness:
  "Allowed (fst (bucket_allow (\<lambda>_. 0) sample_limiter
     (retryAfterSecs (\<lambda>_. 0) (fst (bucket_allow (\<lambda>_. 0) sample_limiter 0 empty_bucket)) * time_Second)
     (snd (bucket_allow (\<lambda>_. 0) sample_limiter 0 empty_bucket))))"
proof -
  have "lastRefill empty_bucket \<le> 0" by (simp add: empty_bucket_def)
  then show ?thesis
    using retry_after_suffices [of sample_limiter 100 empty_bucket 0 "\<lambda>_. 0",
        OF sample_limiter_good _ _ empty_bucket_denied(1) _ prod.collapse [symmetric]]
      empty_bucket_denied(2)
    by simp
qed



text \<open>
  C10. The burst is exact: a client new to the store that sends any number of requests at one
  instant has precisely the first \<open>burst\<close> of them allowed, whatever other clients send in
  between.
\<close>

theorem burst_exact:
  assumes "good_limiter t" and "times_of k rs = replicate n now"
  shows "map Allowed (decisions_of k (fst (store_run impl rs (NewTokenBucketStore t))))
           = map (\<lambda>i. i < nat (burst t)) [0..<n]"
proof -
  have "tokens (new_bucket t now) = Fin (of_nat (nat (burst t)))"
    using bucket_ok_new(1) [OF assms(1)] assms(1) by (simp add: good_limiter_def)
  then have "map Allowed (fst (bucket_run impl t (replicate n now) (new_bucket t now)))
      = map (\<lambda>i. i < nat (burst t)) [0..<n]"
    using assms(1) by (intro bucket_run_burst) (auto simp: new_bucket_def good_limiter_def)
  then show ?thesis
    unfolding store_run_client assms(2)
    by (cases n) (auto simp: NewTokenBucketStore_def client_run_def)
qed

theorem burst_exact_witness:
  "map Allowed (decisions_of ''a'' (fst (store_run (\<lambda>_. 0)
      [(7, ''a''), (7, ''b''), (7, ''a'')] (NewTokenBucketStore (NewTokenBucket (Fin 100) 1)))))
     = [True, False]"
proof -
  have "good_limiter (NewTokenBucket (Fin 100) 1)"
    using fl_of_int [of 100] by (simp add: good_limiter_def NewTokenBucket_def)
  moreover have "times_of ''a'' [(7, ''a''), (7, ''b''), (7, ''a'')] = replicate 2 7"
    by (simp add: times_of_def numeral_2_eq_2)
  ultimately show ?thesis
    using burst_exact [of "NewTokenBucket (Fin 100) 1" "''a''"
        "[(7, ''a''), (7, ''b''), (7, ''a'')]" 2 7 "\<lambda>_. 0"]
    by (simp add: NewTokenBucket_def upt_rec)
qed

text \<open>
  C16. Clients are isolated: the decisions a client gets from any store and any sequence of
  requests are those it would get if the other clients had sent nothing.
\<close>

theorem clients_isolated:
  "decisions_of k (fst (store_run impl rs s))
     = decisions_of k (fst (store_run impl (filter (\<lambda>(now, k'). k' = k) rs) s))"
  unfolding store_run_client by (simp add: times_of_def filter_filter)

text \<open>
  For time-ordered requests on a new store every decision reports the burst as its limit
  and a remaining count between zero and the burst, for every client.
\<close>

theorem remaining_in_range:
  assumes "good_limiter t" and "sorted (map fst rs)"
    and "d \<in> set (decisions_of k (fst (store_run impl rs (NewTokenBucketStore t))))"
  shows "0 \<le> Remaining d \<and> Remaining d \<le> burst t \<and> Limit d = burst t"
proof (cases "times_of k rs")
  case Nil
  then show ?thesis
    using assms(3) by (simp add: store_run_client NewTokenBucketStore_def client_run_def)
next
  case (Cons t0 ts)
  have "sorted (lastRefill (new_bucket t t0) # t0 # ts)"
    using sorted_times_of [OF assms(2), of k] Cons by (simp add: new_bucket_def)
  moreover have "d \<in> set (fst (bucket_run impl t (t0 # ts) (new_bucket t t0)))"
    using assms(3) unfolding store_run_client Cons by (simp add: NewTokenBucketStore_def client_run_def)
  ultimately show ?thesis
    using bucket_run_remaining [OF assms(1) bucket_ok_new(2) [OF assms(1)]] by blast
qed

theorem remaining_in_range_witness:
  "\<exists>d. d \<in> set (decisions_of ''a'' (fst (store_run (\<lambda>_. 0) [(3, ''a'')] (NewTokenBucketStore sample_limiter))))
     \<and> 0 \<le> Remaining d \<and> Remaining d \<le> 20 \<and> Limit d = 20"
proof -
  obtain d where d: "d \<in> set (decisions_of ''a'' (fst (store_run (\<lambda>_. 0) [(3, ''a'')]
      (NewTokenBucketStore sample_limiter))))"
    by (auto simp: decisions_of_def split_beta Let_def)
  show ?thesis
    using d remaining_in_range [OF sample_limiter_good _ d] by auto
qed

text \<open>
  C34. When five minutes of refill fill a bucket, the background cleanup cannot be observed: the
  decision a client gets, and the bucket it is left with, are the same whether or not a cleanup
  pass ran since its last request.
\<close>

theorem cleanup_unobservable:
  assumes t: "good_limiter (tb s)" "rate (tb s) = Fin r" "of_int (burst (tb s)) \<le> 300 * r"
    and s: "distinct (map fst (buckets s))"
    and b: "\<forall>b. map_of (buckets s) k = Some b \<longrightarrow>
              bucket_ok (tb s) b \<and> lastRefill b = lastAccess b"
    and tick: "tick \<le> now"
  defines "s' \<equiv> RunCleanup (Time_Add tick (- (5 * time_Minute))) s"
  shows "fst (Allow impl now k s') = fst (Allow impl now k s) \<and>
         map_of (buckets (snd (Allow impl now k s'))) k = map_of (buckets (snd (Allow impl now k s))) k"
proof -
  have "bucket_allow impl (tb s) now (bucket_for s' now k)
      = bucket_allow impl (tb s) now (bucket_for s now k)"
  proof (cases "map_of (buckets s) k")
    case None
    then show ?thesis by (simp add: s'_def bucket_for_def RunCleanup_lookup [OF s])
  next
    case (Some b)
    show ?thesis
    proof (cases "Time_Add tick (- (5 * time_Minute)) \<le> lastAccess b")
      case True
      then show ?thesis using Some by (simp add: s'_def bucket_for_def RunCleanup_lookup [OF s])
    next
      case False
      obtain x where x: "tokens b = Fin x" "0 \<le> x" and l: "lastRefill b = lastAccess b"
        using assms(5) Some by (auto simp: bucket_ok_def)
      have "refill (tb s) now b = new_bucket (tb s) now"
        using False l tick by (intro refill_idle [OF t x]) (simp add: Time_Add_def)
      then have "bucket_allow impl (tb s) now b = bucket_allow impl (tb s) now (new_bucket (tb s) now)"
        by (intro bucket_allow_cong) (simp add: refill_new [OF t(1)])
      then show ?thesis using Some False by (simp add: s'_def bucket_for_def RunCleanup_lookup [OF s])
    qed
  qed
  moreover have "tb s' = tb s" by (simp add: s'_def)
  ultimately show ?thesis by (simp add: Allow_result Allow_lookup)
qed

definition sample_store :: TokenBucketStore where
  "sample_store = \<lparr>tb = sample_limiter, buckets = [(''a'', empty_bucket)], stopped = False\<rparr>"

theorem cleanup_unobservable_witness:
  "fst (Allow (\<lambda>_. 0) (400 * time_Second) ''a'' (RunCleanup (Time_Add (400 * time_Second)
      (- (5 * time_Minute))) sample_store))
     = fst (Allow (\<lambda>_. 0) (400 * time_Second) ''a'' sample_store)"
  using cleanup_unobservable [of sample_store 100 "''a''" "400 * time_Second" "400 * time_Second" "\<lambda>_. 0"]
    sample_limiter_good empty_bucket_denied(1)
  by (simp add: sample_store_def) (simp add: empty_bucket_def)

text \<open>
  A slower limiter is defeated by the cleanup: a client whose bucket was dropped as stale
  finds it full again, although its own bucket would still have denied the request.
\<close>

theorem cleanup_refunds_slow_client:
  assumes t: "good_limiter (tb s)"
    and s: "distinct (map fst (buckets s))" "map_of (buckets s) k = Some b"
    and stale: "lastAccess b < th"
    and denied: "\<not> Allowed (fst (Allow impl now k s))"
  shows "Allowed (fst (Allow impl now k (RunCleanup th s))) \<and>
         Remaining (fst (Allow impl now k (RunCleanup th s))) = burst (tb s) - 1"
proof -
  obtain r where r: "rate (tb s) = Fin r" and n: "fl (of_int (burst (tb s))) = of_int (burst (tb s))"
    "(1::rat) \<le> of_int (burst (tb s))"
    using t by (auto elim!: good_limiterE)
  have "fst (Allow impl now k (RunCleanup th s)) = fst (bucket_allow impl (tb s) now (new_bucket (tb s) now))"
    using s(2) stale by (simp add: Allow_result bucket_for_def RunCleanup_lookup [OF s(1)])
  moreover note bucket_allow_step(3,5) [OF t r bucket_ok_new(1) [OF t] _ order_refl n(1) _
      refl, of now now impl]
  moreover have "fl (of_int (burst (tb s)) - 1) = of_int (burst (tb s) - 1)"
    using fl_of_int [of "burst (tb s) - 1"] t by (simp add: good_limiter_def)
  ultimately show ?thesis
    using n refilled_same_instant [OF n(1) order_refl, of r now] by (simp add: new_bucket_def)
qed

text \<open>One request in 1024 seconds, ten at once; the client used its tokens up at time zero and
  comes back after 301 seconds.\<close>

definition slow_store :: TokenBucketStore where
  "slow_store = \<lparr>tb = NewTokenBucket (Fin (1 / 1024)) 10, buckets = [(''a'', empty_bucket)], stopped = False\<rparr>"

lemma slow_limiter_good: "good_limiter (NewTokenBucket (Fin (1 / 1024)) 10)"
proof -
  have "fl (1 / 1024) = 1 / 1024" by code_simp
  then show ?thesis
    unfolding good_limiter_def by (intro conjI exI [of _ "1 / 1024"]) (simp_all add: NewTokenBucket_def)
qed

lemma slow_store_denies: "\<not> Allowed (fst (Allow (\<lambda>_. 0) (301 * time_Second) ''a'' slow_store))"
proof -
  have "seconds (301 * time_Second) = 301"
    using fl_of_int [of 301] by (simp add: seconds_def time_Second_def)
  moreover have "fl (301 / 1024) = 301 / 1024" by code_simp
  ultimately have "refilled (1 / 1024) 10 0 (301 * time_Second) < 1" by (simp add: refilled_def)
  then show ?thesis
    using bucket_allow_step(3) [OF slow_limiter_good, of "1 / 1024" empty_bucket 0 "301 * time_Second"]
    by (simp add: Allow_result bucket_for_def slow_store_def empty_bucket_def NewTokenBucket_def Time_Sub_def
        min_int64_def max_int64_def time_Second_def)
qed

theorem cleanup_refunds_slow_client_witness:
  "\<not> Allowed (fst (Allow (\<lambda>_. 0) (301 * time_Second) ''a'' slow_store)) \<and>
   Allowed (fst (Allow (\<lambda>_. 0) (301 * time_Second) ''a''
     (RunCleanup (Time_Add (301 * time_Second) (- (5 * time_Minute))) slow_store)))"
proof -
  have "good_limiter (tb slow_store)" by (simp add: slow_limiter_good slow_store_def)
  then show ?thesis
    using cleanup_refunds_slow_client [of slow_store "''a''" empty_bucket
        "Time_Add (301 * time_Second) (- (5 * time_Minute))" "\<lambda>_. 0" "301 * time_Second"]
      slow_store_denies
    by (simp add: slow_store_def empty_bucket_def Time_Add_def time_Minute_def time_Second_def)
qed

text \<open>
  A rate of \<open>+Inf\<close> or NaN, which the check \<open>requests_per_second <= 0\<close> lets through,
  denies every request of every client: \<open>0 * Inf\<close> makes the tokens NaN at the first one.
\<close>

theorem non_finite_rate_denies_all:
  assumes "rate t = NaN \<or> rate t = PInf"
    and "d \<in> set (decisions_of k (fst (store_run impl rs (NewTokenBucketStore t))))"
  shows "\<not> Allowed d"
proof (cases "times_of k rs")
  case Nil
  then show ?thesis
    using assms(2) by (simp add: store_run_client NewTokenBucketStore_def client_run_def)
next
  case (Cons t0 ts)
  have "d \<in> set (fst (bucket_run impl t (t0 # ts) (new_bucket t t0)))"
    using assms(2) unfolding store_run_client Cons
    by (simp add: NewTokenBucketStore_def client_run_def)
  then show ?thesis
    using non_finite_first_request(1) [OF assms(1)]
      nan_bucket_run [OF non_finite_first_request(2) [OF assms(1)]]
    by (auto simp: split_beta Let_def)
qed

theorem non_finite_rate_denies_all_witness:
  "\<exists>d. d \<in> set (decisions_of ''a'' (fst (store_run (\<lambda>_. 0) [(3, ''a'')]
      (NewTokenBucketStore (NewTokenBucket PInf 20))))) \<and> \<not> Allowed d"
proof -
  obtain d where d: "d \<in> set (decisions_of ''a'' (fst (store_run (\<lambda>_. 0) [(3, ''a'')]
      (NewTokenBucketStore (NewTokenBucket PInf 20)))))"
    by (auto simp: decisions_of_def split_beta Let_def)
  show ?thesis
    using d non_finite_rate_denies_all [OF _ d] by (auto simp: NewTokenBucket_def)
qed

text \<open>
  The clock is read before the bucket is locked, so of two racing requests the one with the
  earlier reading may get the lock last and see a refill in its future. Its elapsed time is
  negative and so are the tokens it leaves.
\<close>

definition raced_bucket :: bucket where
  "raced_bucket = \<lparr>tokens = Fin 0, lastRefill = 10, lastAccess = 10\<rparr>"

lemma raced_refill:
  "tokens (refill sample_limiter 9 raced_bucket)
     = Fin (fl (0 + fl (fl (0 + fl ((-1) / 10 ^ 9)) * 100)))"
proof -
  define e where "e = fl (0 + fl ((-1) / 10 ^ 9))"
  define v where "v = fl (e * 100)"
  have one: "\<bar>e\<bar> \<le> 1" "\<bar>v\<bar> \<le> 1"
    unfolding e_def v_def by code_simp+
  have big: "\<bar>x\<bar> \<le> 2 ^ 1000" if "\<bar>x\<bar> \<le> 100" for x :: rat
    using that pow2_1000_le [of 7] by simp
  have "Time_Sub 9 10 = -1" by (simp add: Time_Sub_def min_int64_def max_int64_def)
  moreover have "\<bar>fl (1 / 10 ^ 9)\<bar> \<le> 100" by code_simp
  then have "Duration_Seconds (-1) = Fin e"
    by (simp add: Duration_Seconds_def float64_of_int_exact time_Second_def signed_divide_int_def
        signed_modulo_int_def to_f64_fin big e_def)
  moreover have "to_f64 (e * 100) = Fin v" using one by (simp add: to_f64_fin big v_def abs_mult)
  moreover have "to_f64 (0 + v) = Fin (fl (0 + v))" using one by (simp add: to_f64_fin big)
  moreover have "\<not> Fin (fl (0 + v)) > Fin 20" unfolding v_def e_def by code_simp
  ultimately show ?thesis
    by (simp add: refill_def raced_bucket_def Let_def float64_of_int_exact v_def e_def)
qed

text \<open>
  Out-of-order clock readings of two racing requests make the limiter report a negative
  number of remaining requests.
\<close>

theorem race_reports_negative_remaining:
  "Remaining (fst (bucket_allow impl sample_limiter 9 raced_bucket)) = -1"
proof -
  define y where "y = fl (0 + fl (fl (0 + fl ((-1) / 10 ^ 9)) * 100))"
  have "\<lfloor>y\<rfloor> = -1" "\<not> 1 \<le> y" unfolding y_def by code_simp+
  then show ?thesis
    using raced_refill [folded y_def]
    by (simp add: bucket_allow_def Let_def math_Floor_def int64_of_def trunc_def in_int64_def
        min_int64_def max_int64_def ceiling_def)
qed

end
