(* ===== verification/Balancer.thy ===== *)
theory Balancer
  imports Config "HOL-Library.Multiset"
begin

text \<open>
  What the load balancers share, \<open>internal/balancer/balancer.go\<close>: targets, their reported
  status, the error for an empty choice, and the loop of \<open>SetHealthy\<close>, which both
  balancers repeat. The Go interfaces \<open>Balancer\<close> and \<open>healthSetter\<close> become the locale
  \<open>balancer\<close> with the contract the proxy and the health checker rely on.
\<close>

section \<open>Targets\<close>

record Target =
  tURL :: URL
  tWeight :: int

record TargetStatus =
  tsTarget :: Target
  tsHealthy :: bool
  LastChecked :: Time
  LastError :: "string option"
  FailureCount :: int
  SuccessCount :: int

datatype balancer_error = ErrNoHealthyTargets

definition status_of :: "Target \<Rightarrow> bool \<Rightarrow> TargetStatus" where
  "status_of t h = \<lparr>tsTarget = t, tsHealthy = h, LastChecked = zero_time, LastError = None,
     FailureCount = 0, SuccessCount = 0\<rparr>"

abbreviation status_url :: "TargetStatus \<Rightarrow> string" where
  "status_url s \<equiv> URL_String (tURL (tsTarget s))"

text \<open>\<open>Targets\<close>: one status per target, in order.\<close>

definition statuses_of :: "Target list \<Rightarrow> bool list \<Rightarrow> TargetStatus list" where
  "statuses_of ts hs = map (\<lambda>i. status_of (ts ! i) (hs ! i)) [0..<length ts]"

text \<open>The search loop of \<open>SetHealthy\<close>: the first index whose URL renders as the given text.\<close>

fun find_target :: "string \<Rightarrow> Target list \<Rightarrow> nat \<Rightarrow> nat option" where
  "find_target s [] i = None"
| "find_target s (t # ts) i = (if URL_String (tURL t) = s then Some i else find_target s ts (i + 1))"

section \<open>The interface\<close>

text \<open>On the reported statuses, \<open>SetHealthy\<close> changes the first entry with the URL.\<close>

fun set_health :: "string \<Rightarrow> bool \<Rightarrow> TargetStatus list \<Rightarrow> TargetStatus list" where
  "set_health s v [] = []"
| "set_health s v (x # xs) =
     (if status_url x = s then x\<lparr>tsHealthy := v\<rparr> # xs else x # set_health s v xs)"

definition some_healthy :: "TargetStatus list \<Rightarrow> bool" where
  "some_healthy xs \<longleftrightarrow> list_ex tsHealthy xs"

definition offered :: "URL \<Rightarrow> TargetStatus list \<Rightarrow> bool" where
  "offered u xs \<longleftrightarrow> list_ex (\<lambda>x. tsHealthy x \<and> tURL (tsTarget x) = u) xs"

definition served :: "balancer_error + URL \<Rightarrow> TargetStatus list \<Rightarrow> bool" where
  "served r xs \<longleftrightarrow> (case r of Inr u \<Rightarrow> offered u xs | Inl ErrNoHealthyTargets \<Rightarrow> \<not> some_healthy xs)"

lemma offered_some_healthy: "offered u xs \<Longrightarrow> some_healthy xs"
  by (auto simp: offered_def some_healthy_def list_ex_iff)

text \<open>
  Requests and health updates in the order in which they take the balancer's lock, the results
  of the requests, and the statuses each request finds.
\<close>

datatype bal_event = Request | HealthUpdate string bool

fun serve :: "('b \<Rightarrow> 'r \<times> 'b) \<Rightarrow> (string \<Rightarrow> bool \<Rightarrow> 'b \<Rightarrow> 'b) \<Rightarrow> bal_event list \<Rightarrow> 'b
    \<Rightarrow> 'r list \<times> 'b" where
  "serve nxt upd [] b = ([], b)"
| "serve nxt upd (Request # es) b =
     (case nxt b of (r, b') \<Rightarrow> case serve nxt upd es b' of (rs, b'') \<Rightarrow> (r # rs, b''))"
| "serve nxt upd (HealthUpdate s v # es) b = serve nxt upd es (upd s v b)"

lemma serve_requests:
  "serve nxt upd (replicate k Request) b =
     (map (\<lambda>n. fst (nxt (((\<lambda>b. snd (nxt b)) ^^ n) b))) [0..<k], ((\<lambda>b. snd (nxt b)) ^^ k) b)"
proof (induction k arbitrary: b)
  case (Suc k)
  let ?f = "\<lambda>b. snd (nxt b)"
  have "(?f ^^ Suc n) b = (?f ^^ n) (?f b)" for n by (simp only: funpow_Suc_right comp_def)
  then show ?case
    using Suc [of "?f b"] by (cases "nxt b") (simp add: map_upt_Suc del: upt_Suc funpow.simps)
qed simp

fun health_view :: "bal_event list \<Rightarrow> TargetStatus list \<Rightarrow> TargetStatus list list" where
  "health_view [] xs = []"
| "health_view (Request # es) xs = xs # health_view es xs"
| "health_view (HealthUpdate s v # es) xs = health_view es (set_health s v xs)"

text \<open>
  The contract. \<open>left\<close> is a number of calls for which a balancer is sure to find a healthy
  target while there is one; a call uses up at most one.
\<close>

locale balancer =
  fixes Next :: "'b \<Rightarrow> (balancer_error + URL) \<times> 'b"
    and Targets :: "'b \<Rightarrow> TargetStatus list"
    and SetHealthy :: "string \<Rightarrow> bool \<Rightarrow> 'b \<Rightarrow> 'b"
    and wf :: "'b \<Rightarrow> bool"
    and left :: "'b \<Rightarrow> nat"
  assumes wf_Next: "wf b \<Longrightarrow> wf (snd (Next b))"
    and wf_SetHealthy: "wf b \<Longrightarrow> wf (SetHealthy s v b)"
    and Targets_Next: "wf b \<Longrightarrow> Targets (snd (Next b)) = Targets b"
    and Targets_SetHealthy: "wf b \<Longrightarrow> Targets (SetHealthy s v b) = set_health s v (Targets b)"
    and Next_sound: "wf b \<Longrightarrow> fst (Next b) = Inr u \<Longrightarrow> offered u (Targets b)"
    and Next_complete: "wf b \<Longrightarrow> 0 < left b \<Longrightarrow> some_healthy (Targets b) \<Longrightarrow> \<exists>u. fst (Next b) = Inr u"
    and left_Next: "wf b \<Longrightarrow> left b \<le> Suc (left (snd (Next b)))"
    and left_SetHealthy: "wf b \<Longrightarrow> left (SetHealthy s v b) = left b"
begin

lemma wf_serve: "wf b \<Longrightarrow> wf (snd (serve Next SetHealthy es b))"
proof (induction es arbitrary: b)
  case (Cons e es)
  show ?case
  proof (cases e)
    case Request
    obtain r b' where N: "Next b = (r, b')" by (cases "Next b")
    then have "wf (snd (serve Next SetHealthy es b'))" using Cons wf_Next [of b] by simp
    then show ?thesis by (auto simp: N Request split: prod.splits)
  next
    case (HealthUpdate s v)
    then show ?thesis using Cons wf_SetHealthy by simp
  qed
qed simp

text \<open>
  Every request gets a target the statuses of its moment offer, or the error when they offer
  none.
\<close>

lemma Next_exact:
  assumes "wf b" and "0 < left b"
  shows "served (fst (Next b)) (Targets b)"
proof (cases "fst (Next b)")
  case (Inl e)
  then show ?thesis using Next_complete [OF assms] by (cases e) (auto simp: served_def)
next
  case (Inr u)
  then show ?thesis using Next_sound [OF assms(1) Inr] offered_some_healthy by (auto simp: served_def)
qed

lemma serve_exact:
  assumes "wf b" and "count_list es Request \<le> left b"
  shows "list_all2 served (fst (serve Next SetHealthy es b)) (health_view es (Targets b))"
  using assms
proof (induction es arbitrary: b)
  case (Cons e es)
  show ?case
  proof (cases e)
    case Request
    obtain r b' where N: "Next b = (r, b')" by (cases "Next b")
    have "count_list es Request \<le> left b'"
      using Cons.prems left_Next [of b] N Request by simp
    then have "list_all2 served (fst (serve Next SetHealthy es b')) (health_view es (Targets b))"
      using Cons.IH [of b'] wf_Next [OF Cons.prems(1)] Targets_Next [OF Cons.prems(1)] N by simp
    then show ?thesis
      using Next_exact [OF Cons.prems(1)] Cons.prems(2) N Request by (auto split: prod.splits)
  next
    case (HealthUpdate s v)
    then show ?thesis
      using Cons.IH [of "SetHealthy s v b"] Cons.prems wf_SetHealthy Targets_SetHealthy left_SetHealthy
      by simp
  qed
qed simp

end

section \<open>Facts about statuses\<close>

lemma set_health_length [simp]: "length (set_health s v xs) = length xs"
  by (induction xs) auto

lemma set_health_urls [simp]: "map status_url (set_health s v xs) = map status_url xs"
  by (induction xs) auto

lemma set_health_targets [simp]: "map tsTarget (set_health s v xs) = map tsTarget xs"
  by (induction xs) auto

lemma set_health_distinct:
  assumes "distinct (map status_url xs)"
  shows "set_health s v xs = map (\<lambda>x. if status_url x = s then x\<lparr>tsHealthy := v\<rparr> else x) xs"
  using assms
proof (induction xs)
  case (Cons x xs)
  have "map (\<lambda>x. if status_url x = s then x\<lparr>tsHealthy := v\<rparr> else x) xs = xs"
    if "status_url x = s" using Cons.prems that by (intro map_idI) (auto simp: image_iff)
  with Cons show ?case by auto
qed simp

lemma set_health_absent: "s \<notin> status_url ` set xs \<Longrightarrow> set_health s v xs = xs"
  by (induction xs) auto

lemma find_target_Some:
  "find_target s ts i = Some k \<Longrightarrow> i \<le> k \<and> k < i + length ts \<and> URL_String (tURL (ts ! (k - i))) = s"
proof (induction s ts i rule: find_target.induct)
  case (2 s t ts i)
  show ?case
  proof (cases "URL_String (tURL t) = s")
    case False
    then have IH: "i + 1 \<le> k" "k < i + 1 + length ts" "URL_String (tURL (ts ! (k - (i + 1)))) = s"
      using 2 by auto
    then have "k - i = Suc (k - (i + 1))" by simp
    with IH show ?thesis by simp
  qed (use 2 in auto)
qed simp

lemma statuses_length [simp]: "length (statuses_of ts hs) = length ts"
  by (simp add: statuses_of_def)

lemma statuses_nth [simp]: "i < length ts \<Longrightarrow> statuses_of ts hs ! i = status_of (ts ! i) (hs ! i)"
  by (simp add: statuses_of_def)

lemma statuses_Cons: "statuses_of (t # ts) (h # hs) = status_of t h # statuses_of ts hs"
proof -
  have "[0..<length (t # ts)] = 0 # map Suc [0..<length ts]" by (simp add: map_Suc_upt upt_conv_Cons del: upt_Suc)
  then show ?thesis by (simp add: statuses_of_def)
qed

lemma statuses_Nil [simp]: "statuses_of [] hs = []"
  by (simp add: statuses_of_def)

lemma status_of_sel [simp]: "tsTarget (status_of t h) = t" "tsHealthy (status_of t h) = h"
  "(status_of t h)\<lparr>tsHealthy := v\<rparr> = status_of t v"
  by (simp_all add: status_of_def)

lemma offered_iff:
  "offered u (statuses_of ts hs) \<longleftrightarrow> (\<exists>i < length ts. hs ! i \<and> tURL (ts ! i) = u)"
  by (auto simp: offered_def list_ex_length)

lemma some_healthy_iff: "some_healthy (statuses_of ts hs) \<longleftrightarrow> (\<exists>i < length ts. hs ! i)"
  by (auto simp: some_healthy_def list_ex_length)

text \<open>The loop of \<open>SetHealthy\<close> on two parallel slices is \<open>set_health\<close> on the statuses.\<close>

lemma statuses_SetHealthy:
  assumes "length hs = length ts"
  shows "(case find_target s ts i of None \<Rightarrow> statuses_of ts hs
          | Some k \<Rightarrow> statuses_of ts (hs[k - i := v])) = set_health s v (statuses_of ts hs)"
  using assms
proof (induction ts arbitrary: hs i)
  case (Cons t ts)
  then obtain h hs' where hs: "hs = h # hs'" "length hs' = length ts" by (cases hs) auto
  show ?case
  proof (cases "URL_String (tURL t) = s")
    case True
    then show ?thesis by (simp add: hs statuses_Cons)
  next
    case False
    have "statuses_of (t # ts) ((h # hs')[k - i := v]) = status_of t h # statuses_of ts (hs'[k - Suc i := v])"
      if "find_target s ts (Suc i) = Some k" for k
    proof -
      have "k - i = Suc (k - Suc i)" using find_target_Some [OF that] by auto
      then show ?thesis by (simp add: statuses_Cons)
    qed
    then show ?thesis
      using False Cons.IH [OF hs(2), of "Suc i"] by (auto simp: hs statuses_Cons split: option.splits)
  qed
qed simp

end
