(* ===== verification/Round_Robin.thy ===== *)
theory Round_Robin
  imports Balancer "HOL-Library.Word"
begin

text \<open>
  The round-robin balancer, \<open>internal/balancer/roundrobin.go\<close>. \<open>counter\<close> is the
  \<open>atomic.Uint64\<close>: concurrent calls of \<open>Next\<close> take consecutive values of it and only
  read the rest, so each call is one step. The lengths of the slices fit a Go \<open>int\<close>.
\<close>

section \<open>State and operations\<close>

record RoundRobin =
  rrTargets :: "Target list"
  rrHealthy :: "bool list"
  rrCounter :: "64 word"

definition NewRoundRobin :: "Target list \<Rightarrow> RoundRobin" where
  "NewRoundRobin ts = \<lparr>rrTargets = ts, rrHealthy = replicate (length ts) True, rrCounter = 0\<rparr>"

text \<open>The loop of \<open>Next\<close> from index \<open>i\<close> on; \<open>idx\<close> and the position are \<open>uint64\<close>.\<close>

function rr_loop :: "RoundRobin \<Rightarrow> 64 word \<Rightarrow> nat \<Rightarrow> balancer_error + URL" where
  "rr_loop rr idx i =
     (let n = length (rrTargets rr)
      in if i < n then
           (let pos = unat ((idx + of_nat i) mod of_nat n)
            in if rrHealthy rr ! pos then Inr (tURL (rrTargets rr ! pos)) else rr_loop rr idx (i + 1))
         else Inl ErrNoHealthyTargets)"
  by auto
termination by (relation "measure (\<lambda>(rr, idx, i). length (rrTargets rr) - i)") auto

declare rr_loop.simps [simp del]

definition rr_Next :: "RoundRobin \<Rightarrow> (balancer_error + URL) \<times> RoundRobin" where
  "rr_Next rr =
     (if length (rrTargets rr) = 0 then (Inl ErrNoHealthyTargets, rr)
      else let c = rrCounter rr + 1; idx = c - 1
           in (rr_loop rr idx 0, rr\<lparr>rrCounter := c\<rparr>))"

definition rr_Targets :: "RoundRobin \<Rightarrow> TargetStatus list" where
  "rr_Targets rr = statuses_of (rrTargets rr) (rrHealthy rr)"

definition rr_SetHealthy :: "string \<Rightarrow> bool \<Rightarrow> RoundRobin \<Rightarrow> RoundRobin" where
  "rr_SetHealthy s v rr =
     (case find_target s (rrTargets rr) 0 of
        None \<Rightarrow> rr | Some i \<Rightarrow> rr\<lparr>rrHealthy := (rrHealthy rr)[i := v]\<rparr>)"

definition rr_wf :: "RoundRobin \<Rightarrow> bool" where
  "rr_wf rr \<longleftrightarrow> length (rrHealthy rr) = length (rrTargets rr) \<and> int (length (rrTargets rr)) \<le> max_int64"

text \<open>The scan of the next call does not run over the end of the counter.\<close>

definition rr_ready :: "RoundRobin \<Rightarrow> bool" where
  "rr_ready rr \<longleftrightarrow> unat (rrCounter rr) + length (rrTargets rr) \<le> 2 ^ 64"

text \<open>The calls left before the scan runs over the end of the counter.\<close>

definition rr_left :: "RoundRobin \<Rightarrow> nat" where
  "rr_left rr = 2 ^ 64 + 1 - (unat (rrCounter rr) + length (rrTargets rr))"

section \<open>The scan\<close>

text \<open>The position the loop looks at in turn \<open>i\<close>.\<close>

definition rr_pos :: "RoundRobin \<Rightarrow> nat \<Rightarrow> nat" where
  "rr_pos rr i = unat ((rrCounter rr + of_nat i) mod of_nat (length (rrTargets rr)))"

lemma rr_len_unat:
  assumes "rr_wf rr"
  shows "unat (of_nat (length (rrTargets rr)) :: 64 word) = length (rrTargets rr)"
  using assms by (simp add: unat_of_nat take_bit_nat_eq_self rr_wf_def max_int64_def)

lemma rr_pos_less:
  assumes "rr_wf rr" and "rrTargets rr \<noteq> []"
  shows "rr_pos rr i < length (rrTargets rr)"
  using assms rr_len_unat [OF assms(1)] by (simp add: rr_pos_def unat_mod)

lemma rr_pos_exact:
  assumes "rr_wf rr" and "rr_ready rr" and "i < length (rrTargets rr)"
  shows "rr_pos rr i = (unat (rrCounter rr) + i) mod length (rrTargets rr)"
proof -
  have b: "unat (rrCounter rr) + i < 2 ^ 64" using assms(2,3) by (simp add: rr_ready_def)
  then have "unat (of_nat i :: 64 word) = i" by (simp add: unat_of_nat take_bit_nat_eq_self)
  then have "unat (rrCounter rr + of_nat i) = unat (rrCounter rr) + i"
    using b by (subst unat_add_lem [THEN iffD1]) simp_all
  then show ?thesis using rr_len_unat [OF assms(1)] by (simp add: rr_pos_def unat_mod)
qed

text \<open>The loop returns the first healthy position among those it looks at.\<close>

lemma rr_loop_find:
  "rr_loop rr (rrCounter rr) i =
     (case find (\<lambda>p. rrHealthy rr ! p) (map (rr_pos rr) [i..<length (rrTargets rr)]) of
        None \<Rightarrow> Inl ErrNoHealthyTargets | Some p \<Rightarrow> Inr (tURL (rrTargets rr ! p)))"
proof (induction rr "rrCounter rr" i rule: rr_loop.induct)
  case (1 rr i)
  show ?case
    using 1 by (subst rr_loop.simps) (auto simp: Let_def upt_conv_Cons rr_pos_def)
qed

lemma rr_Next_result:
  "fst (rr_Next rr) =
     (case find (\<lambda>p. rrHealthy rr ! p) (map (rr_pos rr) [0..<length (rrTargets rr)]) of
        None \<Rightarrow> Inl ErrNoHealthyTargets | Some p \<Rightarrow> Inr (tURL (rrTargets rr ! p)))"
  by (simp add: rr_Next_def Let_def rr_loop_find)

lemma rr_Next_state:
  "rrTargets (snd (rr_Next rr)) = rrTargets rr" "rrHealthy (snd (rr_Next rr)) = rrHealthy rr"
  by (simp_all add: rr_Next_def Let_def)

text \<open>Within the counter's range the scan visits every position.\<close>

lemma rr_scan_covers:
  assumes "rr_wf rr" and "rr_ready rr" and "p < length (rrTargets rr)"
  shows "\<exists>i < length (rrTargets rr). rr_pos rr i = p"
proof -
  let ?n = "length (rrTargets rr)" and ?c = "unat (rrCounter rr)"
  let ?i = "(p + ?n - ?c mod ?n) mod ?n"
  have n: "0 < ?n" using assms(3) by linarith
  have "(?c + ?i) mod ?n = (?c mod ?n + (p + ?n - ?c mod ?n)) mod ?n"
    by (simp only: mod_add_left_eq mod_add_right_eq)
  also have "\<dots> = (p + ?n) mod ?n" using mod_less_divisor [OF n, of ?c] by simp
  also have "\<dots> = p" using assms(3) by simp
  finally show ?thesis using rr_pos_exact [OF assms(1,2)] n by (metis mod_less_divisor)
qed

lemma rr_Next_sound:
  assumes "rr_wf rr" and "fst (rr_Next rr) = Inr u"
  shows "offered u (rr_Targets rr)"
proof -
  obtain i where "i < length (rrTargets rr)" "rrHealthy rr ! rr_pos rr i"
    "u = tURL (rrTargets rr ! rr_pos rr i)"
    using assms(2) unfolding rr_Next_result by (auto simp: find_Some_iff split: option.splits)
  moreover from this(1) have "rr_pos rr i < length (rrTargets rr)"
    by (intro rr_pos_less [OF assms(1)]) auto
  ultimately show ?thesis by (auto simp: rr_Targets_def offered_iff)
qed

lemma rr_Next_complete:
  assumes "rr_wf rr" and "rr_ready rr" and "some_healthy (rr_Targets rr)"
  shows "\<exists>u. fst (rr_Next rr) = Inr u"
proof -
  obtain p where p: "p < length (rrTargets rr)" "rrHealthy rr ! p"
    using assms(3) by (auto simp: rr_Targets_def some_healthy_iff)
  then obtain i where "i < length (rrTargets rr)" "rr_pos rr i = p"
    using rr_scan_covers [OF assms(1,2)] by blast
  then have "find (\<lambda>p. rrHealthy rr ! p) (map (rr_pos rr) [0..<length (rrTargets rr)]) \<noteq> None"
    using p(2) by (auto simp: find_None_iff)
  then show ?thesis unfolding rr_Next_result by (auto split: option.splits)
qed

lemma rr_SetHealthy_Targets:
  assumes "rr_wf rr"
  shows "rr_Targets (rr_SetHealthy s v rr) = set_health s v (rr_Targets rr)"
  using statuses_SetHealthy [where hs = "rrHealthy rr" and ts = "rrTargets rr" and i = 0 and s = s and v = v] assms
  by (auto simp: rr_Targets_def rr_SetHealthy_def rr_wf_def split: option.splits)

lemma rr_wf_steps:
  "rr_wf rr \<Longrightarrow> rr_wf (snd (rr_Next rr))" "rr_wf rr \<Longrightarrow> rr_wf (rr_SetHealthy s v rr)"
  by (auto simp: rr_wf_def rr_Next_state rr_SetHealthy_def split: option.splits)

lemma rr_left_Next: "rr_left rr \<le> Suc (rr_left (snd (rr_Next rr)))"
proof -
  have "unat (rrCounter rr + 1) \<le> unat (rrCounter rr) + 1"
    by (metis add.commute unat_1 unat_word_ariths(1) mod_less_eq_dividend)
  then have "unat (rrCounter (snd (rr_Next rr))) \<le> unat (rrCounter rr) + 1"
    by (simp add: rr_Next_def Let_def)
  then show ?thesis by (simp add: rr_left_def rr_Next_state)
qed

interpretation rr: balancer rr_Next rr_Targets rr_SetHealthy rr_wf rr_left
proof unfold_locales
  show "rr_Targets (snd (rr_Next b)) = rr_Targets b" for b
    by (simp add: rr_Targets_def rr_Next_state)
  show "\<exists>u. fst (rr_Next b) = Inr u" if "rr_wf b" "0 < rr_left b" "some_healthy (rr_Targets b)" for b
    using rr_Next_complete that by (simp add: rr_left_def rr_ready_def)
  show "rr_left (rr_SetHealthy s v b) = rr_left b" for s v b
    by (simp add: rr_left_def rr_SetHealthy_def split: option.splits)
qed (simp_all add: rr_wf_steps rr_SetHealthy_Targets rr_Next_sound rr_left_Next)

section \<open>Rotation\<close>

text \<open>The specification: from a starting number the first healthy target in cyclic order.\<close>

definition rr_pick :: "RoundRobin \<Rightarrow> nat \<Rightarrow> balancer_error + URL" where
  "rr_pick rr c =
     (case find (\<lambda>p. rrHealthy rr ! p)
             (map (\<lambda>i. (c + i) mod length (rrTargets rr)) [0..<length (rrTargets rr)]) of
        None \<Rightarrow> Inl ErrNoHealthyTargets | Some p \<Rightarrow> Inr (tURL (rrTargets rr ! p)))"

abbreviation rr_calls :: "nat \<Rightarrow> RoundRobin \<Rightarrow> (balancer_error + URL) list \<times> RoundRobin" where
  "rr_calls k \<equiv> serve rr_Next rr_SetHealthy (replicate k Request)"

lemma rr_Next_pick:
  assumes "rr_wf rr" and "rr_ready rr"
  shows "fst (rr_Next rr) = rr_pick rr (unat (rrCounter rr))"
proof -
  have "map (rr_pos rr) [0..<length (rrTargets rr)] =
      map (\<lambda>i. (unat (rrCounter rr) + i) mod length (rrTargets rr)) [0..<length (rrTargets rr)]"
    using rr_pos_exact [OF assms] by (intro map_cong) auto
  then show ?thesis by (simp only: rr_Next_result rr_pick_def)
qed

lemma rr_calls_pick:
  assumes "rr_wf rr" and "rrTargets rr \<noteq> []"
    and "unat (rrCounter rr) + k + length (rrTargets rr) \<le> 2 ^ 64"
  shows "fst (rr_calls k rr) = map (\<lambda>j. rr_pick rr (unat (rrCounter rr) + j)) [0..<k]"
  using assms
proof (induction k arbitrary: rr)
  case (Suc k)
  obtain r rr' where N: "rr_Next rr = (r, rr')" by (cases "rr_Next rr")
  have rr': "rr' = rr\<lparr>rrCounter := rrCounter rr + 1\<rparr>"
    using N Suc.prems(2) by (auto simp: rr_Next_def Let_def)
  have c: "unat (rrCounter rr + 1) = unat (rrCounter rr) + 1"
  proof -
    have "0 < length (rrTargets rr)" using Suc.prems(2) by simp
    then have "unat (rrCounter rr) + unat (1 :: 64 word) < 2 ^ 64"
      using Suc.prems(3) by (simp del: length_greater_0_conv)
    then show ?thesis by (subst unat_add_lem [THEN iffD1]) simp_all
  qed
  have r: "r = rr_pick rr (unat (rrCounter rr))"
    using rr_Next_pick [OF Suc.prems(1)] Suc.prems(3) N by (simp add: rr_ready_def)
  have "rr_pick rr' = rr_pick rr" by (rule ext) (simp add: rr_pick_def rr' split: option.splits)
  moreover have "fst (rr_calls k rr') = map (\<lambda>j. rr_pick rr' (unat (rrCounter rr') + j)) [0..<k]"
    using Suc.prems c by (intro Suc.IH) (auto simp: rr' rr_wf_def)
  ultimately have "fst (rr_calls k rr') = map (\<lambda>j. rr_pick rr (unat (rrCounter rr) + Suc j)) [0..<k]"
    using c by (simp add: rr')
  then show ?case
    using N r by (auto simp: map_upt_Suc simp del: upt_Suc split: prod.splits)
qed simp

lemma rr_pick_all_healthy:
  assumes "list_all id (rrHealthy rr)" and "length (rrHealthy rr) = length (rrTargets rr)"
    and "rrTargets rr \<noteq> []"
  shows "rr_pick rr c = Inr (tURL (rrTargets rr ! (c mod length (rrTargets rr))))"
proof -
  let ?n = "length (rrTargets rr)"
  have "rrHealthy rr ! (c mod ?n)" using assms by (simp add: list_all_length)
  moreover have "[0..<?n] = 0 # [1..<?n]" using assms(3) by (simp add: upt_conv_Cons)
  ultimately show ?thesis by (simp add: rr_pick_def)
qed

lemma mset_full_turns:
  assumes "0 < n"
  shows "mset (map (\<lambda>j. f ((c + j) mod n)) [0..<m * n]) = repeat_mset m (mset (map f [0..<n]))"
proof (induction m)
  case (Suc m)
  have "(c + (m * n + i)) mod n = (c + i) mod n" for i
    using mod_mult_self1 [of "c + i" m n] by (simp add: ac_simps)
  then have turn: "map (\<lambda>i. (c + (m * n + i)) mod n) [0..<n] = rotate c [0..<n]"
    using assms by (intro nth_equalityI) (auto simp: nth_rotate)
  have "[0..<Suc m * n] = [0..<m * n] @ map (\<lambda>i. m * n + i) [0..<n]"
    using upt_add_eq_append [of 0 "m * n" n] map_add_upt [of "m * n" n] by (simp add: add.commute)
  moreover have "mset (map (\<lambda>i. f ((c + (m * n + i)) mod n)) [0..<n]) = mset (map f [0..<n])"
  proof -
    have "mset (rotate c xs) = mset xs" for xs :: "nat list"
      by (metis append_take_drop_id mset_append rotate_drop_take union_commute)
    then have "mset (map f (rotate c [0..<n])) = mset (map f [0..<n])" by (simp only: mset_map)
    then show ?thesis using turn [symmetric] by (simp add: comp_def)
  qed
  ultimately show ?case using Suc by (simp add: comp_def)
qed simp

section \<open>Properties\<close>

text \<open>
  Rotation: as long as the counter does not run over, the \<open>k\<close> calls that follow start
  their search one position further each and return the first healthy target from there in
  cyclic order, or the error when no target is healthy.
\<close>

theorem round_robin_rotation:
  assumes "length (rrHealthy rr) = length (rrTargets rr)" and "rrTargets rr \<noteq> []"
    and "int (length (rrTargets rr)) \<le> max_int64"
    and "unat (rrCounter rr) + k + length (rrTargets rr) \<le> 2 ^ 64"
  shows "fst (serve rr_Next rr_SetHealthy (replicate k Request) rr)
       = map (\<lambda>j. rr_pick rr (unat (rrCounter rr) + j)) [0..<k]"
  using assms by (intro rr_calls_pick) (auto simp: rr_wf_def)

text \<open>
  C33. Fairness: with all targets healthy, any \<open>m\<close> full turns of calls return every target
  exactly \<open>m\<close> times, wherever in the rotation they start.
\<close>

theorem round_robin_fair:
  assumes "rrHealthy rr = replicate (length (rrTargets rr)) True" and "rrTargets rr \<noteq> []"
    and "int (length (rrTargets rr)) \<le> max_int64"
    and "unat (rrCounter rr) + (m + 1) * length (rrTargets rr) \<le> 2 ^ 64"
  shows "mset (fst (serve rr_Next rr_SetHealthy (replicate (m * length (rrTargets rr)) Request) rr))
       = repeat_mset m (mset (map (\<lambda>t. Inr (tURL t)) (rrTargets rr)))"
proof -
  let ?n = "length (rrTargets rr)"
  have "list_all id (rrHealthy rr)" using assms(1) by (simp add: list_all_length)
  note pick = rr_pick_all_healthy [OF this _ assms(2)]
  have "fst (rr_calls (m * ?n) rr) = map (\<lambda>j. rr_pick rr (unat (rrCounter rr) + j)) [0..<m * ?n]"
    using assms by (intro rr_calls_pick) (auto simp: rr_wf_def)
  also have "\<dots> = map (\<lambda>j. Inr (tURL (rrTargets rr ! ((unat (rrCounter rr) + j) mod ?n)))) [0..<m * ?n]"
    using pick assms(1) by simp
  finally have "mset (fst (rr_calls (m * ?n) rr))
      = repeat_mset m (mset (map (\<lambda>p. Inr (tURL (rrTargets rr ! p))) [0..<?n]))"
    using mset_full_turns [of ?n "\<lambda>p. Inr (tURL (rrTargets rr ! p))" "unat (rrCounter rr)" m] assms(2)
    by simp
  moreover have "map (\<lambda>p. Inr (tURL (rrTargets rr ! p)) :: balancer_error + URL) [0..<?n] = map (\<lambda>t. Inr (tURL t)) (rrTargets rr)"
    by (intro nth_equalityI) auto
  ultimately show ?thesis by (simp only:)
qed

definition sample_url :: "string \<Rightarrow> URL" where
  "sample_url s = \<lparr>Scheme = ''http'', Host = s, URL_String = ''http://'' @ s\<rparr>"

definition sample_targets :: "Target list" where
  "sample_targets = map (\<lambda>s. \<lparr>tURL = sample_url s, tWeight = 1\<rparr>) [''a'', ''b'', ''c'']"

theorem round_robin_rotation_witness:
  "fst (serve rr_Next rr_SetHealthy (replicate 4 Request)
       (rr_SetHealthy ''http://b'' False (NewRoundRobin sample_targets)))
     = map (\<lambda>s. Inr (sample_url s)) [''a'', ''c'', ''c'', ''a'']"
proof -
  let ?rr = "rr_SetHealthy ''http://b'' False (NewRoundRobin sample_targets)"
  have eq: "?rr = \<lparr>rrTargets = sample_targets, rrHealthy = [True, False, True], rrCounter = 0\<rparr>"
    by (simp add: rr_SetHealthy_def NewRoundRobin_def sample_targets_def sample_url_def)
  have len: "length sample_targets = 3" by (simp add: sample_targets_def)
  have "fst (serve rr_Next rr_SetHealthy (replicate 4 Request) ?rr)
      = map (\<lambda>j. rr_pick ?rr (unat (rrCounter ?rr) + j)) [0..<4]"
    unfolding eq by (rule round_robin_rotation) (use len in \<open>auto simp: max_int64_def\<close>)
  also have "\<dots> = map (\<lambda>s. Inr (sample_url s)) [''a'', ''c'', ''c'', ''a'']"
    unfolding eq by (simp add: rr_pick_def sample_targets_def upt_rec)
  finally show ?thesis .
qed

theorem round_robin_fair_witness:
  "mset (fst (serve rr_Next rr_SetHealthy (replicate 6 Request) (NewRoundRobin sample_targets)))
     = repeat_mset 2 (mset (map (\<lambda>s. Inr (sample_url s)) [''a'', ''b'', ''c'']))"
proof -
  have n: "rrTargets (NewRoundRobin sample_targets) = sample_targets" "length sample_targets = 3"
    "sample_targets \<noteq> []"
    by (simp_all add: NewRoundRobin_def sample_targets_def)
  have "mset (fst (serve rr_Next rr_SetHealthy
        (replicate (2 * length (rrTargets (NewRoundRobin sample_targets))) Request) (NewRoundRobin sample_targets)))
      = repeat_mset 2 (mset (map (\<lambda>t. Inr (tURL t)) (rrTargets (NewRoundRobin sample_targets))))"
    by (rule round_robin_fair) (use n in \<open>simp_all add: max_int64_def, simp_all add: NewRoundRobin_def\<close>)
  then show ?thesis by (simp add: n) (simp add: sample_targets_def)
qed

text \<open>
  At the end of the counter's range the rotation loses targets: with three targets and the
  counter at its largest value the scan looks at position 0 twice and never at position 2, so a
  balancer whose only healthy target is the third reports that none is healthy.
\<close>

theorem counter_overflow_skips_target:
  "some_healthy (rr_Targets \<lparr>rrTargets = sample_targets, rrHealthy = [False, False, True], rrCounter = - 1\<rparr>)
   \<and> fst (rr_Next \<lparr>rrTargets = sample_targets, rrHealthy = [False, False, True], rrCounter = - 1\<rparr>)
       = Inl ErrNoHealthyTargets"
  by (simp add: rr_Next_result some_healthy_def rr_Targets_def statuses_of_def sample_targets_def
      rr_pos_def upt_rec)

end
