(* ===== verification/Weighted.thy ===== *)
theory Weighted
  imports Balancer
begin

text \<open>
  The smooth weighted round-robin balancer, \<open>internal/balancer/weighted.go\<close>. The loop of
  \<open>Next\<close> is modelled with Go's wrapping \<open>int\<close> arithmetic. Its choice is then shown to be
  the abstract smooth scheduler of the locale \<open>smooth_scheduler\<close> as long as the number of
  targets times the sum of the weights fits an \<open>int\<close>; the shares are proved there.
\<close>

section \<open>State and operations\<close>

record WeightedRoundRobin =
  wTargets :: "Target list"
  wHealthy :: "bool list"
  wCurrent :: "int list"

definition NewWeightedRoundRobin :: "Target list \<Rightarrow> WeightedRoundRobin" where
  "NewWeightedRoundRobin ts =
     \<lparr>wTargets = ts, wHealthy = replicate (length ts) True, wCurrent = replicate (length ts) 0\<rparr>"

text \<open>
  The loop of \<open>Next\<close> from index \<open>i\<close> on, with its variables \<open>currentWeights\<close>,
  \<open>totalWeight\<close>, \<open>bestIdx\<close> and \<open>bestWeight\<close>.
\<close>

function wrr_loop :: "WeightedRoundRobin \<Rightarrow> nat \<Rightarrow> int list \<Rightarrow> int \<Rightarrow> int \<Rightarrow> int
    \<Rightarrow> int list \<times> int \<times> int \<times> int" where
  "wrr_loop w i cw total_w best bestW =
     (if i < length (wTargets w) then
        if \<not> wHealthy w ! i then wrr_loop w (i + 1) cw total_w best bestW
        else
          (let effective = tWeight (wTargets w ! i);
               cw' = cw[i := wrap64 (cw ! i + effective)];
               total_w' = wrap64 (total_w + effective)
           in if best = -1 \<or> cw' ! i > bestW
              then wrr_loop w (i + 1) cw' total_w' (int i) (cw' ! i)
              else wrr_loop w (i + 1) cw' total_w' best bestW)
      else (cw, total_w, best, bestW))"
  by pat_completeness auto
termination
  by (relation "measure (\<lambda>(w, i, _). length (wTargets w) - i)") auto

declare wrr_loop.simps [simp del]

definition wrr_Next :: "WeightedRoundRobin \<Rightarrow> (balancer_error + URL) \<times> WeightedRoundRobin" where
  "wrr_Next w =
     (if length (wTargets w) = 0 then (Inl ErrNoHealthyTargets, w)
      else case wrr_loop w 0 (wCurrent w) 0 (-1) 0 of
          (cw, total_w, best, bestW) \<Rightarrow>
            if best = -1 then (Inl ErrNoHealthyTargets, w\<lparr>wCurrent := cw\<rparr>)
            else (Inr (tURL (wTargets w ! nat best)),
                  w\<lparr>wCurrent := cw[nat best := wrap64 (cw ! nat best - total_w)]\<rparr>))"

definition wrr_Targets :: "WeightedRoundRobin \<Rightarrow> TargetStatus list" where
  "wrr_Targets w = statuses_of (wTargets w) (wHealthy w)"

definition wrr_SetHealthy :: "string \<Rightarrow> bool \<Rightarrow> WeightedRoundRobin \<Rightarrow> WeightedRoundRobin" where
  "wrr_SetHealthy s v w =
     (case find_target s (wTargets w) 0 of
        None \<Rightarrow> w
      | Some i \<Rightarrow>
          (let w = w\<lparr>wHealthy := (wHealthy w)[i := v]\<rparr>
           in if \<not> v then w\<lparr>wCurrent := (wCurrent w)[i := 0]\<rparr> else w))"

definition wrr_wf :: "WeightedRoundRobin \<Rightarrow> bool" where
  "wrr_wf w \<longleftrightarrow> length (wHealthy w) = length (wTargets w) \<and> length (wCurrent w) = length (wTargets w)"

definition wrr_live :: "WeightedRoundRobin \<Rightarrow> nat set" where
  "wrr_live w = {i. i < length (wTargets w) \<and> wHealthy w ! i}"

definition wrr_weight :: "WeightedRoundRobin \<Rightarrow> nat \<Rightarrow> int" where
  "wrr_weight w i = tWeight (wTargets w ! i)"

definition wrr_cw :: "WeightedRoundRobin \<Rightarrow> nat \<Rightarrow> int" where
  "wrr_cw w i = wCurrent w ! i"

section \<open>The loop\<close>

text \<open>
  What the best candidate is before turn \<open>i\<close>: none among the targets seen so far when none
  of them is healthy, otherwise one with the largest current weight.
\<close>

definition best_so_far :: "WeightedRoundRobin \<Rightarrow> nat \<Rightarrow> int list \<Rightarrow> int \<Rightarrow> int \<Rightarrow> bool" where
  "best_so_far w i cw best bestW \<longleftrightarrow>
     (best = -1 \<and> (\<forall>j < i. \<not> wHealthy w ! j)
      \<or> (\<exists>k < i. best = int k \<and> wHealthy w ! k \<and> bestW = cw ! k
           \<and> (\<forall>j < i. wHealthy w ! j \<longrightarrow> cw ! j \<le> cw ! k)))"

lemma best_so_far_skip:
  assumes "best_so_far w i cw best bestW" and "\<not> wHealthy w ! i"
  shows "best_so_far w (Suc i) cw best bestW"
  using assms unfolding best_so_far_def by (metis less_Suc_eq)

lemma best_so_far_take:
  assumes "best_so_far w i cw best bestW" and "wHealthy w ! i" and "i < length cw"
  shows "best_so_far w (Suc i) (cw[i := x])
           (if best = -1 \<or> x > bestW then int i else best) (if best = -1 \<or> x > bestW then x else bestW)"
proof (cases "best = -1")
  case True
  then have "\<forall>j < i. \<not> wHealthy w ! j" using assms(1) by (auto simp: best_so_far_def)
  then show ?thesis using True assms(2,3) by (auto simp: best_so_far_def less_Suc_eq)
next
  case False
  then obtain k where k: "k < i" "best = int k" "wHealthy w ! k" "bestW = cw ! k"
    "\<forall>j < i. wHealthy w ! j \<longrightarrow> cw ! j \<le> cw ! k"
    using assms(1) by (auto simp: best_so_far_def)
  show ?thesis
  proof (cases "x > bestW")
    case True
    then show ?thesis using k assms(2,3) by (auto simp: best_so_far_def less_Suc_eq intro!: disjI2)
  next
    case False
    with k \<open>best \<noteq> -1\<close> show ?thesis
      using assms(3) unfolding best_so_far_def
      by (intro disjI2 exI [of _ k]) (auto simp: less_Suc_eq)
  qed
qed

text \<open>The weights after the loop, and the total.\<close>

definition raised :: "WeightedRoundRobin \<Rightarrow> nat \<Rightarrow> int list \<Rightarrow> nat \<Rightarrow> int" where
  "raised w i cw j = (if i \<le> j \<and> wHealthy w ! j then wrap64 (cw ! j + wrr_weight w j) else cw ! j)"

definition live_from :: "WeightedRoundRobin \<Rightarrow> nat \<Rightarrow> nat set" where
  "live_from w i = {j. i \<le> j \<and> j \<in> wrr_live w}"

lemma live_from_step:
  "i < length (wTargets w) \<Longrightarrow> live_from w i = (if wHealthy w ! i then insert i (live_from w (Suc i))
     else live_from w (Suc i))"
  by (auto simp: live_from_def wrr_live_def Suc_le_eq le_less)

lemma live_finite [simp]: "finite (wrr_live w)" "finite (live_from w i)"
  by (simp_all add: wrr_live_def live_from_def)

lemma wrr_loop_spec:
  assumes "best_so_far w i cw best bestW" and "length cw = length (wTargets w)"
    and "i \<le> length (wTargets w)" and "in_int64 total_w"
  shows "\<exists>best' bestW'. wrr_loop w i cw total_w best bestW =
           (map (raised w i cw) [0..<length (wTargets w)],
            wrap64 (total_w + sum (wrr_weight w) (live_from w i)), best', bestW')
         \<and> best_so_far w (length (wTargets w)) (map (raised w i cw) [0..<length (wTargets w)]) best' bestW'"
  using assms
proof (induction "length (wTargets w) - i" arbitrary: i cw total_w best bestW)
  case 0
  then have "map (raised w i cw) [0..<length (wTargets w)] = cw" "live_from w i = {}"
    by (auto simp: raised_def live_from_def wrr_live_def intro: nth_equalityI)
  then show ?case using 0 by (simp add: wrr_loop.simps wrap64_id)
next
  case (Suc d)
  then have i: "i < length (wTargets w)" by simp
  show ?case
  proof (cases "wHealthy w ! i")
    case False
    have "raised w i cw = raised w (Suc i) cw"
      using False by (auto simp: raised_def fun_eq_iff) (metis le_antisym not_less_eq_eq)+
    then show ?thesis
      using Suc.hyps(1) [of "Suc i" cw best bestW total_w] Suc.hyps(2) Suc.prems i False
        best_so_far_skip [OF Suc.prems(1) False]
      by (subst wrr_loop.simps) (simp add: live_from_step)
  next
    case True
    define x where "x = wrap64 (cw ! i + wrr_weight w i)"
    define cw' where "cw' = cw[i := x]"
    define b where "b = (if best = -1 \<or> x > bestW then int i else best)"
    define bw where "bw = (if best = -1 \<or> x > bestW then x else bestW)"
    have loop: "wrr_loop w i cw total_w best bestW = wrr_loop w (Suc i) cw' (wrap64 (total_w + wrr_weight w i)) b bw"
      using i True Suc.prems(2)
      by (subst wrr_loop.simps) (simp add: Let_def x_def cw'_def b_def bw_def wrr_weight_def)
    have r: "map (raised w i cw) [0..<length (wTargets w)] = map (raised w (Suc i) cw') [0..<length (wTargets w)]"
      using True Suc.prems(2) i
      by (intro map_cong) (auto simp: raised_def cw'_def x_def nth_list_update Suc_le_eq)
    have s: "sum (wrr_weight w) (live_from w i) = wrr_weight w i + sum (wrr_weight w) (live_from w (Suc i))"
      using i True by (simp add: live_from_step) (simp add: live_from_def)
    have "best_so_far w (Suc i) cw' b bw"
      unfolding cw'_def b_def bw_def using best_so_far_take [OF Suc.prems(1) True] i Suc.prems(2) by simp
    then show ?thesis
      using Suc.hyps(1) [of "Suc i" cw' b bw "wrap64 (total_w + wrr_weight w i)"] Suc.hyps(2) Suc.prems(2) i
      unfolding loop r s by (simp add: cw'_def wrap64_add_left wrap64_in_range add.assoc)
  qed
qed

lemma wrr_Next_loop:
  assumes "wrr_wf w" and "wTargets w \<noteq> []"
  obtains best bestW where
    "wrr_loop w 0 (wCurrent w) 0 (-1) 0 =
       (map (raised w 0 (wCurrent w)) [0..<length (wTargets w)],
        wrap64 (sum (wrr_weight w) (wrr_live w)), best, bestW)"
    "best_so_far w (length (wTargets w)) (map (raised w 0 (wCurrent w)) [0..<length (wTargets w)]) best bestW"
proof -
  have "live_from w 0 = wrr_live w" by (simp add: live_from_def)
  moreover have "best_so_far w 0 (wCurrent w) (-1) 0" by (simp add: best_so_far_def)
  ultimately show ?thesis
    using that wrr_loop_spec [of w 0 "wCurrent w" "-1" 0 0] assms by (auto simp: wrr_wf_def)
qed

text \<open>The index \<open>Next\<close> chooses.\<close>

definition wrr_best :: "WeightedRoundRobin \<Rightarrow> nat" where
  "wrr_best w = nat (fst (snd (snd (wrr_loop w 0 (wCurrent w) 0 (-1) 0))))"

lemma wrr_Next_none:
  assumes "wrr_wf w" and "wrr_live w = {}"
  shows "wrr_Next w = (Inl ErrNoHealthyTargets, w)"
proof (cases "wTargets w = []")
  case False
  obtain best bestW where L: "wrr_loop w 0 (wCurrent w) 0 (-1) 0 =
       (map (raised w 0 (wCurrent w)) [0..<length (wTargets w)],
        wrap64 (sum (wrr_weight w) (wrr_live w)), best, bestW)"
    and b: "best_so_far w (length (wTargets w)) (map (raised w 0 (wCurrent w)) [0..<length (wTargets w)]) best bestW"
    using wrr_Next_loop [OF assms(1) False] by blast
  have "best = -1" using b assms(2) by (auto simp: best_so_far_def wrr_live_def)
  moreover have "map (raised w 0 (wCurrent w)) [0..<length (wTargets w)] = wCurrent w"
    using assms by (intro nth_equalityI) (auto simp: raised_def wrr_wf_def wrr_live_def)
  ultimately show ?thesis using L False by (simp add: wrr_Next_def)
qed (simp add: wrr_Next_def)

lemma wrr_Next_some:
  assumes "wrr_wf w" and "wrr_live w \<noteq> {}"
  shows "wrr_best w \<in> wrr_live w"
    and "\<forall>j \<in> wrr_live w. raised w 0 (wCurrent w) j \<le> raised w 0 (wCurrent w) (wrr_best w)"
    and "fst (wrr_Next w) = Inr (tURL (wTargets w ! wrr_best w))"
    and "snd (wrr_Next w) = w\<lparr>wCurrent := (map (raised w 0 (wCurrent w)) [0..<length (wTargets w)])
           [wrr_best w := wrap64 (raised w 0 (wCurrent w) (wrr_best w)
              - wrap64 (sum (wrr_weight w) (wrr_live w)))]\<rparr>"
proof -
  have ne: "wTargets w \<noteq> []" using assms(2) by (auto simp: wrr_live_def)
  obtain best bestW where L: "wrr_loop w 0 (wCurrent w) 0 (-1) 0 =
       (map (raised w 0 (wCurrent w)) [0..<length (wTargets w)],
        wrap64 (sum (wrr_weight w) (wrr_live w)), best, bestW)"
    and b: "best_so_far w (length (wTargets w)) (map (raised w 0 (wCurrent w)) [0..<length (wTargets w)]) best bestW"
    using wrr_Next_loop [OF assms(1) ne] by blast
  obtain k where k: "k < length (wTargets w)" "best = int k" "wHealthy w ! k"
    "\<forall>j < length (wTargets w). wHealthy w ! j \<longrightarrow> raised w 0 (wCurrent w) j \<le> raised w 0 (wCurrent w) k"
    using b assms(2) by (fastforce simp: best_so_far_def wrr_live_def)
  have [simp]: "wrr_best w = k" using L k(2) by (simp add: wrr_best_def)
  show "wrr_best w \<in> wrr_live w" using k by (simp add: wrr_live_def)
  show "\<forall>j \<in> wrr_live w. raised w 0 (wCurrent w) j \<le> raised w 0 (wCurrent w) (wrr_best w)"
    using k by (simp add: wrr_live_def)
  show "fst (wrr_Next w) = Inr (tURL (wTargets w ! wrr_best w))"
    using L k(1,2) by (auto simp: wrr_Next_def)
  show "snd (wrr_Next w) = w\<lparr>wCurrent := (map (raised w 0 (wCurrent w)) [0..<length (wTargets w)])
           [wrr_best w := wrap64 (raised w 0 (wCurrent w) (wrr_best w)
              - wrap64 (sum (wrr_weight w) (wrr_live w)))]\<rparr>"
    using L k(1,2) ne by (simp add: wrr_Next_def)
qed

lemma wrr_Next_frame:
  assumes "wrr_wf w"
  shows "wTargets (snd (wrr_Next w)) = wTargets w" "wHealthy (snd (wrr_Next w)) = wHealthy w"
    "wrr_wf (snd (wrr_Next w))"
  using assms wrr_Next_none [OF assms] wrr_Next_some(4) [OF assms]
  by (cases "wrr_live w = {}"; simp add: wrr_wf_def)+

lemma wrr_SetHealthy_frame:
  "wTargets (wrr_SetHealthy s v w) = wTargets w" "wrr_wf w \<Longrightarrow> wrr_wf (wrr_SetHealthy s v w)"
  by (auto simp: wrr_SetHealthy_def wrr_wf_def Let_def split: option.splits)

lemma wrr_SetHealthy_Targets:
  assumes "wrr_wf w"
  shows "wrr_Targets (wrr_SetHealthy s v w) = set_health s v (wrr_Targets w)"
  using statuses_SetHealthy [where hs = "wHealthy w" and ts = "wTargets w" and i = 0 and s = s and v = v] assms
  by (auto simp: wrr_Targets_def wrr_SetHealthy_def wrr_wf_def Let_def split: option.splits)

text \<open>The weighted balancer keeps the contract of the interface in every state, overflow or not.\<close>

interpretation wrr: balancer wrr_Next wrr_Targets wrr_SetHealthy wrr_wf "\<lambda>_. n"
proof unfold_locales
  fix w s v u
  assume wf: "wrr_wf w"
  show "wrr_wf (snd (wrr_Next w))" using wrr_Next_frame [OF wf] by simp
  show "wrr_wf (wrr_SetHealthy s v w)" using wrr_SetHealthy_frame(2) [OF wf] .
  show "wrr_Targets (snd (wrr_Next w)) = wrr_Targets w"
    using wrr_Next_frame [OF wf] by (simp add: wrr_Targets_def)
  show "wrr_Targets (wrr_SetHealthy s v w) = set_health s v (wrr_Targets w)"
    using wrr_SetHealthy_Targets [OF wf] .
  show "offered u (wrr_Targets w)" if "fst (wrr_Next w) = Inr u"
  proof -
    have "wrr_live w \<noteq> {}" using wrr_Next_none [OF wf] that by auto
    then show ?thesis
      using wrr_Next_some(1,3) [OF wf] that by (auto simp: wrr_Targets_def offered_iff wrr_live_def)
  qed
  show "\<exists>u. fst (wrr_Next w) = Inr u" if "some_healthy (wrr_Targets w)"
  proof -
    have "wrr_live w \<noteq> {}" using that by (auto simp: wrr_Targets_def some_healthy_iff wrr_live_def)
    then show ?thesis using wrr_Next_some(3) [OF wf] by blast
  qed
qed simp_all

section \<open>Smooth scheduling\<close>

text \<open>
  A scheduler is balanced when the current weights of its live targets add up to zero and none
  is as low as the negative total weight.
\<close>

definition balanced :: "'i set \<Rightarrow> ('i \<Rightarrow> int) \<Rightarrow> ('i \<Rightarrow> int) \<Rightarrow> bool" where
  "balanced H w cw \<longleftrightarrow> sum cw H = 0 \<and> (\<forall>i \<in> H. - sum w H < cw i)"

text \<open>A maximal weight is positive once all are raised, since together they make the total.\<close>

lemma maximal_positive:
  assumes "finite H" and "\<forall>j \<in> H. 0 < w j" and "i \<in> H"
    and "\<forall>j \<in> H. cw j + w j \<le> cw i + w i" and "balanced H w cw"
  shows "0 < cw i + w i"
proof (rule ccontr)
  have "0 < sum w H" using assms(1-3) by (intro sum_pos) auto
  moreover have "sum (\<lambda>j. cw j + w j) H = sum w H"
    using assms(5) by (simp add: balanced_def sum.distrib)
  moreover assume "\<not> 0 < cw i + w i"
  then have "sum (\<lambda>j. cw j + w j) H \<le> 0" using assms(4) by (intro sum_nonpos) force
  ultimately show False by simp
qed

text \<open>Raising every weight by its share and charging a maximal one the total keeps the balance.\<close>

lemma balanced_step:
  assumes "finite H" and "\<forall>j \<in> H. 0 < w j" and "i \<in> H"
    and "\<forall>j \<in> H. cw j + w j \<le> cw i + w i" and "balanced H w cw"
  shows "balanced H w (\<lambda>j. cw j + w j - (if j = i then sum w H else 0))"
proof -
  have total: "sum (\<lambda>j. cw j + w j) H = sum w H"
    using assms(5) by (simp add: balanced_def sum.distrib)
  have "0 < cw i + w i" by (rule maximal_positive [OF assms])
  moreover have "sum (\<lambda>j. cw j + w j - (if j = i then sum w H else 0)) H = 0"
    using total assms(1,3) by (simp add: sum_subtractf)
  moreover have "- sum w H < cw j + w j" if "j \<in> H" for j
    using assms(2,5) that by (force simp: balanced_def)
  ultimately show ?thesis by (auto simp: balanced_def)
qed

text \<open>No current weight grows beyond the number of live targets times the total.\<close>

lemma balanced_upper:
  assumes "finite H" and "balanced H w cw" and "i \<in> H"
  shows "cw i \<le> (int (card H) - 1) * sum w H"
proof -
  have "cw i = - sum cw (H - {i})"
    using assms by (simp add: balanced_def sum.remove [of H i])
  also have "\<dots> = sum (\<lambda>j. - cw j) (H - {i})" by (simp add: sum_negf)
  also have "\<dots> \<le> of_nat (card (H - {i})) * sum w H"
    using assms(2) by (intro sum_bounded_above) (force simp: balanced_def)
  moreover have "1 \<le> card H" using assms(1,3) by (auto simp: Suc_le_eq card_gt_0_iff)
  ultimately show ?thesis using assms(1,3) by (simp add: of_nat_diff)
qed

text \<open>
  The interface: one step of the scheduler raises the weight of every live target, picks one
  with a maximal weight and charges it the total.
\<close>

locale smooth_scheduler =
  fixes pick :: "'s \<Rightarrow> 'i" and step :: "'s \<Rightarrow> 's"
    and H :: "'s \<Rightarrow> 'i set" and wt :: "'s \<Rightarrow> 'i \<Rightarrow> int" and cw :: "'s \<Rightarrow> 'i \<Rightarrow> int"
    and ok :: "'s \<Rightarrow> bool"
  assumes finite_H: "finite (H s)"
    and positive: "ok s \<Longrightarrow> j \<in> H s \<Longrightarrow> 0 < wt s j"
    and pick_live: "ok s \<Longrightarrow> pick s \<in> H s"
    and pick_max: "ok s \<Longrightarrow> balanced (H s) (wt s) (cw s) \<Longrightarrow> j \<in> H s \<Longrightarrow>
          cw s j + wt s j \<le> cw s (pick s) + wt s (pick s)"
    and step_cw: "ok s \<Longrightarrow> balanced (H s) (wt s) (cw s) \<Longrightarrow> j \<in> H s \<Longrightarrow>
          cw (step s) j = cw s j + wt s j - (if j = pick s then sum (wt s) (H s) else 0)"
    and step_frame: "ok s \<Longrightarrow> ok (step s)" "ok s \<Longrightarrow> H (step s) = H s" "ok s \<Longrightarrow> wt (step s) = wt s"
begin

definition picks :: "nat \<Rightarrow> 's \<Rightarrow> 'i list" where
  "picks k s = map (\<lambda>n. pick ((step ^^ n) s)) [0..<k]"

lemma picks_Suc: "picks (Suc k) s = picks k s @ [pick ((step ^^ k) s)]"
  by (simp add: picks_def)

lemma balanced_kept:
  assumes "ok s" and "balanced (H s) (wt s) (cw s)"
  shows "balanced (H (step s)) (wt (step s)) (cw (step s))"
proof -
  have "balanced (H s) (wt s) (\<lambda>j. cw s j + wt s j - (if j = pick s then sum (wt s) (H s) else 0))"
    using assms by (intro balanced_step) (auto simp: finite_H positive pick_live pick_max)
  then show ?thesis
    using assms step_frame [OF assms(1)] step_cw [OF assms] by (auto simp: balanced_def cong: sum.cong)
qed

lemma run_frame:
  assumes "ok s" and "balanced (H s) (wt s) (cw s)"
  shows "ok ((step ^^ k) s) \<and> H ((step ^^ k) s) = H s \<and> wt ((step ^^ k) s) = wt s
         \<and> balanced (H s) (wt s) (cw ((step ^^ k) s))"
proof (induction k)
  case (Suc k)
  then show ?case using step_frame balanced_kept by (metis comp_apply funpow.simps(2))
qed (use assms in simp)

text \<open>After \<open>k\<close> steps the current weight of a target is what it is owed.\<close>

lemma weight_after:
  assumes "ok s" and "balanced (H s) (wt s) (cw s)" and "j \<in> H s"
  shows "cw ((step ^^ k) s) j =
           cw s j + int k * wt s j - int (count_list (picks k s) j) * sum (wt s) (H s)"
proof (induction k)
  case (Suc k)
  have "cw (step ((step ^^ k) s)) j = cw ((step ^^ k) s) j + wt s j
      - (if j = pick ((step ^^ k) s) then sum (wt s) (H s) else 0)"
    using run_frame [OF assms(1,2), of k] assms(3) step_cw [of "(step ^^ k) s" j] by simp
  then show ?case using Suc by (auto simp: picks_Suc algebra_simps)
qed (simp add: picks_def)

lemma picks_live:
  assumes "ok s" and "balanced (H s) (wt s) (cw s)"
  shows "set (picks k s) \<subseteq> H s"
  using run_frame [OF assms] pick_live by (fastforce simp: picks_def)

text \<open>Smoothness: no target is ever ahead of its share by a whole turn.\<close>

lemma never_ahead:
  assumes "ok s" and "\<forall>j \<in> H s. cw s j = 0" and "j \<in> H s"
  shows "int (count_list (picks k s) j) * sum (wt s) (H s) < int k * wt s j + sum (wt s) (H s)"
proof -
  have "0 < sum (wt s) (H s)" using assms finite_H positive by (intro sum_pos) auto
  then have b: "balanced (H s) (wt s) (cw s)" using assms(2) by (simp add: balanced_def)
  have "- sum (wt s) (H s) < cw ((step ^^ k) s) j"
    using run_frame [OF assms(1) b, of k] assms(3) by (auto simp: balanced_def)
  then show ?thesis using weight_after [OF assms(1) b assms(3), of k] assms(2,3) by simp
qed

text \<open>A full period serves every target exactly its weight and returns to the start.\<close>

lemma full_period:
  assumes "ok s" and "\<forall>j \<in> H s. cw s j = 0" and "int k = sum (wt s) (H s)" and "j \<in> H s"
  shows "int (count_list (picks k s) j) = wt s j" and "cw ((step ^^ k) s) j = 0"
proof -
  let ?W = "sum (wt s) (H s)"
  have W: "0 < ?W" using assms finite_H positive by (intro sum_pos) auto
  then have b: "balanced (H s) (wt s) (cw s)" using assms(2) by (simp add: balanced_def)
  have le: "int (count_list (picks k s) i) \<le> wt s i" if "i \<in> H s" for i
  proof -
    have "int (count_list (picks k s) i) * ?W < (wt s i + 1) * ?W"
      using never_ahead [OF assms(1,2) that, of k] assms(3) by (simp add: algebra_simps)
    then show ?thesis using W by simp
  qed
  have "(\<Sum>i \<in> H s. int (count_list (picks k s) i)) = int (length (picks k s))"
    using sum_count_set [OF picks_live [OF assms(1) b] finite_H, of k] by (simp flip: of_nat_sum)
  also have "\<dots> = ?W" using assms(3) by (simp add: picks_def)
  finally have "(\<Sum>i \<in> H s. wt s i - int (count_list (picks k s) i)) = 0" by (simp add: sum_subtractf)
  then have "\<forall>i \<in> H s. wt s i - int (count_list (picks k s) i) = 0"
    using le by (subst sum_nonneg_eq_0_iff [OF finite_H, symmetric]) auto
  with assms(4) show c: "int (count_list (picks k s) j) = wt s j" by simp
  show "cw ((step ^^ k) s) j = 0"
    using weight_after [OF assms(1) b assms(4), of k] assms(2-4) c by simp
qed

end

section \<open>The balancer is a smooth scheduler\<close>

definition wrr_ok :: "WeightedRoundRobin \<Rightarrow> bool" where
  "wrr_ok w \<longleftrightarrow> wrr_wf w \<and> wrr_live w \<noteq> {} \<and> (\<forall>j \<in> wrr_live w. 0 < wrr_weight w j)
     \<and> int (length (wTargets w)) * sum (wrr_weight w) (wrr_live w) \<le> max_int64"

abbreviation wrr_step :: "WeightedRoundRobin \<Rightarrow> WeightedRoundRobin" where
  "wrr_step w \<equiv> snd (wrr_Next w)"

lemma wrr_ok_range:
  assumes "wrr_ok w" and "balanced (wrr_live w) (wrr_weight w) (wrr_cw w)" and "j \<in> wrr_live w"
  shows "in_int64 (wrr_cw w j + wrr_weight w j)" "in_int64 (sum (wrr_weight w) (wrr_live w))"
    "0 < wrr_cw w j + wrr_weight w j \<Longrightarrow>
      in_int64 (wrr_cw w j + wrr_weight w j - sum (wrr_weight w) (wrr_live w))"
proof -
  let ?W = "sum (wrr_weight w) (wrr_live w)" and ?n = "int (length (wTargets w))"
  have pos: "\<forall>i \<in> wrr_live w. 0 < wrr_weight w i" using assms(1) by (simp add: wrr_ok_def)
  have wj: "0 < wrr_weight w j" "wrr_weight w j \<le> ?W"
    using pos assms(3) member_le_sum [of j "wrr_live w" "wrr_weight w"] by (auto intro: less_imp_le)
  have "card (wrr_live w) \<le> card {..<length (wTargets w)}" by (intro card_mono) (auto simp: wrr_live_def)
  then have "int (card (wrr_live w)) * ?W \<le> ?n * ?W" using wj by (intro mult_right_mono) auto
  then have le: "int (card (wrr_live w)) * ?W \<le> max_int64" using assms(1) by (simp add: wrr_ok_def)
  have "wrr_cw w j \<le> (int (card (wrr_live w)) - 1) * ?W"
    using balanced_upper [OF _ assms(2,3)] by simp
  then have up: "wrr_cw w j + wrr_weight w j \<le> max_int64" using wj le by (simp add: algebra_simps)
  have "1 \<le> int (card (wrr_live w))" using assms(3) by (auto simp: Suc_le_eq card_gt_0_iff)
  then have "?W \<le> int (card (wrr_live w)) * ?W" using wj by simp
  then have W: "?W \<le> max_int64" using le by linarith
  have lo: "- ?W < wrr_cw w j" using assms(2,3) by (simp add: balanced_def)
  have M: "min_int64 = - max_int64 - 1" by (simp add: min_int64_def max_int64_def)
  show "in_int64 (wrr_cw w j + wrr_weight w j)" "in_int64 ?W"
    "0 < wrr_cw w j + wrr_weight w j \<Longrightarrow> in_int64 (wrr_cw w j + wrr_weight w j - ?W)"
    using up lo wj W M by (auto simp: in_int64_def)
qed

lemma wrr_raised:
  assumes "wrr_ok w" and "balanced (wrr_live w) (wrr_weight w) (wrr_cw w)" and "j \<in> wrr_live w"
  shows "raised w 0 (wCurrent w) j = wrr_cw w j + wrr_weight w j"
  using wrr_ok_range(1) [OF assms] assms(3) by (simp add: raised_def wrr_cw_def wrr_live_def)

lemma wrr_step_cw:
  assumes "wrr_ok w" and "balanced (wrr_live w) (wrr_weight w) (wrr_cw w)" and "j \<in> wrr_live w"
  shows "wrr_cw w j + wrr_weight w j \<le> wrr_cw w (wrr_best w) + wrr_weight w (wrr_best w)"
    and "wrr_cw (wrr_step w) j = wrr_cw w j + wrr_weight w j
           - (if j = wrr_best w then sum (wrr_weight w) (wrr_live w) else 0)"
proof -
  let ?W = "sum (wrr_weight w) (wrr_live w)"
  have wf: "wrr_wf w" and ne: "wrr_live w \<noteq> {}" using assms(1) by (auto simp: wrr_ok_def)
  note some = wrr_Next_some [OF wf ne]
  have max: "\<forall>j \<in> wrr_live w. wrr_cw w j + wrr_weight w j \<le> wrr_cw w (wrr_best w) + wrr_weight w (wrr_best w)"
    using some(1,2) wrr_raised [OF assms(1,2)] by auto
  then show "wrr_cw w j + wrr_weight w j \<le> wrr_cw w (wrr_best w) + wrr_weight w (wrr_best w)"
    using assms(3) by blast
  have "0 < wrr_cw w (wrr_best w) + wrr_weight w (wrr_best w)"
    using assms(1) by (intro maximal_positive [OF _ _ some(1) max assms(2)]) (auto simp: wrr_ok_def)
  then have "in_int64 (wrr_cw w (wrr_best w) + wrr_weight w (wrr_best w) - ?W)" "in_int64 ?W"
    using wrr_ok_range(2,3) [OF assms(1,2) some(1)] by auto
  moreover have "j < length (wTargets w)" "wrr_best w < length (wTargets w)"
    using assms(3) some(1) by (auto simp: wrr_live_def)
  ultimately show "wrr_cw (wrr_step w) j = wrr_cw w j + wrr_weight w j - (if j = wrr_best w then ?W else 0)"
    using wrr_raised [OF assms(1,2) some(1)] wrr_raised [OF assms]
    by (simp add: some(4) wrr_cw_def nth_list_update)
qed

lemma wrr_step_frame:
  assumes "wrr_wf w"
  shows "wrr_live (wrr_step w) = wrr_live w" "wrr_weight (wrr_step w) = wrr_weight w"
    "wrr_ok w \<Longrightarrow> wrr_ok (wrr_step w)"
proof -
  show *: "wrr_live (wrr_step w) = wrr_live w" "wrr_weight (wrr_step w) = wrr_weight w"
    using wrr_Next_frame [OF assms] by (auto simp: wrr_live_def wrr_weight_def)
  then show "wrr_ok (wrr_step w)" if "wrr_ok w"
    using that wrr_Next_frame [OF assms] by (simp add: wrr_ok_def)
qed

interpretation smooth: smooth_scheduler wrr_best "\<lambda>w. snd (wrr_Next w)" wrr_live wrr_weight wrr_cw wrr_ok
proof unfold_locales
  fix w j
  assume ok: "wrr_ok w"
  then have wf: "wrr_wf w" by (simp add: wrr_ok_def)
  show "wrr_best w \<in> wrr_live w" using wrr_Next_some(1) [OF wf] ok by (simp add: wrr_ok_def)
  show "wrr_ok (wrr_step w)" "wrr_live (wrr_step w) = wrr_live w" "wrr_weight (wrr_step w) = wrr_weight w"
    using wrr_step_frame [OF wf] ok by simp_all
  show "0 < wrr_weight w j" if "j \<in> wrr_live w" using ok that by (simp add: wrr_ok_def)
qed (simp_all add: wrr_step_cw)

text \<open>A target that is not live keeps its current weight.\<close>

lemma wrr_step_dead:
  assumes "wrr_ok w" and "j < length (wTargets w)" and "j \<notin> wrr_live w"
  shows "wrr_cw (wrr_step w) j = wrr_cw w j"
proof -
  have wf: "wrr_wf w" and ne: "wrr_live w \<noteq> {}" using assms(1) by (auto simp: wrr_ok_def)
  have "j \<noteq> wrr_best w" using wrr_Next_some(1) [OF wf ne] assms(3) by auto
  then show ?thesis
    using assms(2,3) by (simp add: wrr_Next_some(4) [OF wf ne] wrr_cw_def raised_def wrr_live_def)
qed

section \<open>From indices to results\<close>

definition live_indices :: "WeightedRoundRobin \<Rightarrow> nat list" where
  "live_indices w = filter (\<lambda>i. wHealthy w ! i) [0..<length (wTargets w)]"

definition live_targets :: "WeightedRoundRobin \<Rightarrow> Target list" where
  "live_targets w = map (\<lambda>i. wTargets w ! i) (live_indices w)"

definition live_weight :: "WeightedRoundRobin \<Rightarrow> int" where
  "live_weight w = sum_list (map tWeight (live_targets w))"

lemma live_indices [simp]: "set (live_indices w) = wrr_live w" "distinct (live_indices w)"
  by (auto simp: live_indices_def wrr_live_def)

lemma live_weight_sum: "live_weight w = sum (wrr_weight w) (wrr_live w)"
  using sum.distinct_set_conv_list [of "live_indices w" "wrr_weight w"]
  by (simp add: live_weight_def live_targets_def comp_def wrr_weight_def [abs_def])

text \<open>Well-formed balancers whose arithmetic cannot overflow.\<close>

definition good_wrr :: "WeightedRoundRobin \<Rightarrow> bool" where
  "good_wrr w \<longleftrightarrow> wrr_wf w \<and> live_targets w \<noteq> [] \<and> list_all (\<lambda>t. 0 < tWeight t) (live_targets w)
     \<and> int (length (wTargets w)) * live_weight w \<le> max_int64"

lemma good_wrr_ok: "good_wrr w \<longleftrightarrow> wrr_ok w"
proof -
  have "live_targets w \<noteq> [] \<longleftrightarrow> wrr_live w \<noteq> {}"
    by (simp add: live_targets_def) (metis live_indices(1) set_empty)
  moreover have "list_all (\<lambda>t. 0 < tWeight t) (live_targets w) \<longleftrightarrow> (\<forall>j \<in> wrr_live w. 0 < wrr_weight w j)"
    by (simp add: list_all_iff live_targets_def wrr_weight_def)
  ultimately show ?thesis by (simp add: good_wrr_def wrr_ok_def live_weight_sum)
qed

lemma wrr_run_frame:
  assumes "wrr_ok w" and "\<forall>j \<in> wrr_live w. wrr_cw w j = 0"
  shows "wrr_ok ((wrr_step ^^ k) w)" "wTargets ((wrr_step ^^ k) w) = wTargets w"
    "wHealthy ((wrr_step ^^ k) w) = wHealthy w"
    "\<forall>j < length (wTargets w). j \<notin> wrr_live w \<longrightarrow> wrr_cw ((wrr_step ^^ k) w) j = wrr_cw w j"
proof (induction k)
  case (Suc k)
  note IH = Suc
  have wf: "wrr_wf ((wrr_step ^^ k) w)" using IH(1) by (simp add: wrr_ok_def)
  { case 1 show ?case using wrr_step_frame(3) [OF wf] IH(1) by simp }
  { case 2 show ?case using wrr_Next_frame [OF wf] IH(2) by simp }
  { case 3 show ?case using wrr_Next_frame [OF wf] IH(3) by simp }
  { case 4
    have "wrr_live ((wrr_step ^^ k) w) = wrr_live w" using IH(2,3) by (simp add: wrr_live_def)
    then show ?case using wrr_step_dead [OF IH(1)] IH(2,4) by simp }
qed (use assms in simp_all)

lemma wrr_calls_picks:
  assumes "wrr_ok w" and "\<forall>j \<in> wrr_live w. wrr_cw w j = 0"
  shows "fst (serve wrr_Next wrr_SetHealthy (replicate k Request) w)
       = map (\<lambda>i. Inr (tURL (wTargets w ! i))) (smooth.picks k w)"
  using wrr_run_frame [OF assms] wrr_Next_some(3)
  by (simp add: serve_requests smooth.picks_def wrr_ok_def)

lemma count_concat_replicate:
  "distinct xs \<Longrightarrow> count (mset (concat (map (\<lambda>i. replicate (f i) i) xs))) j = (if j \<in> set xs then f j else 0)"
  by (induction xs) auto

lemma count_list_mset: "count (mset xs) x = count_list xs x"
  by (induction xs) auto

lemma count_list_map_inj:
  assumes "inj_on f (insert x (set xs))"
  shows "count_list (map f xs) (f x) = count_list xs x"
  using assms by (induction xs) (auto simp: inj_on_def)

text \<open>A run that starts with all current weights at zero.\<close>

definition fresh_wrr :: "WeightedRoundRobin \<Rightarrow> bool" where
  "fresh_wrr w \<longleftrightarrow> wCurrent w = replicate (length (wTargets w)) 0"

lemma fresh_zero: "fresh_wrr w \<Longrightarrow> \<forall>j \<in> wrr_live w. wrr_cw w j = 0"
  by (simp add: fresh_wrr_def wrr_cw_def wrr_live_def)

section \<open>Properties\<close>

text \<open>
  C6. Exact shares: from a state with all current weights zero, as many calls as the healthy
  targets weigh together return each healthy target exactly as often as its weight says and no
  other, and leave the balancer in the state it started from, so the pattern repeats. The
  arithmetic is the code's 64-bit arithmetic.
\<close>

theorem weighted_exact_shares:
  assumes "good_wrr w" and "fresh_wrr w"
    and "serve wrr_Next wrr_SetHealthy (replicate (nat (live_weight w)) Request) w = (rs, w')"
  shows "mset rs = mset (concat (map (\<lambda>t. replicate (nat (tWeight t)) (Inr (tURL t))) (live_targets w)))
         \<and> w' = w"
proof -
  let ?k = "nat (live_weight w)" and ?g = "\<lambda>i. Inr (tURL (wTargets w ! i)) :: balancer_error + URL"
  have ok: "wrr_ok w" using assms(1) by (simp add: good_wrr_ok)
  note z = fresh_zero [OF assms(2)]
  have pos: "\<forall>j \<in> wrr_live w. 0 < wrr_weight w j" using ok by (simp add: wrr_ok_def)
  then have k: "int ?k = sum (wrr_weight w) (wrr_live w)"
    by (simp add: live_weight_sum sum_nonneg less_imp_le)
  note period = smooth.full_period [OF ok z k]
  have "mset (smooth.picks ?k w) = mset (concat (map (\<lambda>i. replicate (nat (wrr_weight w i)) i) (live_indices w)))"
  proof (rule multiset_eqI)
    fix j
    have "set (smooth.picks ?k w) \<subseteq> wrr_live w"
      using pos z ok by (intro smooth.picks_live) (auto simp: balanced_def wrr_ok_def intro!: sum_pos)
    then have "count_list (smooth.picks ?k w) j = (if j \<in> wrr_live w then nat (wrr_weight w j) else 0)"
      using period(1) [of j] by (auto simp: count_list_0_iff)
    then show "count (mset (smooth.picks ?k w)) j
        = count (mset (concat (map (\<lambda>i. replicate (nat (wrr_weight w i)) i) (live_indices w)))) j"
      by (simp add: count_list_mset [of "smooth.picks ?k w"] count_concat_replicate del: mset_concat)
  qed
  moreover have "rs = map ?g (smooth.picks ?k w)" using wrr_calls_picks [OF ok z] assms(3) by (metis fst_conv)
  ultimately have "mset rs = mset (map ?g (concat (map (\<lambda>i. replicate (nat (wrr_weight w i)) i) (live_indices w))))"
    by simp
  also have "map ?g (concat (map (\<lambda>i. replicate (nat (wrr_weight w i)) i) (live_indices w)))
      = concat (map (\<lambda>t. replicate (nat (tWeight t)) (Inr (tURL t))) (live_targets w))"
    by (simp add: map_concat comp_def live_targets_def wrr_weight_def)
  finally show ?thesis
  proof
    have w': "w' = (wrr_step ^^ ?k) w" using assms(3) by (simp add: serve_requests)
    note fr = wrr_run_frame [OF ok z, of ?k]
    have "wCurrent w' = wCurrent w"
    proof (rule nth_equalityI)
      show len: "length (wCurrent w') = length (wCurrent w)"
        using fr(1,2) ok by (simp add: w' wrr_ok_def wrr_wf_def)
      show "wCurrent w' ! j = wCurrent w ! j" if "j < length (wCurrent w')" for j
        using fr(4) period(2) [of j] z that len ok by (auto simp: w' wrr_cw_def wrr_ok_def wrr_wf_def)
    qed
    then show "w' = w" using fr(2,3) by (simp add: w')
  qed
qed

text \<open>
  C32. Smoothness: at every moment of such a run no healthy target has had more than its
  proportional share of the calls so far plus less than one call, so no target is served in
  a cluster ahead of its turn.
\<close>

theorem weighted_smooth:
  assumes "good_wrr w" and "fresh_wrr w" and "distinct (map tURL (wTargets w))"
    and "t \<in> set (live_targets w)"
  shows "int (count_list (fst (serve wrr_Next wrr_SetHealthy (replicate k Request) w)) (Inr (tURL t)))
           * live_weight w < int k * tWeight t + live_weight w"
proof -
  have ok: "wrr_ok w" using assms(1) by (simp add: good_wrr_ok)
  note z = fresh_zero [OF assms(2)]
  obtain j where j: "j \<in> wrr_live w" "t = wTargets w ! j"
    using assms(4) by (auto simp: live_targets_def)
  have sub: "set (smooth.picks k w) \<subseteq> wrr_live w"
    using z ok by (intro smooth.picks_live) (auto simp: balanced_def wrr_ok_def intro!: sum_pos)
  have "inj_on (\<lambda>i. Inr (tURL (wTargets w ! i)) :: balancer_error + URL) {..<length (wTargets w)}"
    using assms(3) by (auto simp: inj_on_def distinct_conv_nth)
  then have "inj_on (\<lambda>i. Inr (tURL (wTargets w ! i)) :: balancer_error + URL) (insert j (set (smooth.picks k w)))"
    by (rule inj_on_subset) (use j(1) sub in \<open>auto simp: wrr_live_def\<close>)
  then have "count_list (fst (serve wrr_Next wrr_SetHealthy (replicate k Request) w)) (Inr (tURL t))
      = count_list (smooth.picks k w) j"
    using count_list_map_inj j(2) by (simp add: wrr_calls_picks [OF ok z]) fastforce
  then show ?thesis
    using smooth.never_ahead [OF ok z j(1), of k] j(2) by (simp add: live_weight_sum wrr_weight_def)
qed

definition weighted_sample :: WeightedRoundRobin where
  "weighted_sample = NewWeightedRoundRobin
     (map (\<lambda>(s, n). \<lparr>tURL = \<lparr>Scheme = ''http'', Host = s, URL_String = ''http://'' @ s\<rparr>, tWeight = n\<rparr>)
        [(''a'', 5), (''b'', 1), (''c'', 1)])"

lemma weighted_sample_good: "good_wrr weighted_sample" "fresh_wrr weighted_sample"
  by (simp_all add: good_wrr_def fresh_wrr_def weighted_sample_def NewWeightedRoundRobin_def wrr_wf_def
      live_targets_def live_indices_def live_weight_def max_int64_def upt_rec)

theorem weighted_exact_shares_witness:
  "\<exists>rs. serve wrr_Next wrr_SetHealthy (replicate (nat (live_weight weighted_sample)) Request) weighted_sample
          = (rs, weighted_sample) \<and> length rs = 7"
proof -
  let ?run = "serve wrr_Next wrr_SetHealthy (replicate (nat (live_weight weighted_sample)) Request) weighted_sample"
  have s: "mset (fst ?run) = mset (concat (map (\<lambda>t. replicate (nat (tWeight t)) (Inr (tURL t)))
       (live_targets weighted_sample))) \<and> snd ?run = weighted_sample"
    by (rule weighted_exact_shares [OF weighted_sample_good]) simp
  then have "length (fst ?run) = length (concat (map (\<lambda>t. replicate (nat (tWeight t)) (Inr (tURL t) :: balancer_error + URL))
       (live_targets weighted_sample)))"
    by (metis size_mset)
  also have "\<dots> = 7"
    by (simp add: live_targets_def live_indices_def weighted_sample_def NewWeightedRoundRobin_def upt_rec)
  finally show ?thesis using s by (metis prod.collapse)
qed

theorem weighted_smooth_witness:
  "int (count_list (fst (serve wrr_Next wrr_SetHealthy (replicate 4 Request) weighted_sample))
       (Inr (tURL (wTargets weighted_sample ! 0)))) * 7 < 4 * 5 + 7"
proof -
  have t: "wTargets weighted_sample ! 0 \<in> set (live_targets weighted_sample)"
    "distinct (map tURL (wTargets weighted_sample))"
    "live_weight weighted_sample = 7" "tWeight (wTargets weighted_sample ! 0) = 5"
    by (simp_all add: live_weight_def live_targets_def live_indices_def weighted_sample_def
        NewWeightedRoundRobin_def upt_rec)
  show ?thesis
    using weighted_smooth [OF weighted_sample_good t(2,1), of 4] by (simp add: t(3,4))
qed

end
