(* ===== verification/Balancing.thy ===== *)
theory Balancing
  imports Round_Robin Weighted
begin

text \<open>
  The balancer of a route, \<open>NewFromConfig\<close> of \<open>internal/balancer/balancer.go\<close>: the
  choice of the strategy, and the two implementations behind the Go interface as one type,
  interpreted again in the locale \<open>balancer\<close>.
\<close>

datatype Balancer = RR RoundRobin | WRR WeightedRoundRobin

fun Next :: "Balancer \<Rightarrow> (balancer_error + URL) \<times> Balancer" where
  "Next (RR b) = (case rr_Next b of (r, b') \<Rightarrow> (r, RR b'))"
| "Next (WRR b) = (case wrr_Next b of (r, b') \<Rightarrow> (r, WRR b'))"

fun Targets :: "Balancer \<Rightarrow> TargetStatus list" where
  "Targets (RR b) = rr_Targets b"
| "Targets (WRR b) = wrr_Targets b"

fun SetHealthy :: "string \<Rightarrow> bool \<Rightarrow> Balancer \<Rightarrow> Balancer" where
  "SetHealthy s v (RR b) = RR (rr_SetHealthy s v b)"
| "SetHealthy s v (WRR b) = WRR (wrr_SetHealthy s v b)"

text \<open>The loop over the configured targets: the targets kept, and the warnings.\<close>

fun parse_targets :: "url_parser \<Rightarrow> string \<Rightarrow> TargetConfig list \<Rightarrow> Target list \<times> LogRecord list" where
  "parse_targets parse path [] = ([], [])"
| "parse_targets parse path (t # ts) =
     (case parse_targets parse path ts of (targets, logs) \<Rightarrow>
        case parse (tcURL t) of
          Inl err \<Rightarrow> (targets, log_record LevelWarn ''skipping target with invalid URL''
              [(''route'', AString path), (''url'', AString (tcURL t)), (''error'', AString err)] # logs)
        | Inr u \<Rightarrow> (\<lparr>tURL = u, tWeight = (if tcWeight t \<le> 0 then 1 else tcWeight t)\<rparr> # targets, logs))"

definition NewFromConfig :: "url_parser \<Rightarrow> RouteConfig \<Rightarrow> Balancer \<times> LogRecord list" where
  "NewFromConfig parse r =
     (case parse_targets parse (rcPath r) (rcTargets r) of (targets, logs) \<Rightarrow>
        (if rcBalanceStrategy r = ''weighted'' then WRR (NewWeightedRoundRobin targets)
         else RR (NewRoundRobin targets), logs))"

section \<open>The contract for both strategies\<close>

fun bal_wf :: "Balancer \<Rightarrow> bool" where
  "bal_wf (RR b) = rr_wf b"
| "bal_wf (WRR b) = wrr_wf b"

fun bal_left :: "Balancer \<Rightarrow> nat" where
  "bal_left (RR b) = rr_left b"
| "bal_left (WRR b) = 2 ^ 64"

interpretation bal: balancer Next Targets SetHealthy bal_wf bal_left
proof unfold_locales
  fix b s v u
  assume wf: "bal_wf b"
  show "bal_wf (snd (Next b))"
    using wf rr.wf_Next wrr.wf_Next by (cases b) (auto split: prod.splits, (metis snd_conv)+)
  show "bal_wf (SetHealthy s v b)"
    using wf rr.wf_SetHealthy wrr.wf_SetHealthy by (cases b) auto
  show "Targets (snd (Next b)) = Targets b"
    using wf rr.Targets_Next wrr.Targets_Next by (cases b) (auto split: prod.splits, (metis snd_conv)+)
  show "Targets (SetHealthy s v b) = set_health s v (Targets b)"
    using wf rr.Targets_SetHealthy wrr.Targets_SetHealthy by (cases b) auto
  show "offered u (Targets b)" if "fst (Next b) = Inr u"
    using wf that rr.Next_sound wrr.Next_sound by (cases b) (auto split: prod.splits)
  show "\<exists>u. fst (Next b) = Inr u" if "0 < bal_left b" "some_healthy (Targets b)"
    using wf that rr.Next_complete wrr.Next_complete [of _ 1] by (cases b) (auto split: prod.splits, (metis fst_conv)+)
  show "bal_left b \<le> Suc (bal_left (snd (Next b)))"
    using wf rr.left_Next by (cases b) (auto split: prod.splits, metis snd_conv)
  show "bal_left (SetHealthy s v b) = bal_left b"
    using wf rr.left_SetHealthy by (cases b) auto
qed

section \<open>Balancers made from a configuration\<close>

lemma parse_targets_valid:
  assumes "\<forall>t \<in> set ts. valid_target parse t"
  shows "length (fst (parse_targets parse path ts)) = length ts \<and> snd (parse_targets parse path ts) = []
         \<and> map tURL (fst (parse_targets parse path ts)) = map (\<lambda>t. projr (parse (tcURL t))) ts"
  using assms by (induction ts) (auto simp: valid_target_def split: prod.splits)

lemma parse_targets_length: "length (fst (parse_targets parse path ts)) \<le> length ts"
  by (induction ts) (auto split: prod.splits sum.splits)

lemma parse_targets_weights: "t \<in> set (fst (parse_targets parse path ts)) \<Longrightarrow> 0 < tWeight t"
  by (induction ts) (auto split: prod.splits sum.splits)

lemma new_balancer:
  assumes "NewFromConfig parse r = (b, logs)" and "int (length (rcTargets r)) \<le> max_int64"
  shows "bal_wf b" "Targets b = map (\<lambda>t. status_of t True) (fst (parse_targets parse (rcPath r) (rcTargets r)))"
    "2 ^ 64 \<le> bal_left b + length (rcTargets r)"
proof -
  let ?ts = "fst (parse_targets parse (rcPath r) (rcTargets r))"
  have b: "b = (if rcBalanceStrategy r = ''weighted'' then WRR (NewWeightedRoundRobin ?ts)
      else RR (NewRoundRobin ?ts))"
    using assms(1) by (auto simp: NewFromConfig_def split: prod.splits)
  have st: "statuses_of ts (replicate (length ts) True) = map (\<lambda>t. status_of t True) ts" for ts
    by (intro nth_equalityI) simp_all
  note len = parse_targets_length [of parse "rcPath r" "rcTargets r"]
  show "bal_wf b"
    using assms(2) len by (auto simp: b rr_wf_def wrr_wf_def NewRoundRobin_def NewWeightedRoundRobin_def)
  show "Targets b = map (\<lambda>t. status_of t True) ?ts"
    by (simp add: b rr_Targets_def wrr_Targets_def NewRoundRobin_def NewWeightedRoundRobin_def st)
  show "2 ^ 64 \<le> bal_left b + length (rcTargets r)"
    using len by (auto simp: b rr_left_def NewRoundRobin_def)
qed

text \<open>
  C7. For a valid route and either strategy, over any mixture of requests and health updates
  (fewer requests than the 64-bit counter has values left) every request is answered by a target
  that is healthy at that moment, and fails only when none is. No configured target is dropped,
  and all start out healthy.
\<close>

theorem balancer_serves_healthy:
  assumes "valid_route parse r" and "NewFromConfig parse r = (b, logs)"
    and "int (length (rcTargets r)) \<le> max_int64"
    and "count_list es Request + length (rcTargets r) \<le> 2 ^ 64"
  shows "logs = [] \<and> map (\<lambda>s. (tURL (tsTarget s), tsHealthy s)) (Targets b)
           = map (\<lambda>t. (projr (parse (tcURL t)), True)) (rcTargets r)
         \<and> list_all2 served (fst (serve Next SetHealthy es b)) (health_view es (Targets b))"
proof (intro conjI)
  note new = new_balancer [OF assms(2,3)]
  have ts: "\<forall>t \<in> set (rcTargets r). valid_target parse t" using assms(1) by (simp add: valid_route_def)
  note p = parse_targets_valid [OF ts, of "rcPath r"]
  show "logs = []" using assms(2) p by (auto simp: NewFromConfig_def split: prod.splits)
  have "map (\<lambda>t. (t, True)) (map tURL (fst (parse_targets parse (rcPath r) (rcTargets r))))
      = map (\<lambda>t. (t, True)) (map (\<lambda>t. projr (parse (tcURL t))) (rcTargets r))"
    using p by simp
  then show "map (\<lambda>s. (tURL (tsTarget s), tsHealthy s)) (Targets b)
      = map (\<lambda>t. (projr (parse (tcURL t)), True)) (rcTargets r)"
    by (simp add: new(2) comp_def)
  show "list_all2 served (fst (serve Next SetHealthy es b)) (health_view es (Targets b))"
    using new(3) assms(4) by (intro bal.serve_exact [OF new(1)]) linarith
qed

definition sample_parse :: url_parser where
  "sample_parse s = Inr \<lparr>Scheme = ''http'', Host = drop 7 s, URL_String = s\<rparr>"

definition sample_route :: RouteConfig where
  "sample_route = \<lparr>rcPath = ''/api'', rcMethods = [],
     rcTargets = [\<lparr>tcURL = ''http://a'', tcWeight = 2\<rparr>, \<lparr>tcURL = ''http://b'', tcWeight = 1\<rparr>],
     rcBalanceStrategy = ''weighted'', rcStripPrefix = False, rcTimeout = 0, rcRateLimit = None,
     rcCircuitBreaker = None\<rparr>"

lemma sample_route_valid: "valid_route sample_parse sample_route"
  by (simp add: valid_route_def valid_target_def sample_parse_def sample_route_def Cons_eq_append_conv)

theorem balancer_serves_healthy_witness:
  "list_all2 served
     (fst (serve Next SetHealthy [Request, HealthUpdate ''http://a'' False, Request]
        (fst (NewFromConfig sample_parse sample_route))))
     (health_view [Request, HealthUpdate ''http://a'' False, Request]
        (Targets (fst (NewFromConfig sample_parse sample_route))))"
  using balancer_serves_healthy [OF sample_route_valid prod.collapse [symmetric],
      of "[Request, HealthUpdate ''http://a'' False, Request]"]
  by (simp add: sample_route_def max_int64_def)

end
