(* ===== verification/Middleware.thy ===== *)
theory Middleware
  imports Http Observability Circuit Rate_Limiter Balancing
begin

text \<open>
  The middleware, \<open>internal/middleware\<close>. A handler takes the request, the response writer and
  the state of the gateway and returns how it ended with the new writer and state; a middleware
  maps handlers to handlers. The state holds the rate limit stores, circuit breakers and
  balancers of the routes under the number of their route, the log, the metric calls, and what
  the request finds around it: one clock reading per call site of \<open>time.Now\<close>, the outcome of
  \<open>uuid.NewV7\<close>, the text of \<open>debug.Stack\<close>, the rendering of non-ASCII text in JSON, and
  the implementation-defined float conversion, the removal of hop-by-hop headers by
  \<open>httputil.ReverseProxy\<close>, and what the upstream answers. \<open>upstream_requests\<close> is the
  sequence of requests handed to the transport.
\<close>

section \<open>The state of the gateway\<close>

datatype site =
    LogStart | LogEnd
  | MetricStart | MetricEnd
  | LimitNow
  | BreakBefore | BreakBefore2 | BreakAfter | BreakAfter2
  | ProxyNow

record World =
  stores :: "nat \<Rightarrow> InMemoryStore"
  breakers :: "nat \<Rightarrow> CircuitBreaker"
  balancers :: "nat \<Rightarrow> Balancer"
  logs :: "LogRecord list"
  metric_calls :: "metric_call list"
  clock :: "site \<Rightarrow> Time"
  uuid :: "string + string"
  stack :: string
  json_uni :: "string \<Rightarrow> string"
  float_impl :: "float64 \<Rightarrow> int"
  strip_hop :: "Header \<Rightarrow> Header"
  round_trip :: "Request \<Rightarrow> upstream_result"
  upstream_requests :: "Request list"

type_synonym handler = "Request \<Rightarrow> writer \<Rightarrow> World \<Rightarrow> outcome \<times> writer \<times> World"
type_synonym Middleware = "handler \<Rightarrow> handler"

definition log_to :: "LogLevel \<Rightarrow> string \<Rightarrow> (string \<times> Attr) list \<Rightarrow> World \<Rightarrow> World" where
  "log_to l m as g = g\<lparr>logs := logs g @ [log_record l m as]\<rparr>"

definition metric_to :: "metric \<Rightarrow> string list \<Rightarrow> metric_op \<Rightarrow> World \<Rightarrow> World" where
  "metric_to m vs p g = g\<lparr>metric_calls := metric_calls g @ [call_metric m vs p]\<rparr>"

text \<open>\<open>WriteHeader\<close> with a constant code followed by a JSON body, as every error path does.\<close>

definition respond_json :: "int \<Rightarrow> json \<Rightarrow> World \<Rightarrow> writer \<Rightarrow> writer" where
  "respond_json code j g w =
     Encode (json_uni g) j (snd (WriteHeader code (set_header ''Content-Type'' ''application/json'' w)))"

definition error_json :: "(string \<times> json) list \<Rightarrow> json" where
  "error_json kvs = JObject [(''error'', JObject kvs)]"

section \<open>Chain\<close>

text \<open>The loop of \<open>Chain\<close> runs over the slice from its last element down.\<close>

definition Chain :: "Middleware list \<Rightarrow> Middleware" where
  "Chain ms final = fold (\<lambda>m h. m h) (rev ms) final"

lemma Chain_simps [simp]: "Chain [] h = h" "Chain (m # ms) h = m (Chain ms h)"
  by (simp_all add: Chain_def)

lemma Chain_append: "Chain (ms @ ns) h = Chain ms (Chain ns h)"
  by (induction ms) simp_all

section \<open>Recovery\<close>

definition Recovery :: Middleware where
  "Recovery next r w g =
     (case next r w g of
        (Returned, w, g) \<Rightarrow> (Returned, w, g)
      | (Panicked p, w, g) \<Rightarrow>
          (let requestID = GetRequestID (ReqContext r);
               g = log_to LevelError ''panic recovered''
                 [(''panic'', AString p), (''stack'', AString (stack g)), (''request_id'', AString requestID),
                  (''path'', AString (URL_Path r)), (''method'', AString (Method r))] g
           in (Returned,
               respond_json 500 (error_json [(''code'', JString ''INTERNAL_ERROR''),
                 (''message'', JString ''an unexpected error occurred''), (''request_id'', JString requestID)]) g w,
               g)))"

section \<open>Request identifiers\<close>

definition requestIDHeader :: string where
  "requestIDHeader = ''X-Request-ID''"

text \<open>\<open>uuid.Must\<close> panics with the error of \<open>uuid.NewV7\<close>.\<close>

definition RequestID :: Middleware where
  "RequestID next r w g =
     (let given = Header_Get (ReqHeader r) requestIDHeader
      in case (if given \<noteq> [] then Inr given else uuid g) of
           Inl err \<Rightarrow> (Panicked err, w, g)
         | Inr i \<Rightarrow> next (WithContext (WithRequestID (ReqContext r) i) r) (set_header requestIDHeader i w) g)"

section \<open>Logging\<close>

definition status_level :: "int \<Rightarrow> LogLevel" where
  "status_level code = (if code \<ge> 500 then LevelError else if code \<ge> 400 then LevelWarn else LevelInfo)"

definition Logging_mw :: Middleware where
  "Logging_mw next r w g =
     (let start = clock g LogStart
      in case next r (newResponseWriter w) g of
           (Panicked p, w, g) \<Rightarrow> (Panicked p, unwrap w, g)
         | (Returned, w, g) \<Rightarrow>
             (let rw = wrapper w;
                  duration = Time_Sub (clock g LogEnd) start;
                  upstream = GetUpstreamTarget (ReqContext r);
                  attrs = [(''request_id'', AString (GetRequestID (ReqContext r))), (''method'', AString (Method r)),
                    (''path'', AString (URL_Path r)), (''query'', AString (RawQuery r)),
                    (''status'', AInt (statusCode rw)), (''bytes'', AInt (bytesWritten rw)),
                    (''latency'', ADuration duration), (''client_ip'', AString (Extract r)),
                    (''user_agent'', AString (UserAgent r))]
                    @ (if upstream \<noteq> [] then [(''upstream'', AString upstream)] else [])
              in (Returned, unwrap w, log_to (status_level (statusCode rw)) ''request completed'' attrs g)))"

section \<open>Metrics\<close>

text \<open>The deferred decrement runs on a panic too.\<close>

definition Metrics_mw :: "string \<Rightarrow> Middleware" where
  "Metrics_mw routePath next r w g =
     (let method = Method r;
          g = metric_to HTTPActiveRequests [method, routePath] Inc g;
          start = clock g MetricStart
      in case next r (newResponseWriter w) g of
           (Panicked p, w, g) \<Rightarrow>
             (Panicked p, unwrap w, metric_to HTTPActiveRequests [method, routePath] Dec g)
         | (Returned, w, g) \<Rightarrow>
             (let duration = Duration_Seconds (Time_Sub (clock g MetricEnd) start);
                  g = metric_to HTTPRequestsTotal [method, routePath, Itoa (statusCode (wrapper w))] Inc g;
                  g = metric_to HTTPRequestDuration [method, routePath] (Observe duration) g
              in (Returned, unwrap w, metric_to HTTPActiveRequests [method, routePath] Dec g)))"

section \<open>CORS\<close>

definition isOriginAllowed :: "string \<Rightarrow> string list \<Rightarrow> bool" where
  "isOriginAllowed origin allowed \<longleftrightarrow> list_ex (\<lambda>a. a = ''*'' \<or> a = origin) allowed"

text \<open>The headers set for a granted origin.\<close>

definition cors_headers :: "CORSConfig \<Rightarrow> Request \<Rightarrow> writer \<Rightarrow> writer" where
  "cors_headers cfg r w =
     (let allowedMethods = Join (AllowedMethods cfg) '', '';
          allowedHeaders = Join (AllowedHeaders cfg) '', '';
          allowedHeaders = (if allowedHeaders = [] then ''Content-Type, Authorization, X-Request-ID'' else allowedHeaders);
          origin = Header_Get (ReqHeader r) ''Origin''
      in if origin \<noteq> [] \<and> isOriginAllowed origin (AllowedOrigins cfg) then
           set_header ''Access-Control-Allow-Credentials'' ''true''
           (set_header ''Access-Control-Max-Age'' (Itoa (corsMaxAge cfg))
           (set_header ''Access-Control-Allow-Headers'' allowedHeaders
           (set_header ''Access-Control-Allow-Methods'' allowedMethods
           (set_header ''Access-Control-Allow-Origin'' origin w))))
         else w)"

definition CORS_mw :: "CORSConfig \<Rightarrow> Middleware" where
  "CORS_mw cfg next r w g =
     (let w = cors_headers cfg r w
      in if Method r = ''OPTIONS'' then (case WriteHeader 204 w of (out, w) \<Rightarrow> (out, w, g))
         else next r w g)"

section \<open>Rate limiting\<close>

definition RateLimit :: "nat \<Rightarrow> string \<Rightarrow> Middleware" where
  "RateLimit n routePath next r w g =
     (let key = Extract r
      in case InMemoryStore_Allow (float_impl g) (clock g LimitNow) key (stores g n) of
           (decision, store) \<Rightarrow>
             (let g = g\<lparr>stores := (stores g)(n := store)\<rparr>;
                  w = set_header ''X-RateLimit-Limit'' (Itoa (Limit decision)) w;
                  w = set_header ''X-RateLimit-Remaining'' (Itoa (Remaining decision)) w;
                  w = set_header ''X-RateLimit-Reset'' (Itoa (Time_Unix (ResetAt decision))) w
              in if \<not> Allowed decision then
                   (let secs = retryAfterSecs (float_impl g) decision;
                        w = set_header ''Retry-After'' (Itoa secs) w;
                        g = metric_to RateLimitRejections [routePath, key] Inc g;
                        g = log_to LevelWarn ''rate limit exceeded''
                          [(''client_ip'', AString key), (''route'', AString routePath),
                           (''retry_after'', ADuration (RetryAfter decision))] g
                    in (Returned,
                        respond_json 429 (error_json [(''code'', JString ''RATE_LIMITED''),
                          (''message'', JString ''rate limit exceeded''), (''retry_after_seconds'', JInt secs)]) g w,
                        g))
                 else next r w g))"

section \<open>Circuit breaking\<close>

text \<open>
  The function handed to \<open>Execute\<close>: the next handler under a status-capturing writer. A
  status of 500 or more is a failure. The request carries the same context.
\<close>

definition protected :: "handler \<Rightarrow> Request \<Rightarrow> writer \<times> World \<Rightarrow> FnResult \<times> writer \<times> World" where
  "protected next r = (\<lambda>(w, g).
     (case next r (newResponseWriter w) g of
        (Panicked p, w, g) \<Rightarrow> (FnPanic p, unwrap w, g)
      | (Returned, w, g) \<Rightarrow>
          (let code = statusCode (wrapper w)
           in (if code \<ge> 500 then FnReturn (Some (FnError (''upstream returned '' @ Itoa code))) else FnReturn None,
               unwrap w, g))))"

definition CircuitBreak :: "nat \<Rightarrow> string \<Rightarrow> Middleware" where
  "CircuitBreak n routePath next r w g =
     (let g = metric_to CircuitBreakerState [routePath] (SetTo (float64_of_int (State_int (state (breakers g n))))) g
      in case Execute (clock g BreakBefore, clock g BreakBefore2) (clock g BreakAfter, clock g BreakAfter2)
             (protected next r) (breakers g n) (w, g) of
           (res, cb, w, g) \<Rightarrow>
             (let g = g\<lparr>breakers := (breakers g)(n := cb)\<rparr>
              in case res of
                   FnPanic p \<Rightarrow> (Panicked p, w, g)
                 | FnReturn err \<Rightarrow>
                     (Returned,
                      if err = Some ErrCircuitOpen then
                        respond_json 503 (error_json [(''code'', JString ''SERVICE_UNAVAILABLE''),
                          (''message'', JString ''service temporarily unavailable, please try again later'')]) g w
                      else w,
                      g)))"

end
