(* ===== verification/Proxy.thy ===== *)
theory Proxy
  imports Middleware
begin

text \<open>
  The proxy, \<open>internal/proxy/handler.go\<close> and \<open>transport.go\<close>, with the part of
  \<open>httputil.ReverseProxy\<close> it uses: the director is applied to a copy of the request, the client
  address is appended to \<open>X-Forwarded-For\<close>, informational responses are passed on as they
  come, the headers of the answer are added to those already set, and a body that breaks off
  ends in a panic with \<open>http.ErrAbortHandler\<close>. An answer that switches protocols goes to the
  error handler, since the writers of the gateway cannot be hijacked.
\<close>

section \<open>Transport\<close>

record TransportConfig =
  tcMaxIdleConns :: int
  tcMaxIdleConnsPerHost :: int
  tcIdleConnTimeout :: Duration
  tcTLSHandshakeTimeout :: Duration
  tcResponseTimeout :: Duration
  tcInsecureSkipVerify :: bool

definition DefaultTransportConfig :: TransportConfig where
  "DefaultTransportConfig = \<lparr>tcMaxIdleConns = 100, tcMaxIdleConnsPerHost = 10,
     tcIdleConnTimeout = 90 * time_Second, tcTLSHandshakeTimeout = 10 * time_Second,
     tcResponseTimeout = 30 * time_Second, tcInsecureSkipVerify = False\<rparr>"

record Transport =
  trDialTimeout :: Duration
  trKeepAlive :: Duration
  trMaxIdleConns :: int
  trMaxIdleConnsPerHost :: int
  trIdleConnTimeout :: Duration
  trTLSHandshakeTimeout :: Duration
  trResponseHeaderTimeout :: Duration
  trInsecureSkipVerify :: bool
  trForceAttemptHTTP2 :: bool

definition NewTransport :: "TransportConfig \<Rightarrow> Transport" where
  "NewTransport cfg = \<lparr>trDialTimeout = 30 * time_Second, trKeepAlive = 30 * time_Second,
     trMaxIdleConns = tcMaxIdleConns cfg, trMaxIdleConnsPerHost = tcMaxIdleConnsPerHost cfg,
     trIdleConnTimeout = tcIdleConnTimeout cfg, trTLSHandshakeTimeout = tcTLSHandshakeTimeout cfg,
     trResponseHeaderTimeout = tcResponseTimeout cfg, trInsecureSkipVerify = tcInsecureSkipVerify cfg,
     trForceAttemptHTTP2 = True\<rparr>"

section \<open>The handler\<close>

text \<open>\<open>hBalancer\<close> is the number of the route's balancer in the state.\<close>

record Handler =
  hBalancer :: nat
  hRoute :: RouteConfig
  hTransport :: Transport

definition NewHandler :: "nat \<Rightarrow> RouteConfig \<Rightarrow> Handler" where
  "NewHandler n rc = \<lparr>hBalancer = n, hRoute = rc, hTransport = NewTransport DefaultTransportConfig\<rparr>"

definition stripPrefix :: "string \<Rightarrow> string \<Rightarrow> string" where
  "stripPrefix path prefix =
     (let p = TrimPrefix path prefix
      in if p = [] then ''/'' else if \<not> HasPrefix p ''/'' then ''/'' @ p else p)"

definition schemeFromRequest :: "Request \<Rightarrow> string" where
  "schemeFromRequest r = (if TLS r then ''https'' else ''http'')"

definition req_set :: "string \<Rightarrow> string \<Rightarrow> Request \<Rightarrow> Request" where
  "req_set k v r = r\<lparr>ReqHeader := Header_Set k v (ReqHeader r)\<rparr>"

definition director :: "RouteConfig \<Rightarrow> URL \<Rightarrow> Request \<Rightarrow> Request" where
  "director rc target req =
     (let req = req\<lparr>URL_Scheme := Scheme target, URL_Host := Host target, ReqHost := Host target\<rparr>;
          req = (if rcStripPrefix rc then req\<lparr>URL_Path := stripPrefix (URL_Path req) (rcPath rc)\<rparr> else req);
          clientIP = Header_Get (ReqHeader req) ''X-Forwarded-For'';
          req = (if clientIP \<noteq> [] then req_set ''X-Forwarded-For'' clientIP req
                 else req_set ''X-Forwarded-For'' (RemoteAddr req) req);
          req = req_set ''X-Forwarded-Host'' (ReqHost req) req;
          req = req_set ''X-Forwarded-Proto'' (schemeFromRequest req) req;
          reqID = GetRequestID (ReqContext req)
      in if reqID \<noteq> [] then req_set ''X-Request-ID'' reqID req else req)"

definition bad_gateway :: "string \<Rightarrow> World \<Rightarrow> writer \<Rightarrow> writer" where
  "bad_gateway message g w =
     respond_json 502 (error_json [(''code'', JString ''BAD_GATEWAY''), (''message'', JString message)]) g w"

definition ErrorHandler :: "RouteConfig \<Rightarrow> URL \<Rightarrow> string \<Rightarrow> writer \<Rightarrow> World \<Rightarrow> writer \<times> World" where
  "ErrorHandler rc target err w g =
     (let g = log_to LevelError ''upstream request failed''
        [(''target'', AString (URL_String target)), (''route'', AString (rcPath rc)), (''error'', AString err)] g
      in (bad_gateway ''upstream request failed'' g w, g))"

section \<open>The reverse proxy of the library\<close>

definition add_headers :: "Header \<Rightarrow> Header \<Rightarrow> Header" where
  "add_headers src dst = (\<lambda>k. case src k of
       None \<Rightarrow> dst k
     | Some vs \<Rightarrow> if vs = [] then dst k else Some ((case dst k of None \<Rightarrow> [] | Some us \<Rightarrow> us) @ vs))"

definition append_client :: "string \<Rightarrow> Header \<Rightarrow> Header" where
  "append_client addr h =
     (case SplitHostPort addr of
        None \<Rightarrow> h
      | Some (ip, _) \<Rightarrow>
          (case h ''X-Forwarded-For'' of
             None \<Rightarrow> Header_Set ''X-Forwarded-For'' ip h
           | Some prior \<Rightarrow> Header_Set ''X-Forwarded-For''
               (if prior \<noteq> [] then Join prior '', '' @ '', '' @ ip else ip) h))"

definition out_request :: "RouteConfig \<Rightarrow> URL \<Rightarrow> (Header \<Rightarrow> Header) \<Rightarrow> Request \<Rightarrow> Request" where
  "out_request rc target strip r =
     (let out = director rc target r;
          h = append_client (RemoteAddr r) (strip (ReqHeader out))
      in out\<lparr>ReqHeader := (if h ''User-Agent'' = None then Header_Set ''User-Agent'' [] h else h)\<rparr>)"

fun pass_interim :: "(int \<times> Header) list \<Rightarrow> writer \<Rightarrow> outcome \<times> writer" where
  "pass_interim [] w = (Returned, w)"
| "pass_interim ((code, h) # xs) w =
     (case WriteHeader code (on_header (add_headers h) w) of
        (Panicked p, w) \<Rightarrow> (Panicked p, w)
      | (Returned, w) \<Rightarrow> pass_interim xs (on_header (\<lambda>_. Map.empty) w))"

definition ErrAbortHandler :: string where
  "ErrAbortHandler = ''net/http: abort Handler''"

definition ReverseProxy :: "RouteConfig \<Rightarrow> URL \<Rightarrow> handler" where
  "ReverseProxy rc target r w g =
     (let out = out_request rc target (strip_hop g) r;
          g = g\<lparr>upstream_requests := upstream_requests g @ [out]\<rparr>
      in case round_trip g out of
           RTError err \<Rightarrow> (case ErrorHandler rc target err w g of (w, g) \<Rightarrow> (Returned, w, g))
         | RTResponse ints code h body whole \<Rightarrow>
             (case pass_interim ints w of
                (Panicked p, w) \<Rightarrow> (Panicked p, w, g)
              | (Returned, w) \<Rightarrow>
                  if code = 101
                  then (case ErrorHandler rc target ''cannot switch protocols'' w g of (w, g) \<Rightarrow> (Returned, w, g))
                  else
                    (case WriteHeader code (on_header (add_headers (strip_hop g h)) w) of
                       (Panicked p, w) \<Rightarrow> (Panicked p, w, g)
                     | (Returned, w) \<Rightarrow>
                         (let w = snd (Write body w)
                          in if whole then (Returned, w, g) else (Panicked ErrAbortHandler, w, g)))))"

section \<open>Serving\<close>

definition with_timeout :: "Duration \<Rightarrow> Time \<Rightarrow> Request \<Rightarrow> Request" where
  "with_timeout d now r = r\<lparr>ReqDeadline := (case ReqDeadline r of
       None \<Rightarrow> Some (Time_Add now d) | Some t \<Rightarrow> Some (min t (Time_Add now d)))\<rparr>"

definition ServeHTTP :: "Handler \<Rightarrow> handler" where
  "ServeHTTP h r w g =
     (case Next (balancers g (hBalancer h)) of
        (res, bal) \<Rightarrow>
          (let g = g\<lparr>balancers := (balancers g)(hBalancer h := bal)\<rparr>
           in case res of
                Inl err \<Rightarrow>
                  (let g = log_to LevelError ''no healthy upstream targets''
                     [(''route'', AString (rcPath (hRoute h))),
                      (''error'', AString ''no healthy upstream targets available'')] g
                   in (Returned, bad_gateway ''no healthy upstream targets available'' g w, g))
              | Inr target \<Rightarrow>
                  (let r = WithContext (WithUpstreamTarget (ReqContext r) (URL_String target)) r;
                       r = (if rcTimeout (hRoute h) > 0
                            then with_timeout (rcTimeout (hRoute h)) (clock g ProxyNow) r else r)
                   in ReverseProxy (hRoute h) target r w g)))"

end
