(* ===== verification/Request_Path.thy ===== *)
theory Request_Path
  imports Proxy
begin

text \<open>
  What happens to a request on its way through the middleware to the upstream: which requests
  are answered by the gateway itself, what the client and the upstream are told, and what the
  breaker, the log and the metrics get to see.
\<close>

section \<open>Responses of the gateway itself\<close>

lemma respond_json_base:
  assumes "\<not> wroteHeader (base_of w)" and "200 \<le> code" and "code \<le> 999"
  shows "rsStatus (base_of (respond_json code j g w)) = code"
    and "wroteHeader (base_of (respond_json code j g w))"
    and "sentHeader (base_of (respond_json code j g w))
           = Header_Set ''Content-Type'' ''application/json'' (header_of w)"
  using assms
  by (simp_all add: respond_json_def writer_base header_of_base resp_WriteHeader_def resp_Write_def Let_def)

lemma header_of_set [simp]: "header_of (set_header k v w) = Header_Set k v (header_of w)"
  by (simp add: header_of_base set_header_base)

lemma wroteHeader_set [simp]: "wroteHeader (base_of (set_header k v w)) = wroteHeader (base_of w)"
  by (simp add: set_header_base)

lemma world_frames [simp]:
  "stores (log_to l m as g) = stores g" "breakers (log_to l m as g) = breakers g"
  "balancers (log_to l m as g) = balancers g" "upstream_requests (log_to l m as g) = upstream_requests g"
  "float_impl (log_to l m as g) = float_impl g" "clock (log_to l m as g) = clock g"
  "metric_calls (log_to l m as g) = metric_calls g" "json_uni (log_to l m as g) = json_uni g"
  "stores (metric_to x vs p g) = stores g" "breakers (metric_to x vs p g) = breakers g"
  "balancers (metric_to x vs p g) = balancers g" "upstream_requests (metric_to x vs p g) = upstream_requests g"
  "float_impl (metric_to x vs p g) = float_impl g" "clock (metric_to x vs p g) = clock g"
  "logs (metric_to x vs p g) = logs g" "uuid (metric_to x vs p g) = uuid g"
  by (simp_all add: log_to_def metric_to_def)

lemma canonical_keys:
  "CanonicalHeaderKey ''Retry-After'' = ''Retry-After''"
  "CanonicalHeaderKey ''Content-Type'' = ''Content-Type''"
  "CanonicalHeaderKey ''X-RateLimit-Limit'' = ''X-Ratelimit-Limit''"
  "CanonicalHeaderKey ''X-RateLimit-Remaining'' = ''X-Ratelimit-Remaining''"
  "CanonicalHeaderKey ''X-RateLimit-Reset'' = ''X-Ratelimit-Reset''"
  "CanonicalHeaderKey ''X-Request-ID'' = ''X-Request-Id''"
  "CanonicalHeaderKey ''X-Forwarded-For'' = ''X-Forwarded-For''"
  "CanonicalHeaderKey ''X-Forwarded-Host'' = ''X-Forwarded-Host''"
  "CanonicalHeaderKey ''X-Forwarded-Proto'' = ''X-Forwarded-Proto''"
  "CanonicalHeaderKey ''User-Agent'' = ''User-Agent''"
  "CanonicalHeaderKey ''Origin'' = ''Origin''"
  "CanonicalHeaderKey ''Access-Control-Allow-Origin'' = ''Access-Control-Allow-Origin''"
  "CanonicalHeaderKey ''Access-Control-Allow-Methods'' = ''Access-Control-Allow-Methods''"
  "CanonicalHeaderKey ''Access-Control-Allow-Headers'' = ''Access-Control-Allow-Headers''"
  "CanonicalHeaderKey ''Access-Control-Max-Age'' = ''Access-Control-Max-Age''"
  "CanonicalHeaderKey ''Access-Control-Allow-Credentials'' = ''Access-Control-Allow-Credentials''"
  by (code_simp)+

section \<open>Relations kept by every handler\<close>

text \<open>
  A relation between the state before and after a request is kept by the whole stack of
  middleware when the elementary effects keep it and when the metrics middleware, which brackets
  the rest between an increment and a decrement, does.
\<close>

locale handler_relation =
  fixes R :: "World \<Rightarrow> World \<Rightarrow> bool"
  assumes R_refl: "R g g"
    and R_trans: "R a b \<Longrightarrow> R b c \<Longrightarrow> R a c"
    and R_log: "R g (log_to l m as g)"
    and R_total: "R g (metric_to HTTPRequestsTotal [x, y, z] Inc g)"
    and R_duration: "R g (metric_to HTTPRequestDuration [x, y] (Observe v) g)"
    and R_rejection: "R g (metric_to RateLimitRejections [x, y] Inc g)"
    and R_state: "R g (metric_to CircuitBreakerState [x] (SetTo v) g)"
    and R_active: "R (metric_to HTTPActiveRequests [x, y] Inc g) g' \<Longrightarrow>
          R g (metric_to HTTPActiveRequests [x, y] Dec g')"
    and R_stores: "R g (g\<lparr>stores := f\<rparr>)"
    and R_breakers: "R g (g\<lparr>breakers := f'\<rparr>)"
    and R_balancers: "R g (g\<lparr>balancers := (balancers g)(n := snd (Next (balancers g n)))\<rparr>)"
    and R_upstream: "R g (g\<lparr>upstream_requests := rs\<rparr>)"
begin

definition keeps :: "handler \<Rightarrow> bool" where
  "keeps h \<longleftrightarrow> (\<forall>r w g. R g (snd (snd (h r w g))))"

lemma keepsD: "keeps h \<Longrightarrow> h r w g = (out, w', g') \<Longrightarrow> R g g'"
  unfolding keeps_def by (metis snd_conv)

lemma keepsI: "(\<And>r w g out w' g'. h r w g = (out, w', g') \<Longrightarrow> R g g') \<Longrightarrow> keeps h"
  unfolding keeps_def by (metis prod.collapse)

text \<open>The laws as steps at the end of a run.\<close>

lemma R_after:
  "R g g' \<Longrightarrow> R g (log_to l m as g')"
  "R g g' \<Longrightarrow> R g (metric_to HTTPRequestsTotal [x, y, z] Inc g')"
  "R g g' \<Longrightarrow> R g (metric_to HTTPRequestDuration [x, y] (Observe v) g')"
  "R g g' \<Longrightarrow> R g (metric_to RateLimitRejections [x, y] Inc g')"
  "R g g' \<Longrightarrow> R g (g'\<lparr>breakers := f\<rparr>)"
  using R_log R_total R_duration R_rejection R_breakers R_trans by blast+

lemma keeps_Recovery:
  assumes "keeps h"
  shows "keeps (Recovery h)"
proof (rule keepsI)
  fix r w g out w' g'
  assume run: "Recovery h r w g = (out, w', g')"
  obtain o1 w1 g1 where h: "h r w g = (o1, w1, g1)" by (metis prod_cases3)
  then have "R g g1" using keepsD [OF assms] by blast
  then show "R g g'" using run h by (cases o1) (auto simp: Recovery_def Let_def intro: R_after)
qed

lemma keeps_RequestID:
  assumes "keeps h"
  shows "keeps (RequestID h)"
  using assms by (auto simp: keeps_def RequestID_def Let_def R_refl split: sum.splits)

lemma keeps_Logging:
  assumes "keeps h"
  shows "keeps (Logging_mw h)"
proof (rule keepsI)
  fix r w g out w' g'
  assume run: "Logging_mw h r w g = (out, w', g')"
  obtain o1 w1 g1 where h: "h r (newResponseWriter w) g = (o1, w1, g1)" by (metis prod_cases3)
  then have "R g g1" using keepsD [OF assms] by blast
  then show "R g g'" using run h by (cases o1) (auto simp: Logging_mw_def Let_def intro: R_after)
qed

lemma keeps_Metrics:
  assumes "keeps h"
  shows "keeps (Metrics_mw path h)"
proof (rule keepsI)
  fix r w g out w' g'
  assume run: "Metrics_mw path h r w g = (out, w', g')"
  let ?g = "metric_to HTTPActiveRequests [Method r, path] Inc g"
  obtain o1 w1 g1 where h: "h r (newResponseWriter w) ?g = (o1, w1, g1)" by (metis prod_cases3)
  then have "R ?g g1" using keepsD [OF assms] by blast
  then show "R g g'"
    using run h by (cases o1) (auto simp: Metrics_mw_def Let_def intro!: R_active intro: R_after)
qed

lemma keeps_CORS:
  assumes "keeps h"
  shows "keeps (CORS_mw cfg h)"
proof (rule keepsI)
  fix r w g out w' g'
  assume "CORS_mw cfg h r w g = (out, w', g')"
  then show "R g g'"
    using keepsD [OF assms] R_refl by (simp add: CORS_mw_def Let_def split: prod.splits if_splits)
qed

lemma keeps_RateLimit:
  assumes "keeps h"
  shows "keeps (RateLimit n path h)"
proof (rule keepsI)
  fix r w g out w' g'
  assume run: "RateLimit n path h r w g = (out, w', g')"
  obtain d s where d: "InMemoryStore_Allow (float_impl g) (clock g LimitNow) (Extract r) (stores g n) = (d, s)"
    by (metis prod.exhaust)
  let ?g = "g\<lparr>stores := (stores g)(n := s)\<rparr>"
  show "R g g'"
  proof (cases "Allowed d")
    case True
    then obtain v where "h r v ?g = (out, w', g')" using run d by (simp add: RateLimit_def Let_def)
    then have "R ?g g'" by (rule keepsD [OF assms])
    then show ?thesis using R_trans R_stores by blast
  next
    case False
    then show ?thesis using run d R_stores by (auto simp: RateLimit_def Let_def intro!: R_after)
  qed
qed

lemma keeps_protected:
  assumes "keeps h" and "protected h r (w, g) = (res, w', g')"
  shows "R g g'"
proof -
  obtain o1 w1 g1 where h: "h r (newResponseWriter w) g = (o1, w1, g1)" by (metis prod_cases3)
  then show ?thesis
    using assms(2) keepsD [OF assms(1) h] by (cases o1) (auto simp: protected_def Let_def)
qed

lemma keeps_CircuitBreak:
  assumes "keeps h"
  shows "keeps (CircuitBreak n path h)"
proof (rule keepsI)
  fix r w g out w' g'
  assume run: "CircuitBreak n path h r w g = (out, w', g')"
  define g1 where "g1 = metric_to CircuitBreakerState [path] (SetTo (float64_of_int (State_int (state (breakers g n))))) g"
  obtain res cb w2 g2 where E: "Execute (clock g1 BreakBefore, clock g1 BreakBefore2) (clock g1 BreakAfter, clock g1 BreakAfter2)
      (protected h r) (breakers g1 n) (w, g1) = (res, cb, w2, g2)"
    by (metis prod_cases4)
  have "R g1 g2"
    using E keeps_protected [OF assms, of r w g1] R_refl
    by (auto simp: Execute_def Let_def split: prod.splits option.splits FnResult.splits)
  then have "R g g2" using R_state R_trans unfolding g1_def by blast
  moreover have "g' = g2\<lparr>breakers := (breakers g2)(n := cb)\<rparr>"
    using run E by (auto simp: CircuitBreak_def Let_def g1_def split: FnResult.splits)
  ultimately show "R g g'" by (simp add: R_after)
qed

lemma keeps_ErrorHandler: "ErrorHandler rc target err w g = (w', g') \<Longrightarrow> R g g'"
  by (auto simp: ErrorHandler_def Let_def R_log)

lemma keeps_ReverseProxy: "keeps (ReverseProxy rc target)"
proof (rule keepsI)
  fix r w g out w' g'
  assume run: "ReverseProxy rc target r w g = (out, w', g')"
  let ?o = "out_request rc target (strip_hop g) r"
  let ?g = "g\<lparr>upstream_requests := upstream_requests g @ [?o]\<rparr>"
  have "?g = g' \<or> R ?g g'"
    using run
    by (auto simp: ReverseProxy_def Let_def split: upstream_result.splits prod.splits outcome.splits if_splits
        dest: keeps_ErrorHandler)
  then show "R g g'" using R_upstream R_trans by blast
qed

lemma keeps_proxy: "keeps (ServeHTTP h)"
proof (rule keepsI)
  fix r w g out w' g'
  assume run: "ServeHTTP h r w g = (out, w', g')"
  obtain res bal where N: "Next (balancers g (hBalancer h)) = (res, bal)" by (metis prod.exhaust)
  let ?g = "g\<lparr>balancers := (balancers g)(hBalancer h := bal)\<rparr>"
  have "R ?g g'"
  proof (cases res)
    case (Inl e)
    then show ?thesis using run N by (auto simp: ServeHTTP_def Let_def R_log)
  next
    case (Inr target)
    then obtain q where "ReverseProxy (hRoute h) target q w ?g = (out, w', g')"
      using run N by (simp add: ServeHTTP_def Let_def)
    then show ?thesis by (rule keepsD [OF keeps_ReverseProxy])
  qed
  moreover have "R g ?g" using R_balancers [of g "hBalancer h"] N by simp
  ultimately show "R g g'" using R_trans by blast
qed

end

section \<open>The handler of a route\<close>

text \<open>Steps 3 to 5 of the loop in \<open>BuildRouter\<close>: the middleware of a route around its proxy.\<close>

definition route_chain :: "CORSConfig \<Rightarrow> nat \<Rightarrow> RouteConfig \<Rightarrow> Middleware list" where
  "route_chain cors n rc =
     [Recovery, RequestID, Logging_mw, Metrics_mw (rcPath rc), CORS_mw cors]
     @ (case rcRateLimit rc of None \<Rightarrow> [] | Some _ \<Rightarrow> [RateLimit n (rcPath rc)])
     @ (case rcCircuitBreaker rc of None \<Rightarrow> [] | Some _ \<Rightarrow> [CircuitBreak n (rcPath rc)])"

definition route_handler :: "CORSConfig \<Rightarrow> nat \<Rightarrow> RouteConfig \<Rightarrow> handler" where
  "route_handler cors n rc = Chain (route_chain cors n rc) (ServeHTTP (NewHandler n rc))"

context handler_relation
begin

lemma keeps_route: "keeps (route_handler cors n rc)"
proof -
  have "keeps (Chain (case rcCircuitBreaker rc of None \<Rightarrow> [] | Some _ \<Rightarrow> [CircuitBreak n (rcPath rc)])
      (ServeHTTP (NewHandler n rc)))"
    by (cases "rcCircuitBreaker rc") (auto intro: keeps_CircuitBreak keeps_proxy)
  then have "keeps (Chain ((case rcRateLimit rc of None \<Rightarrow> [] | Some _ \<Rightarrow> [RateLimit n (rcPath rc)])
      @ (case rcCircuitBreaker rc of None \<Rightarrow> [] | Some _ \<Rightarrow> [CircuitBreak n (rcPath rc)])) (ServeHTTP (NewHandler n rc)))"
    by (cases "rcRateLimit rc") (auto simp: Chain_append intro: keeps_RateLimit)
  then show ?thesis
    unfolding route_handler_def route_chain_def
    by (simp add: keeps_Recovery keeps_RequestID keeps_Logging keeps_Metrics keeps_CORS)
qed

end

text \<open>The value a gauge has after a sequence of metric calls.\<close>

definition op_delta :: "metric_op \<Rightarrow> int" where
  "op_delta p = (case p of Inc \<Rightarrow> 1 | Dec \<Rightarrow> -1 | _ \<Rightarrow> 0)"

definition gauge :: "metric \<Rightarrow> string list \<Rightarrow> metric_call list \<Rightarrow> int" where
  "gauge m vs cs = sum_list (map (\<lambda>c. if mcMetric c = m \<and> mcValues c = vs then op_delta (mcOp c) else 0) cs)"

definition same_active :: "World \<Rightarrow> World \<Rightarrow> bool" where
  "same_active g g' \<longleftrightarrow> (\<forall>vs. gauge HTTPActiveRequests vs (metric_calls g') = gauge HTTPActiveRequests vs (metric_calls g))"

definition labels_kept :: "World \<Rightarrow> World \<Rightarrow> bool" where
  "labels_kept g g' \<longleftrightarrow> (\<exists>cs. metric_calls g' = metric_calls g @ cs \<and> list_all label_ok cs)"

lemma gauge_metric_to:
  "gauge m vs (metric_calls (metric_to m' vs' p g)) =
     gauge m vs (metric_calls g) + (if m' = m \<and> vs' = vs then op_delta p else 0)"
  by (simp add: gauge_def metric_to_def call_metric_def)

interpretation active: handler_relation same_active
proof unfold_locales
  fix x y g g'
  assume "same_active (metric_to HTTPActiveRequests [x, y] Inc g) g'"
  then show "same_active g (metric_to HTTPActiveRequests [x, y] Dec g')"
    by (auto simp: same_active_def gauge_metric_to op_delta_def)
qed (simp_all add: same_active_def gauge_metric_to metric_defs log_to_def)

lemma labels_kept_metric:
  "labels_kept g g' \<Longrightarrow> length vs = length (mLabels m) \<Longrightarrow> labels_kept g (metric_to m vs p g')"
  by (auto simp: labels_kept_def metric_to_def call_metric_def label_ok_def)

lemma labels_kept_refl: "labels_kept g g"
  by (simp add: labels_kept_def)

lemma labels_kept_trans: "labels_kept a b \<Longrightarrow> labels_kept b c \<Longrightarrow> labels_kept a c"
  by (auto simp: labels_kept_def)

interpretation labels: handler_relation labels_kept
proof unfold_locales
  fix x y g g'
  assume "labels_kept (metric_to HTTPActiveRequests [x, y] Inc g) g'"
  moreover have "labels_kept g (metric_to HTTPActiveRequests [x, y] Inc g)"
    by (rule labels_kept_metric [OF labels_kept_refl]) (simp add: metric_defs)
  ultimately have "labels_kept g g'" using labels_kept_trans by blast
  then show "labels_kept g (metric_to HTTPActiveRequests [x, y] Dec g')"
    by (rule labels_kept_metric) (simp add: metric_defs)
next
  show "labels_kept a c" if "labels_kept a b" "labels_kept b c" for a b c
    using that by (rule labels_kept_trans)
qed (auto intro!: labels_kept_metric labels_kept_refl simp: metric_defs,
     (simp add: labels_kept_def log_to_def)+)

lemma Recovery_returns: "fst (Recovery h r w g) = Returned"
  by (auto simp: Recovery_def Let_def split: prod.splits outcome.splits)

text \<open>A middleware that only brackets the state lets the panic through to recovery.\<close>

lemma route_handler_Recovery:
  "\<exists>h. route_handler cors n rc = Recovery h"
  by (simp add: route_handler_def route_chain_def) blast

section \<open>What reaches the upstream\<close>

text \<open>The balancers stay well-formed and keep their targets.\<close>

definition balancers_kept :: "World \<Rightarrow> World \<Rightarrow> bool" where
  "balancers_kept g g' \<longleftrightarrow> (\<forall>n. bal_wf (balancers g n) \<longrightarrow>
     bal_wf (balancers g' n) \<and> Targets (balancers g' n) = Targets (balancers g n))"

interpretation kept: handler_relation balancers_kept
proof unfold_locales
  show "balancers_kept a c" if "balancers_kept a b" "balancers_kept b c" for a b c
    using that by (simp add: balancers_kept_def)
qed (simp_all add: balancers_kept_def log_to_def metric_to_def bal.wf_Next bal.Targets_Next)

text \<open>
  A handler forwards a request at most once: either nothing is handed to the transport, or one
  request, made from the given one for the target the route's balancer chose.
\<close>

definition forwarded :: "RouteConfig \<Rightarrow> URL \<Rightarrow> World \<Rightarrow> Request \<Rightarrow> Request \<Rightarrow> bool" where
  "forwarded rc t g r q \<longleftrightarrow> (\<exists>d. q = out_request rc t (strip_hop g)
     (r\<lparr>ReqContext := WithUpstreamTarget (ReqContext r) (URL_String t), ReqDeadline := d\<rparr>))"

definition sends :: "nat \<Rightarrow> RouteConfig \<Rightarrow> Request \<Rightarrow> World \<Rightarrow> World \<Rightarrow> bool" where
  "sends n rc r g g' \<longleftrightarrow> upstream_requests g' = upstream_requests g \<or>
     (\<exists>t q. upstream_requests g' = upstream_requests g @ [q] \<and> fst (Next (balancers g n)) = Inr t
        \<and> forwarded rc t g r q)"

definition forwards :: "nat \<Rightarrow> RouteConfig \<Rightarrow> handler \<Rightarrow> bool" where
  "forwards n rc h \<longleftrightarrow> (\<forall>r w g out w' g'. h r w g = (out, w', g') \<longrightarrow> sends n rc r g g')"

lemma forwardsD: "forwards n rc h \<Longrightarrow> h r w g = (out, w', g') \<Longrightarrow> sends n rc r g g'"
  by (auto simp: forwards_def)

lemma sends_cong:
  assumes "sends n rc r g1 g2" and "upstream_requests g1 = upstream_requests g"
    and "balancers g1 = balancers g" and "strip_hop g1 = strip_hop g"
    and "upstream_requests g' = upstream_requests g2"
  shows "sends n rc r g g'"
  using assms by (auto simp: sends_def forwarded_def)

lemma strip_hop_frames [simp]:
  "strip_hop (log_to l m as g) = strip_hop g" "strip_hop (metric_to x vs p g) = strip_hop g"
  by (simp_all add: log_to_def metric_to_def)

lemma sends_none: "upstream_requests g' = upstream_requests g \<Longrightarrow> sends n rc r g g'"
  by (simp add: sends_def)

lemma forwards_Logging:
  assumes "forwards n rc h"
  shows "forwards n rc (Logging_mw h)"
  unfolding forwards_def
proof (intro allI impI)
  fix r w g out w' g'
  assume run: "Logging_mw h r w g = (out, w', g')"
  obtain o1 w1 g1 where h: "h r (newResponseWriter w) g = (o1, w1, g1)" by (metis prod_cases3)
  have "upstream_requests g' = upstream_requests g1"
    using run h by (cases o1) (auto simp: Logging_mw_def Let_def)
  then show "sends n rc r g g'" by (rule sends_cong [OF forwardsD [OF assms h], rotated 3]) simp_all
qed

lemma forwards_Metrics:
  assumes "forwards n rc h"
  shows "forwards n rc (Metrics_mw path h)"
  unfolding forwards_def
proof (intro allI impI)
  fix r w g out w' g'
  assume run: "Metrics_mw path h r w g = (out, w', g')"
  let ?g = "metric_to HTTPActiveRequests [Method r, path] Inc g"
  obtain o1 w1 g1 where h: "h r (newResponseWriter w) ?g = (o1, w1, g1)" by (metis prod_cases3)
  have "upstream_requests g' = upstream_requests g1"
    using run h by (cases o1) (auto simp: Metrics_mw_def Let_def)
  then show "sends n rc r g g'" by (rule sends_cong [OF forwardsD [OF assms h], rotated 3]) simp_all
qed

lemma forwards_CORS: "forwards n rc h \<Longrightarrow> forwards n rc (CORS_mw cfg h)"
  by (auto simp: forwards_def CORS_mw_def Let_def sends_none split: prod.splits)

lemma forwards_RateLimit:
  assumes "forwards n rc h"
  shows "forwards n rc (RateLimit m path h)"
  unfolding forwards_def
proof (intro allI impI)
  fix r w g out w' g'
  assume run: "RateLimit m path h r w g = (out, w', g')"
  obtain d s where d: "InMemoryStore_Allow (float_impl g) (clock g LimitNow) (Extract r) (stores g m) = (d, s)"
    by (metis prod.exhaust)
  show "sends n rc r g g'"
  proof (cases "Allowed d")
    case True
    then obtain v where "h r v (g\<lparr>stores := (stores g)(m := s)\<rparr>) = (out, w', g')"
      using run d by (simp add: RateLimit_def Let_def)
    from forwardsD [OF assms this] show ?thesis by (rule sends_cong) simp_all
  next
    case False
    then show ?thesis using run d by (auto simp: RateLimit_def Let_def intro: sends_none)
  qed
qed

lemma forwards_CircuitBreak:
  assumes "forwards n rc h"
  shows "forwards n rc (CircuitBreak m path h)"
  unfolding forwards_def
proof (intro allI impI)
  fix r w g out w' g'
  assume run: "CircuitBreak m path h r w g = (out, w', g')"
  define g1 where "g1 = metric_to CircuitBreakerState [path] (SetTo (float64_of_int (State_int (state (breakers g m))))) g"
  obtain res cb w2 g2 where E: "Execute (clock g1 BreakBefore, clock g1 BreakBefore2) (clock g1 BreakAfter, clock g1 BreakAfter2)
      (protected h r) (breakers g1 m) (w, g1) = (res, cb, w2, g2)"
    by (metis prod_cases4)
  obtain o3 w3 g3 where h: "h r (newResponseWriter w) g1 = (o3, w3, g3)" by (metis prod_cases3)
  have "g2 = g1 \<or> g2 = g3"
    using E h by (cases o3) (auto simp: Execute_def protected_def Let_def split: prod.splits option.splits FnResult.splits if_splits)
  then have "sends n rc r g1 g2" using forwardsD [OF assms h] by (auto intro: sends_none)
  moreover have "upstream_requests g' = upstream_requests g2"
    using run E by (auto simp: CircuitBreak_def Let_def g1_def split: FnResult.splits)
  ultimately show "sends n rc r g g'" by (auto simp: g1_def intro: sends_cong)
qed

lemma ErrorHandler_sends: "ErrorHandler rc t e w g = (w', g') \<Longrightarrow> upstream_requests g' = upstream_requests g"
  by (auto simp: ErrorHandler_def Let_def)

lemma ReverseProxy_sends:
  "ReverseProxy rc t q w g = (out, w', g') \<Longrightarrow>
   upstream_requests g' = upstream_requests g @ [out_request rc t (strip_hop g) q]"
  by (auto simp: ReverseProxy_def Let_def dest: ErrorHandler_sends
      split: upstream_result.splits prod.splits outcome.splits if_splits)

lemma forwards_proxy: "forwards n rc (ServeHTTP (NewHandler n rc))"
  unfolding forwards_def
proof (intro allI impI)
  fix r w g out w' g'
  assume run: "ServeHTTP (NewHandler n rc) r w g = (out, w', g')"
  obtain res bal where N: "Next (balancers g n) = (res, bal)" by (metis prod.exhaust)
  let ?g = "g\<lparr>balancers := (balancers g)(n := bal)\<rparr>"
  show "sends n rc r g g'"
  proof (cases res)
    case (Inl e)
    then show ?thesis using run N by (auto simp: ServeHTTP_def NewHandler_def Let_def intro: sends_none)
  next
    case (Inr t)
    define q where "q = WithContext (WithUpstreamTarget (ReqContext r) (URL_String t)) r"
    define q' where "q' = (if rcTimeout rc > 0 then with_timeout (rcTimeout rc) (clock ?g ProxyNow) q else q)"
    have "ReverseProxy rc t q' w ?g = (out, w', g')"
      using run N Inr by (auto simp: ServeHTTP_def NewHandler_def Let_def q_def q'_def split: if_splits)
    then have "upstream_requests g' = upstream_requests g @ [out_request rc t (strip_hop g) q']"
      using ReverseProxy_sends [of rc t q' w ?g] by simp
    moreover have "\<exists>d. q' = r\<lparr>ReqContext := WithUpstreamTarget (ReqContext r) (URL_String t), ReqDeadline := d\<rparr>"
      by (auto simp: q'_def q_def with_timeout_def WithContext_def intro: exI [of _ "ReqDeadline r"])
    ultimately show ?thesis using N Inr by (auto simp: sends_def forwarded_def)
  qed
qed

section \<open>Properties\<close>


text \<open>
  C14. While the circuit is open and its timeout has not elapsed, the gateway answers 503 without
  calling the next handler, sends nothing upstream and leaves the breaker as it is.
\<close>

theorem open_circuit_not_forwarded:
  assumes "state (breakers g n) = StateOpen"
    and "Time_Sub (clock g BreakBefore) (lastStateChange (breakers g n)) \<le> ResetTimeout (config (breakers g n))"
    and "\<not> wroteHeader (base_of w)"
  shows "\<exists>w' g'. (\<forall>next. CircuitBreak n path next r w g = (Returned, w', g'))
     \<and> rsStatus (base_of w') = 503 \<and> upstream_requests g' = upstream_requests g \<and> breakers g' = breakers g"
proof -
  define g1 where "g1 = metric_to CircuitBreakerState [path] (SetTo (float64_of_int (State_int (state (breakers g n))))) g"
  define g2 where "g2 = g1\<lparr>breakers := (breakers g1)(n := breakers g n)\<rparr>"
  define w2 where "w2 = respond_json 503 (error_json [(''code'', JString ''SERVICE_UNAVAILABLE''),
    (''message'', JString ''service temporarily unavailable, please try again later'')]) g2 w"
  have "beforeRequest (clock g BreakBefore) (clock g BreakBefore2) (breakers g n) = (Some ErrCircuitOpen, breakers g n)"
    using assms(1,2) by (simp add: beforeRequest_def)
  then have "CircuitBreak n path next r w g = (Returned, w2, g2)" for "next"
    by (simp add: CircuitBreak_def Execute_def Let_def w2_def g2_def g1_def)
  moreover have "rsStatus (base_of w2) = 503" using respond_json_base(1) [OF assms(3), of 503] by (simp add: w2_def)
  moreover have "upstream_requests g2 = upstream_requests g" "breakers g2 = breakers g"
    by (simp_all add: g2_def g1_def)
  ultimately show ?thesis by blast
qed

text \<open>
  C24. Every request to a route is answered and accounted for, whatever the upstream does and
  whatever panics on the way: the handler of the route returns, the gauge of active requests has
  its old value for every label, and every metric call made has the number of label values its
  metric declares, so that none of them panics.
\<close>

theorem route_always_returns:
  "\<exists>w' g'. route_handler cors n rc r w g = (Returned, w', g')
     \<and> (\<forall>vs. gauge HTTPActiveRequests vs (metric_calls g') = gauge HTTPActiveRequests vs (metric_calls g))
     \<and> (\<exists>cs. metric_calls g' = metric_calls g @ cs \<and> list_all label_ok cs)"
proof -
  obtain out w' g' where run: "route_handler cors n rc r w g = (out, w', g')" by (metis prod_cases3)
  have "out = Returned"
    using run route_handler_Recovery [of cors n rc] Recovery_returns by (metis fst_conv)
  then show ?thesis
    using run active.keepsD [OF active.keeps_route run] labels.keepsD [OF labels.keeps_route run]
    by (auto simp: same_active_def labels_kept_def)
qed

lemma forwards_below_request_id:
  "forwards n rc (Logging_mw (Metrics_mw (rcPath rc) (CORS_mw cors
     (Chain ((case rcRateLimit rc of None \<Rightarrow> [] | Some _ \<Rightarrow> [RateLimit n (rcPath rc)])
        @ (case rcCircuitBreaker rc of None \<Rightarrow> [] | Some _ \<Rightarrow> [CircuitBreak n (rcPath rc)]))
      (ServeHTTP (NewHandler n rc))))))"
proof -
  have "forwards n rc (Chain (case rcCircuitBreaker rc of None \<Rightarrow> [] | Some _ \<Rightarrow> [CircuitBreak n (rcPath rc)])
      (ServeHTTP (NewHandler n rc)))"
    by (cases "rcCircuitBreaker rc") (auto intro: forwards_CircuitBreak forwards_proxy)
  then have "forwards n rc (Chain ((case rcRateLimit rc of None \<Rightarrow> [] | Some _ \<Rightarrow> [RateLimit n (rcPath rc)])
      @ (case rcCircuitBreaker rc of None \<Rightarrow> [] | Some _ \<Rightarrow> [CircuitBreak n (rcPath rc)])) (ServeHTTP (NewHandler n rc)))"
    by (cases "rcRateLimit rc") (auto simp: Chain_append intro: forwards_RateLimit)
  then show ?thesis by (intro forwards_Logging forwards_Metrics forwards_CORS)
qed

lemma Recovery_sends:
  assumes "Recovery h r w g = (out, w', g')" and "h r w g = (o1, w1, g1)"
  shows "upstream_requests g' = upstream_requests g1"
  using assms by (cases o1) (auto simp: Recovery_def Let_def)

text \<open>What the route does with a request, once its identifier is settled.\<close>

lemma route_sends:
  assumes "route_handler cors n rc r w g = (out, w', g')"
    and i: "(if Header_Get (ReqHeader r) requestIDHeader \<noteq> [] then Inr (Header_Get (ReqHeader r) requestIDHeader) else uuid g) = Inr i"
  shows "sends n rc (WithContext (WithRequestID (ReqContext r) i) r) g g'"
proof -
  define h where "h = Logging_mw (Metrics_mw (rcPath rc) (CORS_mw cors
     (Chain ((case rcRateLimit rc of None \<Rightarrow> [] | Some _ \<Rightarrow> [RateLimit n (rcPath rc)])
        @ (case rcCircuitBreaker rc of None \<Rightarrow> [] | Some _ \<Rightarrow> [CircuitBreak n (rcPath rc)]))
      (ServeHTTP (NewHandler n rc)))))"
  have f: "forwards n rc h" unfolding h_def by (rule forwards_below_request_id)
  have run: "Recovery (RequestID h) r w g = (out, w', g')"
    using assms(1) by (simp add: route_handler_def route_chain_def h_def)
  obtain o1 w1 g1 where h1: "RequestID h r w g = (o1, w1, g1)" by (metis prod_cases3)
  then have "h (WithContext (WithRequestID (ReqContext r) i) r) (set_header requestIDHeader i w) g = (o1, w1, g1)"
    using i by (simp add: RequestID_def)
  from forwardsD [OF f this] Recovery_sends [OF run h1] show ?thesis by (rule sends_cong [OF _ refl refl refl])
qed

text \<open>Without an identifier nothing is sent.\<close>

lemma route_sends_any:
  assumes "route_handler cors n rc r w g = (out, w', g')"
  shows "\<exists>i. sends n rc (WithContext (WithRequestID (ReqContext r) i) r) g g'"
proof (cases "if Header_Get (ReqHeader r) requestIDHeader \<noteq> [] then Inr (Header_Get (ReqHeader r) requestIDHeader) else uuid g")
  case (Inr i)
  then show ?thesis using route_sends [OF assms] by blast
next
  case (Inl err)
  obtain h where run: "Recovery (RequestID h) r w g = (out, w', g')"
    using assms by (simp add: route_handler_def route_chain_def)
  have "RequestID h r w g = (Panicked err, w, g)" using Inl by (simp add: RequestID_def)
  from Recovery_sends [OF run this] show ?thesis by (auto intro: sends_none)
qed

definition keeps_headers :: "(Header \<Rightarrow> Header) \<Rightarrow> bool" where
  "keeps_headers strip \<longleftrightarrow> (\<forall>h. strip h ''X-Request-Id'' = h ''X-Request-Id'' \<and> strip h ''X-Forwarded-Host'' = h ''X-Forwarded-Host'')"

lemma out_request_fields:
  "URL_Scheme (out_request rc t strip r) = Scheme t" "URL_Host (out_request rc t strip r) = Host t"
  "ReqHost (out_request rc t strip r) = Host t" "Method (out_request rc t strip r) = Method r"
  "URL_Path (out_request rc t strip r) = (if rcStripPrefix rc then stripPrefix (URL_Path r) (rcPath rc) else URL_Path r)"
  by (simp_all add: out_request_def director_def Let_def req_set_def)

lemma out_request_headers:
  assumes "keeps_headers strip"
  shows "GetRequestID (ReqContext r) \<noteq> [] \<Longrightarrow>
           Header_Get (ReqHeader (out_request rc t strip r)) ''X-Request-ID'' = GetRequestID (ReqContext r)"
    and "Header_Get (ReqHeader (out_request rc t strip r)) ''X-Forwarded-Host'' = Host t"
proof -
  have c: "Header_Get (append_client a h) k = Header_Get h k" if "CanonicalHeaderKey k \<noteq> ''X-Forwarded-For''" for a h k
    using that by (auto simp: append_client_def Header_Get_def Header_Set_def canonical_keys split: option.splits)
  have u: "Header_Get (if h ''User-Agent'' = None then Header_Set ''User-Agent'' [] h else h) k = Header_Get h k"
    if "CanonicalHeaderKey k \<noteq> ''User-Agent''" for h k
    using that by (auto simp: canonical_keys)
  show "Header_Get (ReqHeader (out_request rc t strip r)) ''X-Request-ID'' = GetRequestID (ReqContext r)"
    if "GetRequestID (ReqContext r) \<noteq> []"
    using that assms
    by (simp add: out_request_def Let_def c u canonical_keys del: Header_Get_Set)
       (simp add: Header_Get_def canonical_keys keeps_headers_def director_def Let_def req_set_def Header_Set_def)
  show "Header_Get (ReqHeader (out_request rc t strip r)) ''X-Forwarded-Host'' = Host t"
    using assms
    by (simp add: out_request_def Let_def c u canonical_keys del: Header_Get_Set)
       (simp add: Header_Get_def canonical_keys keeps_headers_def director_def Let_def req_set_def Header_Set_def)
qed


text \<open>When a CORS response is granted: the request has an origin, which the list holds or \<open>*\<close> covers.\<close>

definition granted :: "CORSConfig \<Rightarrow> Request \<Rightarrow> bool" where
  "granted cfg r \<longleftrightarrow> Header_Get (ReqHeader r) ''Origin'' \<noteq> [] \<and>
     (''*'' \<in> set (AllowedOrigins cfg) \<or> Header_Get (ReqHeader r) ''Origin'' \<in> set (AllowedOrigins cfg))"

lemma granted_iff:
  "granted cfg r \<longleftrightarrow> Header_Get (ReqHeader r) ''Origin'' \<noteq> [] \<and>
     isOriginAllowed (Header_Get (ReqHeader r) ''Origin'') (AllowedOrigins cfg)"
  by (auto simp: granted_def isOriginAllowed_def list_ex_iff)

text \<open>
  C30. CORS is exact: the next handler runs exactly when the request is not an \<open>OPTIONS\<close>
  request, which is answered with 204 instead; the response names the origin and allows
  credentials when the origin is granted, and otherwise the headers stay as they were.
\<close>

theorem cors_exact:
  assumes "\<not> wroteHeader (base_of w)"
  shows "\<exists>w1. (\<forall>next. CORS_mw cfg next r w g =
            (if Method r = ''OPTIONS'' then (Returned, snd (WriteHeader 204 w1), g) else next r w1 g))
     \<and> rsStatus (base_of (snd (WriteHeader 204 w1))) = 204
     \<and> sentHeader (base_of (snd (WriteHeader 204 w1))) = header_of w1
     \<and> (if granted cfg r
        then Header_Get (header_of w1) ''Access-Control-Allow-Origin'' = Header_Get (ReqHeader r) ''Origin''
           \<and> Header_Get (header_of w1) ''Access-Control-Allow-Credentials'' = ''true''
           \<and> Header_Get (header_of w1) ''Access-Control-Allow-Methods'' = Join (AllowedMethods cfg) '', ''
        else header_of w1 = header_of w)"
proof -
  define w1 where "w1 = cors_headers cfg r w"
  have h: "if granted cfg r
     then Header_Get (header_of w1) ''Access-Control-Allow-Origin'' = Header_Get (ReqHeader r) ''Origin''
        \<and> Header_Get (header_of w1) ''Access-Control-Allow-Credentials'' = ''true''
        \<and> Header_Get (header_of w1) ''Access-Control-Allow-Methods'' = Join (AllowedMethods cfg) '', ''
     else header_of w1 = header_of w"
    by (cases "granted cfg r") (auto simp: w1_def cors_headers_def Let_def granted_iff canonical_keys)
  have n: "\<not> wroteHeader (base_of w1)"
    using assms by (simp add: w1_def cors_headers_def Let_def)
  have "fst (WriteHeader 204 w1) = Returned" by (simp add: WriteHeader_base resp_WriteHeader_def)
  then have "(case WriteHeader 204 w1 of (out, w) \<Rightarrow> (out, w, g)) = (Returned, snd (WriteHeader 204 w1), g)"
    by (cases "WriteHeader 204 w1") simp
  then show ?thesis
    using h n
    by (intro exI [of _ w1]) (simp add: CORS_mw_def w1_def [symmetric] WriteHeader_base resp_WriteHeader_def
        header_of_base [symmetric])
qed


text \<open>
  C37. An informational response hides a failure: when the upstream sends one (such as 103 Early
  Hints) before a final status of 500 or more, the client gets that status, but the breaker is
  told that the call succeeded.
\<close>

theorem interim_response_hides_failure:
  assumes "round_trip g = (\<lambda>_. RTResponse [(ic, ih)] code h body True)"
    and "100 \<le> ic" "ic \<le> 199" "ic \<noteq> 101" "500 \<le> code" "code \<le> 999" "\<not> wroteHeader (base_of w)"
  shows "\<exists>w' g'. protected (ReverseProxy rc target) r (w, g) = (FnReturn None, w', g')
           \<and> final_status (base_of w') = code"
proof -
  define v where "v = on_header (\<lambda>_. Map.empty) (snd (WriteHeader ic (on_header (add_headers ih) w)))"
  define rw where "rw = \<lparr>statusCode = ic, bytesWritten = 0, written = True\<rparr>"
  have interim: "pass_interim [(ic, ih)] (newResponseWriter w) = (Returned, Wrap rw v)"
    using assms(2-4,7) WriteHeader_base(1) [of ic "on_header (add_headers ih) w"]
    by (auto simp: newResponseWriter_def v_def rw_def Let_def on_header_base resp_WriteHeader_def
        split: prod.splits outcome.splits)
  have nv: "\<not> wroteHeader (base_of v)"
    using assms(2-4,7) by (simp add: v_def on_header_base WriteHeader_base resp_WriteHeader_def)
  define v' where "v' = snd (WriteHeader code (on_header (add_headers (strip_hop g h)) v))"
  have out: "fst (WriteHeader code (on_header (add_headers (strip_hop g h)) v)) = Returned"
    using assms(5,6) nv by (simp add: WriteHeader_base on_header_base resp_WriteHeader_def)
  have sent: "wroteHeader (base_of v')" "rsStatus (base_of v') = code"
    using assms(5,6) nv by (simp_all add: v'_def WriteHeader_base on_header_base resp_WriteHeader_def)
  obtain rw' where W: "snd (Write body (Wrap rw v')) = Wrap rw' (snd (Write body v'))" "statusCode rw' = ic"
    by (cases "Write body v'") (auto simp: rw_def Let_def)
  have "ReverseProxy rc target r (newResponseWriter w) g =
      (Returned, Wrap rw' (snd (Write body v')),
       g\<lparr>upstream_requests := upstream_requests g @ [out_request rc target (strip_hop g) r]\<rparr>)"
    using assms(1,5) interim out W
    by (auto simp: ReverseProxy_def Let_def v'_def rw_def split: prod.splits outcome.splits)
  then have "protected (ReverseProxy rc target) r (w, g) =
      (FnReturn None, snd (Write body v'),
       g\<lparr>upstream_requests := upstream_requests g @ [out_request rc target (strip_hop g) r]\<rparr>)"
    using W(2) assms(3) by (simp add: protected_def Let_def)
  moreover have "final_status (base_of (snd (Write body v'))) = code"
    using sent by (simp add: Write_base resp_Write_def resp_WriteHeader_def final_status_def Let_def)
  ultimately show ?thesis by blast
qed

section \<open>Instances\<close>

definition sample_world :: World where
  "sample_world = \<lparr>stores = (\<lambda>_. NewInMemoryStore NaN 1), breakers = (\<lambda>_. sample_open),
     balancers = (\<lambda>_. fst (NewFromConfig sample_parse sample_route)), logs = [], metric_calls = [],
     clock = (\<lambda>_. 9), uuid = Inr ''0190'', stack = [], json_uni = id, float_impl = (\<lambda>_. 0),
     strip_hop = id, round_trip = (\<lambda>_. RTResponse [(103, Map.empty)] 500 Map.empty ''oops'' True),
     upstream_requests = []\<rparr>"

definition sample_request :: Request where
  "sample_request = \<lparr>Method = ''GET'', RemoteAddr = ''10.0.0.1:5000'', ReqHost = ''gw'', TLS = False,
     URL_Scheme = [], URL_Host = [], URL_Path = ''/api/x'', RawQuery = [],
     ReqHeader = Map.empty(''Origin'' \<mapsto> [''https://app'']), ReqContext = Map.empty, ReqDeadline = None\<rparr>"

definition sample_cors :: CORSConfig where
  "sample_cors = \<lparr>AllowedOrigins = [''*''], AllowedMethods = [''GET''], AllowedHeaders = [], corsMaxAge = 86400\<rparr>"

definition sample_writer :: writer where
  "sample_writer = Base fresh_resp"

lemma sample_writer_fresh: "\<not> wroteHeader (base_of sample_writer)"
  by (simp add: sample_writer_def fresh_resp_def)


theorem open_circuit_not_forwarded_witness:
  "\<exists>w' g'. (\<forall>next. CircuitBreak 0 ''/api'' next sample_request sample_writer sample_world = (Returned, w', g'))
     \<and> rsStatus (base_of w') = 503"
proof -
  have "state (breakers sample_world 0) = StateOpen"
    "Time_Sub (clock sample_world BreakBefore) (lastStateChange (breakers sample_world 0))
      \<le> ResetTimeout (config (breakers sample_world 0))"
    by (simp_all add: sample_world_def sample_simps)
  from open_circuit_not_forwarded [OF this sample_writer_fresh] show ?thesis by blast
qed

theorem cors_exact_witness:
  "\<exists>w1. Header_Get (header_of w1) ''Access-Control-Allow-Origin'' = ''https://app''
      \<and> Header_Get (header_of w1) ''Access-Control-Allow-Credentials'' = ''true''
      \<and> (\<forall>next. CORS_mw sample_cors next sample_request sample_writer sample_world = next sample_request w1 sample_world)"
proof -
  have "granted sample_cors sample_request" "Method sample_request \<noteq> ''OPTIONS''"
    "Header_Get (ReqHeader sample_request) ''Origin'' = ''https://app''"
    by (simp_all add: granted_def sample_cors_def sample_request_def Header_Get_def canonical_keys)
  then show ?thesis
    using cors_exact [OF sample_writer_fresh, of sample_cors sample_request sample_world] by auto
qed


theorem interim_response_hides_failure_witness:
  "\<exists>w' g'. protected (ReverseProxy sample_route (sample_url ''a'')) sample_request (sample_writer, sample_world)
      = (FnReturn None, w', g') \<and> final_status (base_of w') = 500"
  by (rule interim_response_hides_failure [where ic = 103 and ih = Map.empty and h = Map.empty and body = "''oops''"])
     (simp_all add: sample_writer_fresh, simp add: sample_world_def)


end
