(* ===== verification/Health.thy ===== *)
theory Health
  imports Balancing
begin

text \<open>
  The health checker, \<open>internal/balancer/health.go\<close>. The outcome of a probe over the network
  is a parameter: the request may fail to be built, the client may fail, or an answer comes back
  with a status code. Both balancers implement \<open>healthSetter\<close>, so the type assertion of the
  code always succeeds.
\<close>

section \<open>State and operations\<close>

record HealthStatus =
  hsHealthy :: bool
  hsConsecutiveFailures :: int
  hsLastChecked :: Time
  hsLastError :: "string option"

record HealthCheckerImpl =
  hcBalancer :: Balancer
  hcInterval :: Duration
  hcTimeout :: Duration
  hcThreshold :: int
  hcClientTimeout :: Duration
  hcHealthPath :: string
  hcStatuses :: "string \<rightharpoonup> HealthStatus"
  hcLog :: "LogRecord list"

type_synonym HealthCheckerOption = "HealthCheckerImpl \<Rightarrow> HealthCheckerImpl"

definition WithInterval :: "Duration \<Rightarrow> HealthCheckerOption" where
  "WithInterval d h = h\<lparr>hcInterval := d\<rparr>"

definition WithTimeout :: "Duration \<Rightarrow> HealthCheckerOption" where
  "WithTimeout d h = h\<lparr>hcTimeout := d\<rparr>"

definition WithThreshold :: "int \<Rightarrow> HealthCheckerOption" where
  "WithThreshold n h = h\<lparr>hcThreshold := n\<rparr>"

definition WithHealthPath :: "string \<Rightarrow> HealthCheckerOption" where
  "WithHealthPath p h = h\<lparr>hcHealthPath := p\<rparr>"

definition new_status :: HealthStatus where
  "new_status = \<lparr>hsHealthy = True, hsConsecutiveFailures = 0, hsLastChecked = zero_time, hsLastError = None\<rparr>"

definition NewHealthChecker :: "Balancer \<Rightarrow> HealthCheckerOption list \<Rightarrow> HealthCheckerImpl" where
  "NewHealthChecker bal opts =
     (let hc = \<lparr>hcBalancer = bal, hcInterval = 10 * time_Second, hcTimeout = 5 * time_Second,
            hcThreshold = 3, hcClientTimeout = 0, hcHealthPath = ''/health'',
            hcStatuses = Map.empty, hcLog = []\<rparr>;
          hc = fold (\<lambda>opt. opt) opts hc;
          hc = hc\<lparr>hcClientTimeout := hcTimeout hc\<rparr>
      in hc\<lparr>hcStatuses := fold (\<lambda>t m. m(status_url t \<mapsto> new_status)) (Targets (hcBalancer hc)) (hcStatuses hc)\<rparr>)"

definition recordSuccess :: "Time \<Rightarrow> string \<Rightarrow> HealthCheckerImpl \<Rightarrow> HealthCheckerImpl" where
  "recordSuccess now url hc =
     (case hcStatuses hc url of
        None \<Rightarrow> hc
      | Some st \<Rightarrow>
          (let wasUnhealthy = \<not> hsHealthy st;
               st = st\<lparr>hsHealthy := True, hsConsecutiveFailures := 0, hsLastChecked := now, hsLastError := None\<rparr>;
               hc = hc\<lparr>hcStatuses := (hcStatuses hc)(url \<mapsto> st), hcBalancer := SetHealthy url True (hcBalancer hc)\<rparr>
           in if wasUnhealthy
              then hc\<lparr>hcLog := hcLog hc @ [log_record LevelInfo ''upstream recovered'' [(''target'', AString url)]]\<rparr>
              else hc))"

definition recordFailure :: "Time \<Rightarrow> string \<Rightarrow> string \<Rightarrow> HealthCheckerImpl \<Rightarrow> HealthCheckerImpl" where
  "recordFailure now url err hc =
     (case hcStatuses hc url of
        None \<Rightarrow> hc
      | Some st \<Rightarrow>
          (let st = st\<lparr>hsConsecutiveFailures := wrap64 (hsConsecutiveFailures st + 1), hsLastChecked := now,
                 hsLastError := Some err\<rparr>
           in if hsConsecutiveFailures st \<ge> hcThreshold hc \<and> hsHealthy st
              then hc\<lparr>hcStatuses := (hcStatuses hc)(url \<mapsto> st\<lparr>hsHealthy := False\<rparr>),
                     hcBalancer := SetHealthy url False (hcBalancer hc),
                     hcLog := hcLog hc @ [log_record LevelWarn ''upstream marked unhealthy''
                       [(''target'', AString url), (''consecutive_failures'', AInt (hsConsecutiveFailures st)),
                        (''error'', AString err)]]\<rparr>
              else hc\<lparr>hcStatuses := (hcStatuses hc)(url \<mapsto> st)\<rparr>))"

datatype probe_result =
    BadRequest string
  | DoError string
  | Answer int

type_synonym probe = "string \<Rightarrow> probe_result \<times> Time"

definition checkTarget :: "probe \<Rightarrow> string \<Rightarrow> HealthCheckerImpl \<Rightarrow> HealthCheckerImpl" where
  "checkTarget net url hc =
     (let checkURL = url @ hcHealthPath hc
      in case net checkURL of (res, now) \<Rightarrow>
           (case res of
              BadRequest err \<Rightarrow> recordFailure now url err hc
            | DoError err \<Rightarrow> recordFailure now url err hc
            | Answer code \<Rightarrow>
                if code \<ge> 200 \<and> code < 300 then recordSuccess now url hc
                else recordFailure now url (''health check returned status '' @ Itoa code) hc))"

text \<open>One round; the network may answer each of its probes differently.\<close>

definition checkAll :: "(nat \<Rightarrow> probe) \<Rightarrow> HealthCheckerImpl \<Rightarrow> HealthCheckerImpl" where
  "checkAll net hc =
     fold (\<lambda>(i, url) hc. checkTarget (net i) url hc)
       (enumerate 0 (map status_url (Targets (hcBalancer hc)))) hc"

text \<open>
  \<open>Start\<close>: the initial round, then one round for every tick before the context is cancelled.
\<close>

definition Start :: "(nat \<Rightarrow> probe) \<Rightarrow> (nat \<Rightarrow> probe) list \<Rightarrow> HealthCheckerImpl \<Rightarrow> HealthCheckerImpl" where
  "Start initial ticks hc = fold checkAll ticks (checkAll initial hc)"

definition IsHealthy :: "HealthCheckerImpl \<Rightarrow> string \<Rightarrow> bool" where
  "IsHealthy hc url = (case hcStatuses hc url of Some st \<Rightarrow> hsHealthy st | None \<Rightarrow> False)"

section \<open>One probe\<close>

definition probe_ok :: "probe_result \<Rightarrow> bool" where
  "probe_ok res = (case res of Answer code \<Rightarrow> code \<ge> 200 \<and> code < 300 | _ \<Rightarrow> False)"

text \<open>What a probe does to the health and to the failure count of its target.\<close>

definition health_step :: "int \<Rightarrow> bool \<Rightarrow> bool \<times> int \<Rightarrow> bool \<times> int" where
  "health_step thr ok = (\<lambda>(h, c). if ok then (True, 0)
     else let c = wrap64 (c + 1) in (h \<and> \<not> c \<ge> thr, c))"

abbreviation health_of :: "HealthStatus \<Rightarrow> bool \<times> int" where
  "health_of st \<equiv> (hsHealthy st, hsConsecutiveFailures st)"

lemmas check_defs = checkTarget_def recordSuccess_def recordFailure_def

lemma checkTarget_frame [simp]:
  "hcThreshold (checkTarget net url hc) = hcThreshold hc" "hcHealthPath (checkTarget net url hc) = hcHealthPath hc"
  by (auto simp: check_defs Let_def split: prod.splits probe_result.splits option.splits)

lemma checkTarget_other [simp]: "s \<noteq> url \<Longrightarrow> hcStatuses (checkTarget net url hc) s = hcStatuses hc s"
  by (auto simp: check_defs Let_def split: prod.splits probe_result.splits option.splits)

lemma checkTarget_self:
  "map_option health_of (hcStatuses (checkTarget net url hc) url) =
   map_option (health_step (hcThreshold hc) (probe_ok (fst (net (url @ hcHealthPath hc)))) \<circ> health_of)
     (hcStatuses hc url)"
  by (auto simp: check_defs Let_def health_step_def probe_ok_def
      split: prod.splits probe_result.splits option.splits)

text \<open>The balancer of the checker is told the new health whenever it changes.\<close>

lemma checkTarget_Targets:
  assumes "bal_wf (hcBalancer hc)"
  shows "bal_wf (hcBalancer (checkTarget net url hc))"
    and "Targets (hcBalancer (checkTarget net url hc)) =
      (case hcStatuses hc url of None \<Rightarrow> Targets (hcBalancer hc)
       | Some st \<Rightarrow> (let h' = fst (health_step (hcThreshold hc) (probe_ok (fst (net (url @ hcHealthPath hc)))) (health_of st))
            in if probe_ok (fst (net (url @ hcHealthPath hc))) \<or> h' \<noteq> hsHealthy st
               then set_health url h' (Targets (hcBalancer hc)) else Targets (hcBalancer hc)))"
  using assms bal.wf_SetHealthy bal.Targets_SetHealthy
  by (auto simp: check_defs Let_def health_step_def probe_ok_def
      split: prod.splits probe_result.splits option.splits)

section \<open>Rounds\<close>

definition in_sync :: "HealthCheckerImpl \<Rightarrow> bool" where
  "in_sync hc \<longleftrightarrow> bal_wf (hcBalancer hc) \<and> distinct (map status_url (Targets (hcBalancer hc)))
     \<and> (\<forall>s \<in> set (Targets (hcBalancer hc)).
          map_option hsHealthy (hcStatuses hc (status_url s)) = Some (tsHealthy s))"

lemma checkTarget_urls:
  assumes "bal_wf (hcBalancer hc)"
  shows "map status_url (Targets (hcBalancer (checkTarget net url hc))) = map status_url (Targets (hcBalancer hc))"
  by (simp add: checkTarget_Targets [OF assms] Let_def split: option.splits)

lemma checkTarget_health:
  assumes "hcStatuses hc url = Some st"
  shows "map_option hsHealthy (hcStatuses (checkTarget net url hc) url) =
    Some (fst (health_step (hcThreshold hc) (probe_ok (fst (net (url @ hcHealthPath hc)))) (health_of st)))"
  using checkTarget_self [of net url hc] assms
  by (cases "hcStatuses (checkTarget net url hc) url") (auto simp: prod_eq_iff)

lemma in_sync_checkTarget:
  assumes "in_sync hc"
  shows "in_sync (checkTarget net url hc)"
proof -
  let ?hc' = "checkTarget net url hc"
  have wf: "bal_wf (hcBalancer hc)" and d: "distinct (map status_url (Targets (hcBalancer hc)))"
    and st: "\<forall>s \<in> set (Targets (hcBalancer hc)).
        map_option hsHealthy (hcStatuses hc (status_url s)) = Some (tsHealthy s)"
    using assms by (auto simp: in_sync_def)
  have "map_option hsHealthy (hcStatuses ?hc' (status_url s')) = Some (tsHealthy s')"
    if s': "s' \<in> set (Targets (hcBalancer ?hc'))" for s'
  proof (cases "hcStatuses hc url")
    case None
    then show ?thesis
      using s' st checkTarget_other [of "status_url s'" url net hc] checkTarget_self [of net url hc]
      by (cases "status_url s' = url") (auto simp: checkTarget_Targets [OF wf])
  next
    case (Some x)
    note h = checkTarget_health [OF Some, of net]
    show ?thesis
    proof (cases "status_url s' = url")
      case True
      then show ?thesis
        using s' st Some h unfolding checkTarget_Targets [OF wf] set_health_distinct [OF d]
        by (auto simp: Let_def split: if_splits)
    next
      case False
      then show ?thesis
        using s' st Some unfolding checkTarget_Targets [OF wf] set_health_distinct [OF d]
        by (auto simp: Let_def split: if_splits)
    qed
  qed
  then show ?thesis
    using checkTarget_Targets(1) [OF wf] checkTarget_urls [OF wf] d by (simp add: in_sync_def)
qed

text \<open>The probes of one round, as a fold over numbered URLs.\<close>

abbreviation probes :: "(nat \<Rightarrow> probe) \<Rightarrow> (nat \<times> string) list \<Rightarrow> HealthCheckerImpl \<Rightarrow> HealthCheckerImpl" where
  "probes net \<equiv> fold (\<lambda>(i, url) hc. checkTarget (net i) url hc)"

lemma probes_frame [simp]:
  "hcThreshold (probes net xs hc) = hcThreshold hc" "hcHealthPath (probes net xs hc) = hcHealthPath hc"
  by (induction xs arbitrary: hc) auto

lemma in_sync_probes: "in_sync hc \<Longrightarrow> in_sync (probes net xs hc)"
  by (induction xs arbitrary: hc) (auto simp: in_sync_checkTarget)

lemma probes_urls:
  "in_sync hc \<Longrightarrow> map status_url (Targets (hcBalancer (probes net xs hc))) = map status_url (Targets (hcBalancer hc))"
proof (induction xs arbitrary: hc)
  case (Cons x xs)
  then show ?case
    using in_sync_checkTarget [OF Cons.prems] checkTarget_urls by (cases x) (auto simp: in_sync_def)
qed simp

lemma probes_other: "s \<notin> snd ` set xs \<Longrightarrow> hcStatuses (probes net xs hc) s = hcStatuses hc s"
  by (induction xs arbitrary: hc) auto

lemma probes_self:
  assumes "distinct (map snd xs)" and "(i, url) \<in> set xs"
  shows "map_option health_of (hcStatuses (probes net xs hc) url) =
    map_option (health_step (hcThreshold hc) (probe_ok (fst (net i (url @ hcHealthPath hc)))) \<circ> health_of)
      (hcStatuses hc url)"
  using assms
proof (induction xs arbitrary: hc)
  case (Cons x xs)
  obtain j u where x: "x = (j, u)" by (cases x)
  show ?case
  proof (cases "u = url")
    case True
    then have "url \<notin> snd ` set xs" "j = i" using Cons.prems x by force+
    then show ?thesis using x True by (simp add: probes_other checkTarget_self comp_def)
  next
    case False
    then show ?thesis using Cons x by simp
  qed
qed simp

section \<open>Histories\<close>

text \<open>The failures since the last success of a history of probe results.\<close>

definition trailing_failures :: "bool list \<Rightarrow> nat" where
  "trailing_failures h = length (takeWhile Not (rev h))"

definition passes :: "int \<Rightarrow> bool list \<Rightarrow> bool" where
  "passes thr h \<longleftrightarrow> int (trailing_failures h) < max 1 thr"

lemma trailing_failures_snoc [simp]:
  "trailing_failures (h @ [ok]) = (if ok then 0 else Suc (trailing_failures h))"
  by (simp add: trailing_failures_def)

lemma history_state:
  assumes "in_int64 thr"
  shows "\<exists>c. fold (health_step thr) h (True, 0) = (passes thr h, c)
             \<and> (passes thr h \<longrightarrow> c = int (trailing_failures h))"
proof (induction h rule: rev_induct)
  case (snoc ok h)
  then obtain c where c: "fold (health_step thr) h (True, 0) = (passes thr h, c)"
    "passes thr h \<longrightarrow> c = int (trailing_failures h)" by blast
  have "in_int64 (c + 1)" if "passes thr h"
    using that c(2) assms by (auto simp: passes_def in_int64_def min_int64_def max_int64_def)
  moreover have step: "fold (health_step thr) (h @ [ok]) (True, 0) = health_step thr ok (passes thr h, c)"
    using c(1) by simp
  ultimately show ?case
    unfolding step using c(2) by (auto simp: health_step_def Let_def passes_def)
qed (simp add: passes_def trailing_failures_def)

text \<open>The probe results target \<open>i\<close> with the given URL gets over a list of rounds.\<close>

definition history :: "string \<Rightarrow> string \<Rightarrow> nat \<Rightarrow> (nat \<Rightarrow> probe) list \<Rightarrow> bool list" where
  "history path url i nets = map (\<lambda>net. probe_ok (fst (net i (url @ path)))) nets"

lemma checkAll_status:
  assumes "in_sync hc" and "i < length (Targets (hcBalancer hc))"
    and "url = status_url (Targets (hcBalancer hc) ! i)"
  shows "map_option health_of (hcStatuses (checkAll net hc) url) =
    map_option (health_step (hcThreshold hc) (probe_ok (fst (net i (url @ hcHealthPath hc)))) \<circ> health_of)
      (hcStatuses hc url)"
proof -
  have "(i, url) \<in> set (enumerate 0 (map status_url (Targets (hcBalancer hc))))"
    using assms(2,3) by (simp add: in_set_enumerate_eq)
  then show ?thesis using assms(1) by (simp add: checkAll_def probes_self in_sync_def)
qed

lemma checkAll_frame:
  assumes "in_sync hc"
  shows "in_sync (checkAll net hc)" "hcThreshold (checkAll net hc) = hcThreshold hc"
    "hcHealthPath (checkAll net hc) = hcHealthPath hc"
    "map status_url (Targets (hcBalancer (checkAll net hc))) = map status_url (Targets (hcBalancer hc))"
  using assms in_sync_probes probes_urls by (simp_all add: checkAll_def)

lemma rounds_status:
  assumes "in_sync hc" and "i < length (Targets (hcBalancer hc))"
    and "url = status_url (Targets (hcBalancer hc) ! i)"
  shows "in_sync (fold checkAll nets hc)
    \<and> map status_url (Targets (hcBalancer (fold checkAll nets hc))) = map status_url (Targets (hcBalancer hc))
    \<and> map_option health_of (hcStatuses (fold checkAll nets hc) url) =
        map_option (fold (health_step (hcThreshold hc)) (history (hcHealthPath hc) url i nets) \<circ> health_of)
          (hcStatuses hc url)"
  using assms
proof (induction nets arbitrary: hc)
  case Nil
  then show ?case by (simp add: history_def comp_def)
next
  case (Cons net nets)
  note fr = checkAll_frame [OF Cons.prems(1), of net]
  have i: "i < length (Targets (hcBalancer (checkAll net hc)))"
    using Cons.prems(2) arg_cong [OF fr(4), of length] by simp
  have url: "url = status_url (Targets (hcBalancer (checkAll net hc)) ! i)"
    using Cons.prems(2,3) i fr(4) by (metis nth_map)
  note IH = Cons.IH [OF fr(1) i url]
  have "map_option (F \<circ> health_of) (hcStatuses (checkAll net hc) url) =
      map_option (F \<circ> (health_step (hcThreshold hc) (probe_ok (fst (net i (url @ hcHealthPath hc)))) \<circ> health_of))
        (hcStatuses hc url)" for F :: "bool \<times> int \<Rightarrow> bool \<times> int"
    using checkAll_status [OF Cons.prems, of net] by (simp only: option.map_comp [symmetric])
  from this [of "fold (health_step (hcThreshold hc)) (history (hcHealthPath hc) url i nets)"]
  show ?case using IH fr by (simp add: history_def comp_def)
qed

section \<open>A new checker\<close>

definition known_options :: "HealthCheckerOption set" where
  "known_options = range WithInterval \<union> range WithTimeout \<union> range WithThreshold \<union> range WithHealthPath"

lemma options_frame:
  "set opts \<subseteq> known_options \<Longrightarrow> hcBalancer (fold (\<lambda>opt. opt) opts hc) = hcBalancer hc"
proof (induction opts arbitrary: hc)
  case (Cons opt opts)
  then have "hcBalancer (opt hc) = hcBalancer hc"
    by (auto simp: known_options_def WithInterval_def WithTimeout_def WithThreshold_def WithHealthPath_def)
  with Cons show ?case by simp
qed simp

lemma fold_new_status:
  "fold (\<lambda>t m. m(status_url t \<mapsto> new_status)) ts m s =
     (if s \<in> status_url ` set ts then Some new_status else m s)"
  by (induction ts arbitrary: m) auto

lemma NewHealthChecker_frame:
  assumes "set opts \<subseteq> known_options"
  shows "hcBalancer (NewHealthChecker bal opts) = bal"
    and "s \<in> status_url ` set (Targets bal) \<Longrightarrow> hcStatuses (NewHealthChecker bal opts) s = Some new_status"
  using options_frame [OF assms] by (simp_all add: NewHealthChecker_def Let_def fold_new_status)

lemma in_sync_new:
  assumes "set opts \<subseteq> known_options" and "bal_wf bal" and "distinct (map status_url (Targets bal))"
    and "list_all tsHealthy (Targets bal)"
  shows "in_sync (NewHealthChecker bal opts)"
  using assms by (auto simp: in_sync_def NewHealthChecker_frame new_status_def list_all_iff)

lemma new_checker_health:
  assumes "set opts \<subseteq> known_options" and "bal_wf bal" and "distinct (map status_url (Targets bal))"
    and "list_all tsHealthy (Targets bal)" and "in_int64 (hcThreshold (NewHealthChecker bal opts))"
    and "i < length (Targets bal)"
  defines "hc \<equiv> NewHealthChecker bal opts" and "url \<equiv> status_url (Targets bal ! i)"
  shows "IsHealthy (fold checkAll nets hc) url = passes (hcThreshold hc) (history (hcHealthPath hc) url i nets)"
    and "tsHealthy (Targets (hcBalancer (fold checkAll nets hc)) ! i)
           = passes (hcThreshold hc) (history (hcHealthPath hc) url i nets)"
    and "map status_url (Targets (hcBalancer (fold checkAll nets hc))) = map status_url (Targets bal)"
    and "bal_wf (hcBalancer (fold checkAll nets hc))"
proof -
  let ?hc' = "fold checkAll nets hc"
  have sync: "in_sync hc" unfolding hc_def using in_sync_new [OF assms(1-4)] .
  have b: "hcBalancer hc = bal" by (simp add: hc_def NewHealthChecker_frame [OF assms(1)])
  have st: "hcStatuses hc url = Some new_status"
    using assms(6) by (simp add: hc_def url_def NewHealthChecker_frame [OF assms(1)])
  note R = rounds_status [OF sync, of i url nets, unfolded b, OF assms(6) meta_eq_to_obj_eq [OF url_def]]
  obtain c where c: "fold (health_step (hcThreshold hc)) (history (hcHealthPath hc) url i nets) (True, 0)
      = (passes (hcThreshold hc) (history (hcHealthPath hc) url i nets), c)"
    using history_state [OF assms(5)] unfolding hc_def by blast
  then have h: "map_option hsHealthy (hcStatuses ?hc' url)
      = Some (passes (hcThreshold hc) (history (hcHealthPath hc) url i nets))"
    using R st by (auto simp: new_status_def)
  then show "IsHealthy ?hc' url = passes (hcThreshold hc) (history (hcHealthPath hc) url i nets)"
    by (auto simp: IsHealthy_def split: option.splits)
  show urls: "map status_url (Targets (hcBalancer ?hc')) = map status_url (Targets bal)"
    and "bal_wf (hcBalancer ?hc')" using R by (simp_all add: in_sync_def)
  have i: "i < length (Targets (hcBalancer ?hc'))" using arg_cong [OF urls, of length] assms(6) by simp
  then have u: "status_url (Targets (hcBalancer ?hc') ! i) = url"
    using urls assms(6) unfolding url_def by (metis nth_map)
  have "in_sync ?hc'" using R by blast
  then have "map_option hsHealthy (hcStatuses ?hc' (status_url (Targets (hcBalancer ?hc') ! i)))
      = Some (tsHealthy (Targets (hcBalancer ?hc') ! i))"
    unfolding in_sync_def using nth_mem [OF i] by blast
  then show "tsHealthy (Targets (hcBalancer ?hc') ! i)
      = passes (hcThreshold hc) (history (hcHealthPath hc) url i nets)"
    using h unfolding u by simp
qed

section \<open>Duplicate targets\<close>

lemma set_health_later:
  assumes "i < j" and "j < length xs" and "status_url (xs ! i) = status_url (xs ! j)"
  shows "set_health s v xs ! j = xs ! j"
  using assms
proof (induction xs arbitrary: i j)
  case (Cons x xs)
  then obtain k where j: "j = Suc k" by (cases j) auto
  show ?case
  proof (cases "status_url x = s")
    case False
    then show ?thesis
    proof (cases i)
      case 0
      then have "s \<noteq> status_url (xs ! k)" using Cons.prems j False by auto
      moreover have "set_health s v ys ! k = ys ! k" if "k < length ys" "s \<noteq> status_url (ys ! k)" for ys k
        using that by (induction ys arbitrary: k) (auto simp: nth_Cons split: nat.splits)
      ultimately show ?thesis using Cons.prems(2) j False by simp
    next
      case (Suc m)
      then show ?thesis using Cons.prems Cons.IH [of m k] j False by simp
    qed
  qed (simp add: j)
qed simp

definition duplicate_at :: "nat \<Rightarrow> nat \<Rightarrow> HealthCheckerImpl \<Rightarrow> bool" where
  "duplicate_at i j hc \<longleftrightarrow> bal_wf (hcBalancer hc) \<and> i < j \<and> j < length (Targets (hcBalancer hc))
     \<and> status_url (Targets (hcBalancer hc) ! i) = status_url (Targets (hcBalancer hc) ! j)
     \<and> tsHealthy (Targets (hcBalancer hc) ! j)"

lemma duplicate_checkTarget:
  assumes "duplicate_at i j hc"
  shows "duplicate_at i j (checkTarget net url hc)"
proof -
  have wf: "bal_wf (hcBalancer hc)" using assms by (simp add: duplicate_at_def)
  have urls: "status_url (set_health s v xs ! k) = status_url (xs ! k)" if "k < length xs" for s v xs k
    using that set_health_urls [of s v xs] by (metis nth_map set_health_length)
  show ?thesis
    using assms set_health_later urls
    by (auto simp: duplicate_at_def checkTarget_Targets [OF wf] Let_def split: option.splits)
qed

lemma duplicate_rounds: "duplicate_at i j hc \<Longrightarrow> duplicate_at i j (fold checkAll nets hc)"
proof (induction nets arbitrary: hc)
  case (Cons net nets)
  have "duplicate_at i j (probes net xs hc)" for xs
    using Cons.prems by (induction xs arbitrary: hc) (auto simp: duplicate_checkTarget)
  with Cons show ?case by (simp add: checkAll_def)
qed simp

section \<open>Properties\<close>

lemma new_from_config_checked:
  assumes "NewFromConfig parse r = (bal, logs)" and "int (length (rcTargets r)) \<le> max_int64"
  shows "bal_wf bal" "list_all tsHealthy (Targets bal)"
  using new_balancer [OF assms] by (simp_all add: list_all_iff)

text \<open>
  C8. The threshold is exact and the two views agree: after any number of rounds on the balancer
  of a route whose target URLs are distinct, a target counts as healthy, for the checker and for
  the balancer alike, exactly when its failures since its last success are fewer than the
  threshold (a threshold below one acts as one).
\<close>

theorem health_threshold_exact:
  assumes "NewFromConfig parse r = (bal, logs)" and "int (length (rcTargets r)) \<le> max_int64"
    and "distinct (map status_url (Targets bal))" and "set opts \<subseteq> known_options"
    and "hc = NewHealthChecker bal opts" and "in_int64 (hcThreshold hc)"
    and "i < length (Targets bal)" and "url = status_url (Targets bal ! i)"
    and "hc' = Start initial ticks hc"
  shows "(IsHealthy hc' url \<longleftrightarrow>
            int (trailing_failures (history (hcHealthPath hc) url i (initial # ticks))) < max 1 (hcThreshold hc))
       \<and> tsHealthy (Targets (hcBalancer hc') ! i) = IsHealthy hc' url"
  using new_checker_health(1,2) [OF assms(4) new_from_config_checked(1) [OF assms(1,2)] assms(3)
      new_from_config_checked(2) [OF assms(1,2)] assms(6) [unfolded assms(5)] assms(7), of "initial # ticks"]
  by (simp add: assms(5,8,9) Start_def passes_def)

text \<open>
  A target that failed its last probes as often as the threshold says gets no traffic: every
  target the balancer hands out has fewer failures than that since its last success.
\<close>

theorem failing_target_gets_no_traffic:
  assumes "NewFromConfig parse r = (bal, logs)" and "int (length (rcTargets r)) \<le> max_int64"
    and "distinct (map status_url (Targets bal))" and "set opts \<subseteq> known_options"
    and "hc = NewHealthChecker bal opts" and "in_int64 (hcThreshold hc)"
    and "fst (Next (hcBalancer (Start initial ticks hc))) = Inr u"
  shows "\<exists>i < length (Targets bal). URL_String u = status_url (Targets bal ! i)
           \<and> int (trailing_failures (history (hcHealthPath hc) (URL_String u) i (initial # ticks)))
               < max 1 (hcThreshold hc)"
proof -
  note H = new_checker_health [OF assms(4) new_from_config_checked(1) [OF assms(1,2)] assms(3)
      new_from_config_checked(2) [OF assms(1,2)] assms(6) [unfolded assms(5)], of _ "initial # ticks"]
  let ?hc' = "fold checkAll (initial # ticks) hc"
  have st: "Start initial ticks hc = ?hc'" by (simp add: Start_def)
  have ne: "Targets bal \<noteq> []"
  proof
    assume no: "Targets bal = []"
    then have "checkAll net (NewHealthChecker bal opts) = NewHealthChecker bal opts" for net
      by (simp add: checkAll_def NewHealthChecker_frame [OF assms(4)])
    then have "fold checkAll nets (NewHealthChecker bal opts) = NewHealthChecker bal opts" for nets
      by (induction nets) simp_all
    then have "hcBalancer ?hc' = bal" by (simp only: assms(5) NewHealthChecker_frame [OF assms(4)])
    then show False
      using bal.Next_sound [OF new_from_config_checked(1) [OF assms(1,2)]] assms(7) no
      by (simp add: st offered_def del: fold_simps)
  qed
  then have wf: "bal_wf (hcBalancer ?hc')" and urls: "map status_url (Targets (hcBalancer ?hc')) = map status_url (Targets bal)"
    using H(3,4) [of 0] by (simp_all add: assms(5))
  have "offered u (Targets (hcBalancer ?hc'))" using bal.Next_sound [OF wf] assms(7) by (simp add: st)
  then obtain i where i: "i < length (Targets (hcBalancer ?hc'))" "tsHealthy (Targets (hcBalancer ?hc') ! i)"
    "tURL (tsTarget (Targets (hcBalancer ?hc') ! i)) = u"
    by (auto simp: offered_def list_ex_length)
  have i': "i < length (Targets bal)" using i(1) arg_cong [OF urls, of length] by simp
  then have "URL_String u = status_url (Targets bal ! i)" using urls i(1,3) by (metis nth_map)
  then show ?thesis using H(2) [OF i'] i(2) i' by (auto simp: assms(5) passes_def)
qed

text \<open>
  A target listed twice under one URL is never taken out completely: \<open>SetHealthy\<close>
  reaches the first entry only, so whatever the probes find, the second entry stays healthy in
  the balancer and keeps its share of the traffic.
\<close>

theorem duplicate_target_never_removed:
  assumes "NewFromConfig parse r = (bal, logs)" and "int (length (rcTargets r)) \<le> max_int64"
    and "i < j" and "j < length (Targets bal)"
    and "status_url (Targets bal ! i) = status_url (Targets bal ! j)" and "set opts \<subseteq> known_options"
  shows "tsHealthy (Targets (hcBalancer (Start initial ticks (NewHealthChecker bal opts))) ! j)"
proof -
  have "duplicate_at i j (NewHealthChecker bal opts)"
    using assms new_from_config_checked [OF assms(1,2)]
    by (simp add: duplicate_at_def NewHealthChecker_frame list_all_length)
  from duplicate_rounds [OF this, of "initial # ticks"] show ?thesis
    by (simp add: Start_def duplicate_at_def)
qed

definition down :: "nat \<Rightarrow> probe" where
  "down i url = (Answer 503, 1)"

lemma sample_route_new:
  "Targets (fst (NewFromConfig sample_parse sample_route)) =
     map (\<lambda>s. status_of \<lparr>tURL = \<lparr>Scheme = ''http'', Host = drop 7 (fst s), URL_String = fst s\<rparr>, tWeight = snd s\<rparr> True)
       [(''http://a'', 2), (''http://b'', 1)]"
  by (simp add: NewFromConfig_def sample_route_def sample_parse_def NewWeightedRoundRobin_def wrr_Targets_def
      statuses_of_def upt_rec)

theorem health_threshold_exact_witness:
  "\<not> IsHealthy (Start down [down, down] (NewHealthChecker (fst (NewFromConfig sample_parse sample_route)) [])) ''http://a''"
proof -
  let ?bal = "fst (NewFromConfig sample_parse sample_route)"
  have "IsHealthy (Start down [down, down] (NewHealthChecker ?bal [])) ''http://a'' \<longleftrightarrow>
      int (trailing_failures (history (hcHealthPath (NewHealthChecker ?bal [])) ''http://a'' 0 [down, down, down]))
        < max 1 (hcThreshold (NewHealthChecker ?bal []))"
    by (rule health_threshold_exact [THEN conjunct1, OF prod.collapse [symmetric] _ _ _ refl _ _ _ refl])
       (simp_all add: sample_route_new, simp_all add: sample_route_def max_int64_def min_int64_def in_int64_def
          NewHealthChecker_def Let_def)
  then show ?thesis
    by (simp add: NewHealthChecker_def Let_def history_def down_def probe_ok_def trailing_failures_def)
qed

text \<open>The second target answers, so the traffic goes there.\<close>

definition half_down :: "nat \<Rightarrow> probe" where
  "half_down i url = (if i = 0 then DoError ''refused'' else Answer 200, 1)"

lemma sample_checker:
  "hcThreshold (NewHealthChecker bal []) = 3" "hcHealthPath (NewHealthChecker bal []) = ''/health''"
  by (simp_all add: NewHealthChecker_def Let_def)

theorem failing_target_gets_no_traffic_witness:
  "fst (Next (hcBalancer (Start half_down [half_down, half_down]
      (NewHealthChecker (fst (NewFromConfig sample_parse sample_route)) [])))) \<noteq>
    Inr \<lparr>Scheme = ''http'', Host = ''a'', URL_String = ''http://a''\<rparr>"
proof
  let ?bal = "fst (NewFromConfig sample_parse sample_route)"
  assume "fst (Next (hcBalancer (Start half_down [half_down, half_down] (NewHealthChecker ?bal [])))) =
    Inr \<lparr>Scheme = ''http'', Host = ''a'', URL_String = ''http://a''\<rparr>"
  from failing_target_gets_no_traffic [OF prod.collapse [symmetric] _ _ _ refl _ this]
  have "\<exists>i < length (Targets ?bal). ''http://a'' = status_url (Targets ?bal ! i)
      \<and> int (trailing_failures (history ''/health'' ''http://a'' i [half_down, half_down, half_down])) < 3"
    by (simp add: sample_checker) (simp add: sample_route_new, simp add: sample_route_def max_int64_def
        in_int64_def min_int64_def)
  then show False
    by (auto simp: sample_route_new less_Suc_eq history_def half_down_def probe_ok_def trailing_failures_def)
qed

definition twice_route :: RouteConfig where
  "twice_route = sample_route\<lparr>rcTargets := [\<lparr>tcURL = ''http://a'', tcWeight = 1\<rparr>, \<lparr>tcURL = ''http://a'', tcWeight = 1\<rparr>]\<rparr>"

theorem duplicate_target_never_removed_witness:
  "valid_route sample_parse twice_route
   \<and> tsHealthy (Targets (hcBalancer (Start down [down, down, down]
       (NewHealthChecker (fst (NewFromConfig sample_parse twice_route)) []))) ! 1)"
proof
  show "valid_route sample_parse twice_route"
    using sample_route_valid by (simp add: twice_route_def valid_route_def valid_target_def sample_parse_def)
  have t: "Targets (fst (NewFromConfig sample_parse twice_route)) =
      replicate 2 (status_of \<lparr>tURL = \<lparr>Scheme = ''http'', Host = ''a'', URL_String = ''http://a''\<rparr>, tWeight = 1\<rparr> True)"
    by (simp add: NewFromConfig_def twice_route_def sample_route_def sample_parse_def NewWeightedRoundRobin_def
        wrr_Targets_def statuses_of_def upt_rec numeral_2_eq_2)
  show "tsHealthy (Targets (hcBalancer (Start down [down, down, down]
       (NewHealthChecker (fst (NewFromConfig sample_parse twice_route)) []))) ! 1)"
    by (rule duplicate_target_never_removed [where i = 0 and parse = sample_parse and r = twice_route
          and logs = "snd (NewFromConfig sample_parse twice_route)"])
       (simp_all add: t, simp add: twice_route_def max_int64_def)
qed

end
