(* ===== verification/Loader.thy ===== *)
theory Loader
  imports Config
begin

text \<open>
  Loading and reloading the configuration, \<open>internal/config/loader.go\<close> and
  \<open>internal/config/watcher.go\<close>. What the code asks of its surroundings is the record
  \<open>host\<close>: the files, the environment, the YAML decoder (\<open>gopkg.in/yaml.v3\<close>), the
  Unicode case mapping of bytes outside ASCII, and \<open>url.Parse\<close>. The watcher is a state
  machine over what it receives from the \<open>fsnotify\<close> channels and over calls of \<open>Close\<close>.
\<close>

section \<open>Loading\<close>

record host =
  ReadFile :: "string \<Rightarrow> string + string"
  Getenv :: "string \<Rightarrow> string"
  Unmarshal :: "string \<Rightarrow> string + GatewayConfig"
  unicode_lower :: "string \<Rightarrow> string"
  url_Parse :: url_parser

definition env_port :: "host \<Rightarrow> GatewayConfig \<Rightarrow> GatewayConfig" where
  "env_port h cfg =
     (let v = Getenv h ''GATEFORGE_PORT''
      in if v \<noteq> [] then (case Atoi v of
             Some port \<Rightarrow> cfg\<lparr>Server := (Server cfg)\<lparr>scPort := port\<rparr>\<rparr> | None \<Rightarrow> cfg)
         else cfg)"

definition env_log_level :: "host \<Rightarrow> GatewayConfig \<Rightarrow> GatewayConfig" where
  "env_log_level h cfg =
     (let v = Getenv h ''GATEFORGE_LOG_LEVEL''
      in if v \<noteq> [] then cfg\<lparr>Logging := (Logging cfg)\<lparr>lcLevel := ToLower (unicode_lower h) v\<rparr>\<rparr>
         else cfg)"

definition env_log_format :: "host \<Rightarrow> GatewayConfig \<Rightarrow> GatewayConfig" where
  "env_log_format h cfg =
     (let v = Getenv h ''GATEFORGE_LOG_FORMAT''
      in if v \<noteq> [] then cfg\<lparr>Logging := (Logging cfg)\<lparr>lcFormat := ToLower (unicode_lower h) v\<rparr>\<rparr>
         else cfg)"

definition env_metrics :: "host \<Rightarrow> GatewayConfig \<Rightarrow> GatewayConfig" where
  "env_metrics h cfg =
     (let v = Getenv h ''GATEFORGE_METRICS_ENABLED''
      in if v \<noteq> []
         then cfg\<lparr>Metrics := (Metrics cfg)\<lparr>mcEnabled := v = ''true'' \<or> v = ''1''\<rparr>\<rparr> else cfg)"

definition applyEnvOverrides :: "host \<Rightarrow> GatewayConfig \<Rightarrow> GatewayConfig" where
  "applyEnvOverrides h cfg =
     env_metrics h (env_log_format h (env_log_level h (env_port h cfg)))"

definition Load :: "host \<Rightarrow> string \<Rightarrow> string + GatewayConfig" where
  "Load h path =
     (case ReadFile h path of
        Inl err \<Rightarrow> Inl (''reading config file: '' @ err)
      | Inr data \<Rightarrow>
          (let expanded = os_Expand (Getenv h) data
           in case Unmarshal h expanded of
                Inl err \<Rightarrow> Inl (''parsing config file: '' @ err)
              | Inr cfg \<Rightarrow>
                  (let cfg = ApplyDefaults (applyEnvOverrides h cfg)
                   in case Validate (url_Parse h) cfg of
                        Some err \<Rightarrow> Inl err | None \<Rightarrow> Inr cfg)))"

lemmas env_defs = env_port_def env_log_level_def env_log_format_def env_metrics_def

lemma Load_ok_iff:
  "Load h path = Inr c \<longleftrightarrow>
     (\<exists>data raw. ReadFile h path = Inr data \<and> Unmarshal h (os_Expand (Getenv h) data) = Inr raw
        \<and> c = ApplyDefaults (applyEnvOverrides h raw) \<and> valid_config (url_Parse h) c)"
  by (auto simp: Load_def Let_def Validate_None_iff [symmetric] split: sum.splits option.splits)

lemma Load_valid: "Load h path = Inr c \<Longrightarrow> valid_config (url_Parse h) c"
  by (auto simp: Load_ok_iff)

lemma applyEnvOverrides_frame [simp]:
  "Routes (applyEnvOverrides h c) = Routes c" "CORS (applyEnvOverrides h c) = CORS c"
  "mcPath (Metrics (applyEnvOverrides h c)) = mcPath (Metrics c)"
  by (simp_all add: applyEnvOverrides_def env_defs Let_def split: option.splits)

lemma applyEnvOverrides_port:
  assumes "Getenv h ''GATEFORGE_PORT'' = Itoa p" and "in_int64 p"
  shows "scPort (Server (applyEnvOverrides h c)) = p"
proof -
  have "Itoa p \<noteq> []" using nat_digits_head [of "nat p"] by (auto simp: Itoa_def)
  then show ?thesis
    using assms by (simp add: applyEnvOverrides_def env_defs Let_def Atoi_Itoa)
qed

section \<open>The watcher\<close>

record Watcher =
  wpath :: string
  closed :: bool
  delivered :: "GatewayConfig list"
  wlog :: "LogRecord list"

text \<open>
  What the \<open>select\<close> of \<open>watch\<close> receives: a file event, with the results of its two
  \<open>Has\<close> tests, an error, or the news that one of the channels is closed.
\<close>

datatype received =
    Event bool bool
  | EventsClosed
  | WatchError string
  | ErrorsClosed

text \<open>
  \<open>NewWatcher\<close>: the arguments \<open>new\<close> and \<open>add\<close> are the outcomes of
  \<open>fsnotify.NewWatcher\<close> and of \<open>Add(path)\<close>; \<open>None\<close> is success.
\<close>

definition NewWatcher :: "string option \<Rightarrow> string option \<Rightarrow> string \<Rightarrow> string + Watcher" where
  "NewWatcher new add path =
     (case new of
        Some err \<Rightarrow> Inl (''creating fsnotify watcher: '' @ err)
      | None \<Rightarrow>
          (case add of
             Some err \<Rightarrow> Inl (''watching config file: '' @ err)
           | None \<Rightarrow> Inr \<lparr>wpath = path, closed = False, delivered = [],
               wlog = [log_record LevelInfo ''config watcher started'' [(''path'', AString path)]]\<rparr>))"

text \<open>\<open>delivered\<close> is the sequence of configurations the callback was called with.\<close>

definition reload :: "host \<Rightarrow> Watcher \<Rightarrow> Watcher" where
  "reload h w =
     (if closed w then w
      else case Load h (wpath w) of
          Inl err \<Rightarrow> w\<lparr>wlog := wlog w @ [log_record LevelWarn
              ''config reload failed, keeping current config''
              [(''error'', AString err), (''path'', AString (wpath w))]]\<rparr>
        | Inr cfg \<Rightarrow> w\<lparr>wlog := wlog w @ [log_record LevelInfo ''config reloaded successfully''
              [(''path'', AString (wpath w))]],
            delivered := delivered w @ [cfg]\<rparr>)"

definition Watcher_Close :: "Watcher \<Rightarrow> Watcher" where
  "Watcher_Close w = w\<lparr>closed := True\<rparr>"

text \<open>
  One turn of the loop of \<open>watch\<close>; the second component is whether the loop goes on.
\<close>

definition watch_turn :: "host \<Rightarrow> received \<Rightarrow> Watcher \<Rightarrow> Watcher \<times> bool" where
  "watch_turn h r w =
     (case r of
        Event wr cr \<Rightarrow> (if wr \<or> cr then reload h w else w, True)
      | EventsClosed \<Rightarrow> (w, False)
      | WatchError err \<Rightarrow>
          (w\<lparr>wlog := wlog w @ [log_record LevelError ''config watcher error'' [(''error'', AString err)]]\<rparr>,
           True)
      | ErrorsClosed \<Rightarrow> (w, False))"

text \<open>
  The loop beside calls of \<open>Close\<close> from another goroutine. The mutex makes each reload and
  each \<open>Close\<close> one step; the surroundings may differ from one reload to the next.
\<close>

datatype watcher_step = Receives host received | CloseCall

fun watch :: "watcher_step list \<Rightarrow> bool \<Rightarrow> Watcher \<Rightarrow> Watcher" where
  "watch [] running w = w"
| "watch (CloseCall # ss) running w = watch ss running (Watcher_Close w)"
| "watch (Receives h r # ss) running w =
     (if running then (case watch_turn h r w of (w', go) \<Rightarrow> watch ss go w') else watch ss running w)"

text \<open>
  The reloads that are attempted: one for every write or create event received before the first
  \<open>Close\<close> and before a channel is closed, each with the surroundings of its moment.
\<close>

fun attempts :: "watcher_step list \<Rightarrow> host list" where
  "attempts [] = []"
| "attempts (CloseCall # ss) = []"
| "attempts (Receives h (Event wr cr) # ss) = (if wr \<or> cr then h # attempts ss else attempts ss)"
| "attempts (Receives h (WatchError err) # ss) = attempts ss"
| "attempts (Receives h EventsClosed # ss) = []"
| "attempts (Receives h ErrorsClosed # ss) = []"

definition successes :: "('e + 'a) list \<Rightarrow> 'a list" where
  "successes rs = concat (map (\<lambda>r. case r of Inr c \<Rightarrow> [c] | Inl _ \<Rightarrow> []) rs)"

lemma successes_simps [simp]:
  "successes [] = []" "successes (Inl e # rs) = successes rs" "successes (Inr c # rs) = c # successes rs"
  by (simp_all add: successes_def)

lemma watch_closed:
  assumes "closed w \<or> \<not> running"
  shows "delivered (watch ss running w) = delivered w"
  using assms
proof (induction ss arbitrary: running w)
  case (Cons s ss)
  show ?case
  proof (cases s)
    case (Receives h r)
    then show ?thesis using Cons by (cases r) (auto simp: watch_turn_def reload_def)
  next
    case CloseCall
    then show ?thesis using Cons by (auto simp: Watcher_Close_def)
  qed
qed simp

lemma watch_delivers:
  assumes "\<not> closed w"
  shows "delivered (watch ss True w) =
     delivered w @ successes (map (\<lambda>h. Load h (wpath w)) (attempts ss))"
  using assms
proof (induction ss arbitrary: w rule: attempts.induct)
  case (2 ss)
  then show ?case by (simp add: watch_closed Watcher_Close_def)
next
  case (3 h wr cr ss)
  show ?case
  proof (cases "Load h (wpath w)")
    case (Inl e)
    then show ?thesis using 3 by (auto simp: watch_turn_def reload_def)
  next
    case (Inr c)
    then show ?thesis using 3 by (auto simp: watch_turn_def reload_def)
  qed
qed (auto simp: watch_turn_def watch_closed)

section \<open>Properties\<close>

text \<open>
  C22. \<open>Load\<close> on every branch: a configuration it returns has every default set and is
  valid; an error it returns is the wrapped read error, the wrapped decoding error, or the
  validation report of a configuration that really is invalid.
\<close>

theorem load_classified:
  "case Load h path of
     Inr c \<Rightarrow> valid_config (url_Parse h) c \<and> defaults_set c
       \<and> (\<exists>data raw. ReadFile h path = Inr data \<and> Unmarshal h (os_Expand (Getenv h) data) = Inr raw
            \<and> c = ApplyDefaults (applyEnvOverrides h raw))
   | Inl e \<Rightarrow>
       (\<exists>err. ReadFile h path = Inl err \<and> e = ''reading config file: '' @ err)
       \<or> (\<exists>data err. ReadFile h path = Inr data \<and> Unmarshal h (os_Expand (Getenv h) data) = Inl err
            \<and> e = ''parsing config file: '' @ err)
       \<or> (\<exists>data raw. ReadFile h path = Inr data \<and> Unmarshal h (os_Expand (Getenv h) data) = Inr raw
            \<and> HasPrefix e ''config validation failed:''
            \<and> \<not> valid_config (url_Parse h) (ApplyDefaults (applyEnvOverrides h raw)))"
proof (cases "Load h path")
  case (Inr c)
  then have "valid_config (url_Parse h) c" and "defaults_set c"
    and "\<exists>data raw. ReadFile h path = Inr data \<and> Unmarshal h (os_Expand (Getenv h) data) = Inr raw
            \<and> c = ApplyDefaults (applyEnvOverrides h raw)"
    using defaults_set_ApplyDefaults by (auto simp: Load_ok_iff)
  then show ?thesis using Inr by simp
next
  case (Inl e)
  have prefix: "HasPrefix err ''config validation failed:''" if "Validate p c = Some err" for p c err
    using that by (auto simp: Validate_def Let_def HasPrefix_iff split: if_splits)
  show ?thesis
    using Inl prefix
    by (fastforce simp: Load_def Let_def Validate_None_iff [symmetric] split: sum.splits option.splits)
qed

text \<open>
  C36. The switch \<open>GATEFORGE_METRICS_ENABLED\<close> cannot turn metrics off for a configuration
  file that names no metrics path: whatever the variable holds, and whatever the file says under
  \<open>metrics.enabled\<close>, the loaded configuration has metrics enabled at \<open>/metrics\<close>.
\<close>

theorem metrics_switch_ineffective:
  assumes "ReadFile h path = Inr data" and "Unmarshal h (os_Expand (Getenv h) data) = Inr raw"
    and "mcPath (Metrics raw) = []" and "Load h path = Inr c"
  shows "mcEnabled (Metrics c) \<and> mcPath (Metrics c) = ''/metrics''"
proof -
  have "c = ApplyDefaults (applyEnvOverrides h raw)" using assms by (auto simp: Load_ok_iff)
  then show ?thesis
    using assms(3) by (simp add: ApplyDefaults_def default_metrics_def Let_def)
qed

text \<open>
  C21. Hot reload is exact: the callback of a new watcher is called with exactly the
  configurations loaded successfully at the write and create events received before
  \<open>Close\<close>, in their order; failed loads, other events and everything after \<open>Close\<close>
  deliver nothing.
\<close>

theorem hot_reload_exact:
  assumes "NewWatcher None None path = Inr w"
  shows "delivered (watch ss True w) = successes (map (\<lambda>h. Load h path) (attempts ss))"
  using assms watch_delivers [of w ss] by (auto simp: NewWatcher_def)

definition sample_raw :: GatewayConfig where
  "sample_raw =
     \<lparr>Server = \<lparr>scPort = 0, scReadTimeout = 0, scWriteTimeout = 0, scIdleTimeout = 0\<rparr>,
      Routes = [\<lparr>rcPath = ''/api'', rcMethods = [''GET''],
        rcTargets = [\<lparr>tcURL = ''http://a:1'', tcWeight = 0\<rparr>], rcBalanceStrategy = [],
        rcStripPrefix = False, rcTimeout = 0, rcRateLimit = None, rcCircuitBreaker = None\<rparr>],
      Metrics = \<lparr>mcEnabled = False, mcPath = []\<rparr>,
      Logging = \<lparr>lcLevel = [], lcFormat = []\<rparr>,
      CORS = \<lparr>AllowedOrigins = [], AllowedMethods = [], AllowedHeaders = [], corsMaxAge = 0\<rparr>\<rparr>"

definition sample_host :: host where
  "sample_host =
     \<lparr>ReadFile = (\<lambda>p. if p = ''gw.yaml'' then Inr ''routes'' else Inl ''no such file''),
      Getenv = (\<lambda>v. if v = ''GATEFORGE_METRICS_ENABLED'' then ''false'' else []),
      Unmarshal = (\<lambda>s. if s = ''routes'' then Inr sample_raw else Inl ''bad yaml''),
      unicode_lower = id,
      url_Parse = (\<lambda>s. Inr \<lparr>Scheme = ''http'', Host = ''a:1'', URL_String = s\<rparr>)\<rparr>"

definition sample_loaded :: GatewayConfig where
  "sample_loaded = ApplyDefaults (applyEnvOverrides sample_host sample_raw)"

lemma sample_load: "Load sample_host ''gw.yaml'' = Inr sample_loaded"
proof -
  have "os_Expand (Getenv sample_host) ''routes'' = ''routes''"
    by (rule os_Expand_plain) simp
  moreover have "valid_config (url_Parse sample_host) sample_loaded"
    by (simp add: valid_config_def valid_route_def valid_target_def sample_loaded_def ApplyDefaults_def
        default_defs applyEnvOverrides_def env_defs Let_def sample_host_def sample_raw_def
        Cons_eq_append_conv)
  ultimately show ?thesis
    unfolding Load_ok_iff
    by (intro exI [of _ "''routes''"] exI [of _ sample_raw]) (simp_all add: sample_host_def sample_loaded_def)
qed

theorem metrics_switch_ineffective_witness:
  "Getenv sample_host ''GATEFORGE_METRICS_ENABLED'' = ''false''
   \<and> mcEnabled (Metrics sample_loaded) \<and> mcPath (Metrics sample_loaded) = ''/metrics''"
proof -
  have "os_Expand (Getenv sample_host) ''routes'' = ''routes''"
    by (rule os_Expand_plain) simp
  then have "mcEnabled (Metrics sample_loaded) \<and> mcPath (Metrics sample_loaded) = ''/metrics''"
    by (intro metrics_switch_ineffective [OF _ _ _ sample_load, of "''routes''" sample_raw])
       (simp_all add: sample_host_def sample_raw_def)
  then show ?thesis by (simp add: sample_host_def)
qed

definition broken_host :: host where
  "broken_host = sample_host\<lparr>Unmarshal := \<lambda>_. Inl ''bad yaml''\<rparr>"

definition sample_watcher :: Watcher where
  "sample_watcher = \<lparr>wpath = ''gw.yaml'', closed = False, delivered = [],
     wlog = [log_record LevelInfo ''config watcher started'' [(''path'', AString ''gw.yaml'')]]\<rparr>"

theorem hot_reload_exact_witness:
  "delivered (watch [Receives broken_host (Event True False), Receives sample_host (Event False True),
       CloseCall, Receives sample_host (Event True False)] True sample_watcher) = [sample_loaded]"
proof -
  have "NewWatcher None None ''gw.yaml'' = Inr sample_watcher"
    by (simp add: NewWatcher_def sample_watcher_def)
  moreover have "Load broken_host ''gw.yaml'' = Inl ''parsing config file: bad yaml''"
    by (simp add: Load_def broken_host_def sample_host_def Let_def)
  ultimately show ?thesis
    using hot_reload_exact [of "''gw.yaml''" sample_watcher
        "[Receives broken_host (Event True False), Receives sample_host (Event False True),
          CloseCall, Receives sample_host (Event True False)]"] sample_load
    by simp
qed

end
