(* ===== verification/Mux.thy ===== *)
theory Mux
  imports Http "HOL-Library.Char_ord" "HOL-Library.List_Lexorder"
begin

text \<open>
  What the router uses of \<open>http.ServeMux\<close> (Go 1.22): the parsing of patterns, the conflicts
  between them, for which registration panics, the routing tree, and the choice of a handler for
  a request. Paths with braces are parsed by the argument \<open>other\<close>. A node of the routing tree
  is represented by what is left of the patterns that run through it.
\<close>

section \<open>Patterns\<close>

datatype segment = Lit string | Wild | Multi

record pattern =
  pMethod :: string
  pHost :: string
  pSegs :: "segment list"

text \<open>The part of a path after its first slash, cut at the slashes.\<close>

function split_path :: "string \<Rightarrow> string list" where
  "split_path s =
     (let rest = dropWhile (\<lambda>c. c \<noteq> CHR ''/'') s
      in takeWhile (\<lambda>c. c \<noteq> CHR ''/'') s # (if rest = [] then [] else split_path (tl rest)))"
  by auto
termination
proof (relation "measure length", goal_cases)
  case (2 s rest)
  then have "length rest \<le> length s" by (simp add: length_dropWhile_le)
  moreover have "length (tl rest) < length rest" using 2 by simp
  ultimately show ?case by simp
qed simp

declare split_path.simps [simp del]

text \<open>
  \<open>pathUnescape\<close>: percent escapes are decoded; a piece with a malformed escape is kept.
\<close>

definition hex_val :: "char \<Rightarrow> nat option" where
  "hex_val c =
     (let n = (of_char c :: nat)
      in if 48 \<le> n \<and> n \<le> 57 then Some (n - 48)
         else if 97 \<le> n \<and> n \<le> 102 then Some (n - 87)
         else if 65 \<le> n \<and> n \<le> 70 then Some (n - 55) else None)"

fun pct_decode :: "string \<Rightarrow> string option" where
  "pct_decode [] = Some []"
| "pct_decode (c # cs) =
     (if c = CHR ''%'' then
        (case cs of
           a # b # rest \<Rightarrow>
             (case (hex_val a, hex_val b) of
                (Some x, Some y) \<Rightarrow> map_option ((#) (char_of (16 * x + y))) (pct_decode rest)
              | _ \<Rightarrow> None)
         | _ \<Rightarrow> None)
      else map_option ((#) c) (pct_decode cs))"

definition pathUnescape :: "string \<Rightarrow> string" where
  "pathUnescape s = (case pct_decode s of None \<Rightarrow> s | Some t \<Rightarrow> t)"

text \<open>A literal path: every piece a literal segment, a final slash a multi-segment wildcard.\<close>

definition literal_segs :: "string \<Rightarrow> segment list" where
  "literal_segs path =
     (let ps = split_path (tl path)
      in if last ps = [] then map (Lit \<circ> pathUnescape) (butlast ps) @ [Multi] else map (Lit \<circ> pathUnescape) ps)"

definition plain_path :: "string \<Rightarrow> bool" where
  "plain_path p \<longleftrightarrow> CHR ''{'' \<notin> set p"

definition clean_path :: "string \<Rightarrow> bool" where
  "clean_path path \<longleftrightarrow>
     (let ps = split_path (tl path)
      in list_all (\<lambda>s. s \<notin> {[], ''.'', ''..''}) (butlast ps) \<and> last ps \<notin> {''.'', ''..''})"

definition is_blank :: "char \<Rightarrow> bool" where
  "is_blank c \<longleftrightarrow> c = CHR '' '' \<or> c = CHR 0x09"

text \<open>\<open>parsePattern\<close>; \<open>None\<close> is an error.\<close>

definition parsePattern :: "(string \<Rightarrow> segment list option) \<Rightarrow> string \<Rightarrow> pattern option" where
  "parsePattern other s =
     (let method = (if list_ex is_blank s then takeWhile (\<lambda>c. \<not> is_blank c) s else []);
          rest = (if list_ex is_blank s then dropWhile is_blank (dropWhile (\<lambda>c. \<not> is_blank c) s) else s);
          host = takeWhile (\<lambda>c. c \<noteq> CHR ''/'') rest;
          path = dropWhile (\<lambda>c. c \<noteq> CHR ''/'') rest
      in if \<not> list_all token_char method \<or> path = [] \<or> CHR ''{'' \<in> set host then None
         else if method \<noteq> [] \<and> method \<noteq> ''CONNECT'' \<and> \<not> clean_path path then None
         else map_option (\<lambda>segs. \<lparr>pMethod = method, pHost = host, pSegs = segs\<rparr>)
                (if plain_path path then Some (literal_segs path) else other path))"

section \<open>Conflicts\<close>

datatype relationship = Equivalent | MoreGeneral | MoreSpecific | Disjoint | Overlaps

definition inverseRelationship :: "relationship \<Rightarrow> relationship" where
  "inverseRelationship r = (case r of MoreGeneral \<Rightarrow> MoreSpecific | MoreSpecific \<Rightarrow> MoreGeneral | _ \<Rightarrow> r)"

definition combineRelationships :: "relationship \<Rightarrow> relationship \<Rightarrow> relationship" where
  "combineRelationships r1 r2 = (case r1 of
       Equivalent \<Rightarrow> r2
     | Disjoint \<Rightarrow> Disjoint
     | Overlaps \<Rightarrow> if r2 = Disjoint then Disjoint else Overlaps
     | _ \<Rightarrow> if r2 = Equivalent then r1 else if r2 = inverseRelationship r1 then Overlaps else r2)"

fun compareSegments :: "segment \<Rightarrow> segment \<Rightarrow> relationship" where
  "compareSegments Multi Multi = Equivalent"
| "compareSegments Multi s = MoreGeneral"
| "compareSegments s Multi = MoreSpecific"
| "compareSegments Wild Wild = Equivalent"
| "compareSegments Wild (Lit s) = (if s = ''/'' then Disjoint else MoreGeneral)"
| "compareSegments (Lit s) Wild = (if s = ''/'' then Disjoint else MoreSpecific)"
| "compareSegments (Lit s) (Lit t) = (if s = t then Equivalent else Disjoint)"

text \<open>The loop of \<open>comparePaths\<close> over corresponding segments, and what is left of each.\<close>

fun compare_segs :: "relationship \<Rightarrow> segment list \<Rightarrow> segment list \<Rightarrow> relationship \<times> segment list \<times> segment list" where
  "compare_segs rel (s # ss) (t # ts) =
     (let rel = combineRelationships rel (compareSegments s t)
      in if rel = Disjoint then (Disjoint, ss, ts) else compare_segs rel ss ts)"
| "compare_segs rel ss ts = (rel, ss, ts)"

definition ends_multi :: "segment list \<Rightarrow> bool" where
  "ends_multi ss \<longleftrightarrow> ss \<noteq> [] \<and> last ss = Multi"

definition comparePaths :: "segment list \<Rightarrow> segment list \<Rightarrow> relationship" where
  "comparePaths ss ts =
     (if length ss \<noteq> length ts \<and> \<not> ends_multi ss \<and> \<not> ends_multi ts then Disjoint
      else case compare_segs Equivalent ss ts of
          (rel, ss', ts') \<Rightarrow>
            if rel = Disjoint then Disjoint
            else if ss' = [] \<and> ts' = [] then rel
            else if length ss' < length ts' \<and> ends_multi ss then combineRelationships rel MoreGeneral
            else if length ts' < length ss' \<and> ends_multi ts then combineRelationships rel MoreSpecific
            else Disjoint)"

definition compareMethods :: "string \<Rightarrow> string \<Rightarrow> relationship" where
  "compareMethods m1 m2 =
     (if m1 = m2 then Equivalent else if m1 = [] then MoreGeneral else if m2 = [] then MoreSpecific
      else if m1 = ''GET'' \<and> m2 = ''HEAD'' then MoreGeneral
      else if m2 = ''GET'' \<and> m1 = ''HEAD'' then MoreSpecific else Disjoint)"

definition comparePatterns :: "pattern \<Rightarrow> pattern \<Rightarrow> relationship" where
  "comparePatterns p q =
     (let mrel = compareMethods (pMethod p) (pMethod q)
      in if mrel = Disjoint then Disjoint
         else combineRelationships mrel (comparePaths (pSegs p) (pSegs q)))"

definition conflictsWith :: "pattern \<Rightarrow> pattern \<Rightarrow> bool" where
  "conflictsWith p q \<longleftrightarrow> pHost p = pHost q \<and> comparePatterns p q \<in> {Equivalent, Overlaps}"

section \<open>Registration and matching\<close>

type_synonym 'e mux = "(pattern \<times> 'e) list"

text \<open>\<open>mux.Handle\<close>: \<open>Inl\<close> is the panic.\<close>

definition Handle :: "(string \<Rightarrow> segment list option) \<Rightarrow> string \<Rightarrow> 'e \<Rightarrow> 'e mux \<Rightarrow> string + 'e mux" where
  "Handle other s e m =
     (case parsePattern other s of
        None \<Rightarrow> Inl (''parsing '' @ s)
      | Some p \<Rightarrow> if list_ex (\<lambda>(q, _). conflictsWith p q) m then Inl (''pattern conflict: '' @ s)
                 else Inr (m @ [(p, e)]))"

fun Handle_all :: "(string \<Rightarrow> segment list option) \<Rightarrow> string list \<Rightarrow> 'e \<Rightarrow> 'e mux \<Rightarrow> string + 'e mux" where
  "Handle_all other [] e m = Inr m"
| "Handle_all other (s # ss) e m =
     (case Handle other s e m of Inl p \<Rightarrow> Inl p | Inr m \<Rightarrow> Handle_all other ss e m)"

section \<open>The routing tree\<close>

text \<open>
  The segments of a request path, as \<open>firstSegment\<close> yields them: a final slash is a segment of
  its own.
\<close>

definition path_segs :: "string \<Rightarrow> string list" where
  "path_segs path =
     (let ps = split_path (tl path)
      in if last ps = [] then map pathUnescape (butlast ps) @ [''/''] else map pathUnescape ps)"

text \<open>Literals are filed under their text and single wildcards under the empty string.\<close>

definition seg_key :: "segment \<Rightarrow> string option" where
  "seg_key s = (case s of Lit t \<Rightarrow> Some t | Wild \<Rightarrow> Some [] | Multi \<Rightarrow> None)"

definition findChild :: "string \<Rightarrow> (segment list \<times> 'a) list \<Rightarrow> (segment list \<times> 'a) list" where
  "findChild k ps = map (\<lambda>(ss, e). (tl ss, e)) (filter (\<lambda>(ss, e). ss \<noteq> [] \<and> seg_key (hd ss) = Some k) ps)"

definition leaf :: "segment list \<Rightarrow> (segment list \<times> 'a) list \<Rightarrow> 'a option" where
  "leaf ss ps = map_option snd (find (\<lambda>(ts, e). ts = ss) ps)"

fun matchPath :: "(segment list \<times> 'a) list \<Rightarrow> string list \<Rightarrow> 'a option" where
  "matchPath ps [] = leaf [] ps"
| "matchPath ps (seg # rest) =
     (case matchPath (findChild seg ps) rest of
        Some e \<Rightarrow> Some e
      | None \<Rightarrow>
          (case (if seg \<noteq> ''/'' then matchPath (findChild [] ps) rest else None) of
             Some e \<Rightarrow> Some e
           | None \<Rightarrow> leaf [Multi] ps))"

definition method_node :: "string \<Rightarrow> string \<Rightarrow> 'e mux \<Rightarrow> (segment list \<times> pattern \<times> 'e) list" where
  "method_node host m mx = map (\<lambda>(p, e). (pSegs p, p, e)) (filter (\<lambda>(p, e). pHost p = host \<and> pMethod p = m) mx)"

definition matchMethodAndPath :: "string \<Rightarrow> string \<Rightarrow> string list \<Rightarrow> 'e mux \<Rightarrow> (pattern \<times> 'e) option" where
  "matchMethodAndPath host m segs mx =
     (case matchPath (method_node host m mx) segs of
        Some x \<Rightarrow> Some x
      | None \<Rightarrow>
          (case (if m = ''HEAD'' then matchPath (method_node host ''GET'' mx) segs else None) of
             Some x \<Rightarrow> Some x
           | None \<Rightarrow> matchPath (method_node host [] mx) segs))"

definition tree_match :: "string \<Rightarrow> string \<Rightarrow> string list \<Rightarrow> 'e mux \<Rightarrow> (pattern \<times> 'e) option" where
  "tree_match host m segs mx =
     (case (if host \<noteq> [] then matchMethodAndPath host m segs mx else None) of
        Some x \<Rightarrow> Some x
      | None \<Rightarrow> matchMethodAndPath [] m segs mx)"

section \<open>Finding a handler\<close>

text \<open>\<open>cleanPath\<close>: empty and dot segments dropped, dot-dot segments resolved, a final slash kept.\<close>

fun clean_segs :: "string list \<Rightarrow> string list \<Rightarrow> string list" where
  "clean_segs acc [] = rev acc"
| "clean_segs acc (s # ss) =
     (if s = [] \<or> s = ''.'' then clean_segs acc ss
      else if s = ''..'' then clean_segs (tl acc) ss
      else clean_segs (s # acc) ss)"

definition cleanPath :: "string \<Rightarrow> string" where
  "cleanPath p =
     (if p = [] then ''/''
      else let p = (if hd p \<noteq> CHR ''/'' then ''/'' @ p else p);
               np = ''/'' @ Join (clean_segs [] (split_path (tl p))) ''/''
           in if last p = CHR ''/'' \<and> np \<noteq> ''/'' then np @ ''/'' else np)"

definition exactMatch :: "(pattern \<times> 'e) option \<Rightarrow> string \<Rightarrow> bool" where
  "exactMatch n path = (case n of
       None \<Rightarrow> False
     | Some (p, e) \<Rightarrow> \<not> (ends_multi (pSegs p) \<and> \<not> HasSuffix path ''/'')
         \<and> length (pSegs p) = length (filter (\<lambda>c. c = CHR ''/'') path))"

text \<open>\<open>matchOrRedirect\<close>: \<open>Inl\<close> is the path to redirect to.\<close>

definition matchOrRedirect :: "string \<Rightarrow> string \<Rightarrow> string \<Rightarrow> 'e mux \<Rightarrow> string + (pattern \<times> 'e) option" where
  "matchOrRedirect host m path mx =
     (let n = tree_match host m (path_segs path) mx
      in if \<not> exactMatch n path \<and> \<not> HasSuffix path ''/''
            \<and> exactMatch (tree_match host m (path_segs (path @ ''/'')) mx) (path @ ''/'')
         then Inl (path @ ''/'') else Inr n)"

definition methods_matching :: "string \<Rightarrow> string \<Rightarrow> 'e mux \<Rightarrow> string list" where
  "methods_matching host path mx =
     filter (\<lambda>m. m \<noteq> [] \<and> (matchPath (method_node host m mx) (path_segs path) \<noteq> None
       \<or> matchPath (method_node [] m mx) (path_segs path) \<noteq> None)) (map (pMethod \<circ> fst) mx)"

definition matchingMethods :: "string \<Rightarrow> string \<Rightarrow> 'e mux \<Rightarrow> string list" where
  "matchingMethods host path mx =
     (let ms = methods_matching host path mx @
            (if \<not> HasSuffix path ''/'' then methods_matching host (path @ ''/'') mx else [])
      in sort (remdups (if ''GET'' \<in> set ms then ''HEAD'' # ms else ms)))"

datatype 'e found =
    Found pattern 'e
  | MovedPermanently string
  | MethodNotAllowed "string list"
  | NotFound

text \<open>
  \<open>findHandler\<close> for a request that is not a \<open>CONNECT\<close>; \<open>host\<close> is the request's host
  without a port and \<open>path\<close> its escaped path.
\<close>

definition findHandler :: "string \<Rightarrow> string \<Rightarrow> string \<Rightarrow> 'e mux \<Rightarrow> 'e found" where
  "findHandler host m escaped mx =
     (let path = cleanPath escaped
      in case matchOrRedirect host m path mx of
           Inl to \<Rightarrow> MovedPermanently to
         | Inr n \<Rightarrow>
             if path \<noteq> escaped then MovedPermanently path
             else case n of
                 Some (p, e) \<Rightarrow> Found p e
               | None \<Rightarrow>
                   (let ms = matchingMethods host path mx
                    in if ms \<noteq> [] then MethodNotAllowed ms else NotFound))"

section \<open>Matching\<close>

text \<open>What a pattern means: which methods and paths it matches.\<close>

fun match_segs :: "segment list \<Rightarrow> string list \<Rightarrow> bool" where
  "match_segs [] [] = True"
| "match_segs [Multi] (p # ps) = True"
| "match_segs (Lit s # ss) (p # ps) = (s = p \<and> match_segs ss ps)"
| "match_segs (Wild # ss) (p # ps) = (p \<noteq> ''/'' \<and> match_segs ss ps)"
| "match_segs _ _ = False"

definition match_method :: "string \<Rightarrow> string \<Rightarrow> bool" where
  "match_method pm m \<longleftrightarrow> pm = [] \<or> pm = m \<or> pm = ''GET'' \<and> m = ''HEAD''"

definition pattern_match :: "pattern \<Rightarrow> string \<Rightarrow> string \<Rightarrow> bool" where
  "pattern_match p m path \<longleftrightarrow> match_method (pMethod p) m \<and> match_segs (pSegs p) (path_segs path)"

section \<open>Facts about registration\<close>

lemma compare_segs_self: "compare_segs Equivalent ss ss = (Equivalent, [], [])"
proof (induction ss)
  case (Cons s ss)
  have "compareSegments s s = Equivalent" by (cases s) auto
  with Cons show ?case by (simp add: Let_def combineRelationships_def)
qed simp

lemma conflicts_self: "conflictsWith p p"
  by (simp add: conflictsWith_def comparePatterns_def compareMethods_def comparePaths_def compare_segs_self
      combineRelationships_def Let_def)

lemma Handle_Inr:
  assumes "Handle other s e m = Inr m'"
  obtains p where "parsePattern other s = Some p" "m' = m @ [(p, e)]" "\<forall>(q, _) \<in> set m. \<not> conflictsWith p q"
  using assms by (auto simp: Handle_def list_ex_iff split: option.splits if_splits)

lemma Handle_known:
  assumes "parsePattern other s = Some p" and "(p, e') \<in> set m"
  shows "\<exists>msg. Handle other s e m = Inl msg"
  using assms conflicts_self by (auto simp: Handle_def list_ex_iff)

lemma Handle_all_Inr:
  assumes "Handle_all other ss e m = Inr m'"
  shows "set m \<subseteq> set m' \<and> distinct ss
     \<and> (\<forall>s \<in> set ss. \<exists>p. parsePattern other s = Some p \<and> (p, e) \<in> set m')
     \<and> (\<forall>(p, e') \<in> set m'. (p, e') \<in> set m \<or> e' = e \<and> (\<exists>s \<in> set ss. parsePattern other s = Some p))"
  using assms
proof (induction ss arbitrary: m)
  case (Cons s ss)
  then obtain m1 where m1: "Handle other s e m = Inr m1" "Handle_all other ss e m1 = Inr m'"
    by (auto split: sum.splits)
  obtain p where p: "parsePattern other s = Some p" "m1 = m @ [(p, e)]" using m1(1) by (rule Handle_Inr)
  note IH = Cons.IH [OF m1(2)]
  have "s \<notin> set ss"
  proof
    assume s: "s \<in> set ss"
    have known: "\<exists>msg. Handle_all other ts e n = Inl msg" if "s \<in> set ts" "(p, e) \<in> set n" for ts n
      using that
    proof (induction ts arbitrary: n)
      case (Cons t ts)
      show ?case
      proof (cases "t = s")
        case True
        then show ?thesis using Handle_known [OF p(1) Cons.prems(2), of e] by (auto split: sum.splits)
      next
        case False
        then show ?thesis
          using Cons by (cases "Handle other t e n") (auto elim!: Handle_Inr)
      qed
    qed simp
    show False using known [OF s, of m1] m1(2) p(2) by auto
  qed
  with IH p show ?case by auto
qed simp



section \<open>Conflicts are symmetric\<close>

lemma inverse_inverse [simp]: "inverseRelationship (inverseRelationship r) = r"
  by (simp add: inverseRelationship_def split: relationship.splits)

lemma inverse_combine:
  "inverseRelationship (combineRelationships a b) = combineRelationships (inverseRelationship a) (inverseRelationship b)"
  by (cases a; cases b) (simp_all add: combineRelationships_def inverseRelationship_def)

lemma inverse_Disjoint [simp]:
  "inverseRelationship r = Disjoint \<longleftrightarrow> r = Disjoint" "inverseRelationship Disjoint = Disjoint"
  by (cases r; simp add: inverseRelationship_def)+

lemma compareSegments_sym: "compareSegments t s = inverseRelationship (compareSegments s t)"
  by (cases s; cases t) (simp_all add: inverseRelationship_def)

lemma compare_segs_Nil: "compare_segs rel [] ts = (rel, [], ts)" "compare_segs rel ss [] = (rel, ss, [])"
  by (cases ts; simp) (cases ss; simp)

lemma compare_segs_sym:
  "compare_segs (inverseRelationship rel) ts ss =
     (case compare_segs rel ss ts of (r, a, b) \<Rightarrow> (inverseRelationship r, b, a))"
proof (induction rel ss ts rule: compare_segs.induct)
  case (1 rel s ss t ts)
  have c: "combineRelationships (inverseRelationship rel) (compareSegments t s) =
      inverseRelationship (combineRelationships rel (compareSegments s t))"
    by (simp add: inverse_combine compareSegments_sym [of t s])
  show ?case using 1 by (simp add: Let_def c)
qed (simp_all add: compare_segs_Nil)

lemma comparePaths_sym: "comparePaths ts ss = inverseRelationship (comparePaths ss ts)"
proof -
  obtain r a b where r: "compare_segs Equivalent ss ts = (r, a, b)" by (metis prod_cases3)
  have "inverseRelationship Equivalent = Equivalent" by (simp add: inverseRelationship_def)
  then have "compare_segs Equivalent ts ss = (inverseRelationship r, b, a)"
    using compare_segs_sym [of Equivalent ts ss] r by simp
  moreover have "inverseRelationship MoreGeneral = MoreSpecific" "inverseRelationship MoreSpecific = MoreGeneral"
    by (simp_all add: inverseRelationship_def)
  ultimately show ?thesis using r by (auto simp: comparePaths_def inverse_combine)
qed

lemma compareMethods_sym: "compareMethods n m = inverseRelationship (compareMethods m n)"
  by (auto simp: compareMethods_def inverseRelationship_def)

lemma comparePatterns_sym: "comparePatterns q p = inverseRelationship (comparePatterns p q)"
  by (auto simp: comparePatterns_def Let_def compareMethods_sym [of "pMethod q"] comparePaths_sym [of "pSegs q"] inverse_combine)

lemma conflictsWith_sym: "conflictsWith q p = conflictsWith p q"
  by (cases "comparePatterns p q") (auto simp: conflictsWith_def comparePatterns_sym [of q p] inverseRelationship_def)

section \<open>The tree finds the most specific match\<close>

definition wf_segs :: "segment list \<Rightarrow> bool" where
  "wf_segs ss \<longleftrightarrow> Lit [] \<notin> set ss \<and> Multi \<notin> set (butlast ss)"

text \<open>At the first difference the segment of \<open>ss\<close> is the more specific one.\<close>

fun preferred :: "segment list \<Rightarrow> segment list \<Rightarrow> bool" where
  "preferred [] [] = True"
| "preferred (s # ss) (t # ts) = (if s = t then preferred ss ts else compareSegments s t = MoreSpecific)"
| "preferred _ _ = False"

lemma findChild_mem:
  "(ts, e) \<in> set (findChild k ps) \<longleftrightarrow> (\<exists>s. (s # ts, e) \<in> set ps \<and> seg_key s = Some k)"
  by (force simp: findChild_def neq_Nil_conv)

lemma findChild_Lit: "(Lit k # ts, e) \<in> set ps \<Longrightarrow> (ts, e) \<in> set (findChild k ps)"
  and findChild_Wild: "(Wild # ts, e) \<in> set ps \<Longrightarrow> (ts, e) \<in> set (findChild [] ps)"
  by (force simp: findChild_mem seg_key_def)+

lemma leaf_Some: "leaf ss ps = Some e \<Longrightarrow> (ss, e) \<in> set ps"
  by (auto simp: leaf_def find_Some_iff) (metis nth_mem)

lemma leaf_None: "leaf ss ps = None \<longleftrightarrow> (\<forall>e. (ss, e) \<notin> set ps)"
  by (force simp: leaf_def find_None_iff)

lemma match_segs_Cons:
  "match_segs (s # ss) (p # ps) \<longleftrightarrow> (case s of
       Lit t \<Rightarrow> t = p \<and> match_segs ss ps | Wild \<Rightarrow> p \<noteq> ''/'' \<and> match_segs ss ps | Multi \<Rightarrow> ss = [])"
  by (cases s; cases ss) auto

lemma match_segs_Nil [simp]: "match_segs ss [] \<longleftrightarrow> ss = []" "match_segs [] ps \<longleftrightarrow> ps = []"
  by (cases ss; simp) (cases ps; simp)

lemma matchPath_None:
  assumes "matchPath ps segs = None" and "(ss, e) \<in> set ps"
  shows "\<not> match_segs ss segs"
  using assms
proof (induction ps segs arbitrary: ss rule: matchPath.induct)
  case (1 ps)
  then show ?case by (auto simp: leaf_None)
next
  case (2 ps seg rest)
  from 2(3) have none: "matchPath (findChild seg ps) rest = None" "leaf [Multi] ps = None"
    "seg \<noteq> ''/'' \<Longrightarrow> matchPath (findChild [] ps) rest = None"
    by (auto split: option.splits if_splits)
  show ?case
  proof
    assume m: "match_segs ss (seg # rest)"
    then obtain s ts where ss: "ss = s # ts" by (cases ss) auto
    show False
    proof (cases s)
      case (Lit t)
      then have "(ts, e) \<in> set (findChild seg ps)" "match_segs ts rest"
        using m ss 2(4) by (auto intro: findChild_Lit)
      then show False using 2(1) none(1) by blast
    next
      case Wild
      then have "(ts, e) \<in> set (findChild [] ps)" "match_segs ts rest" "seg \<noteq> ''/''"
        using m ss 2(4) by (auto intro: findChild_Wild)
      then show False using 2(2) none by auto
    next
      case Multi
      then have "ss = [Multi]" using m ss by (simp add: match_segs_Cons)
      then show False using none(2) 2(4) by (simp add: leaf_None)
    qed
  qed
qed

lemma wf_segs_Cons: "wf_segs (s # ss) \<Longrightarrow> wf_segs ss"
  by (cases ss) (auto simp: wf_segs_def)

lemma matchPath_best:
  assumes "matchPath ps segs = Some e" and "\<forall>(ss, e) \<in> set ps. wf_segs ss" and "[] \<notin> set segs"
  shows "\<exists>ss. (ss, e) \<in> set ps \<and> match_segs ss segs
    \<and> (\<forall>(ts, f) \<in> set ps. match_segs ts segs \<longrightarrow> preferred ss ts)"
  using assms
proof (induction ps segs rule: matchPath.induct)
  case (1 ps)
  then show ?case by (intro exI [of _ "[]"]) (auto dest: leaf_Some)
next
  case (2 ps seg rest)
  have wf: "\<forall>(ss, e) \<in> set (findChild k ps). wf_segs ss" for k
    using 2(4) wf_segs_Cons by (fastforce simp: findChild_mem)
  have seg: "seg \<noteq> []" "[] \<notin> set rest" using 2(5) by auto
  have lit: "s = Lit seg" if "(s # ts, f) \<in> set ps" "seg_key s = Some seg" for s ts f
    using that seg(1) by (cases s) (auto simp: seg_key_def)
  have wild: "s = Wild" if "(s # ts, f) \<in> set ps" "seg_key s = Some []" for s ts f
    using that 2(4) by (cases s) (auto simp: seg_key_def wf_segs_def)
  consider (c) "matchPath (findChild seg ps) rest = Some e"
    | (w) "matchPath (findChild seg ps) rest = None" "seg \<noteq> ''/''" "matchPath (findChild [] ps) rest = Some e"
    | (m) "matchPath (findChild seg ps) rest = None" "seg \<noteq> ''/'' \<Longrightarrow> matchPath (findChild [] ps) rest = None"
        "leaf [Multi] ps = Some e"
    using 2(3) by (auto split: option.splits if_splits)
  then show ?case
  proof cases
    case c
    then obtain ts where ts: "(ts, e) \<in> set (findChild seg ps)" "match_segs ts rest"
      "\<forall>(us, f) \<in> set (findChild seg ps). match_segs us rest \<longrightarrow> preferred ts us"
      using 2(1) wf seg(2) by blast
    then have mem: "(Lit seg # ts, e) \<in> set ps" using lit by (auto simp: findChild_mem)
    have "preferred (Lit seg # ts) us" if "(us, f) \<in> set ps" "match_segs us (seg # rest)" for us f
      using that ts(3) findChild_Lit
      by (cases us) (fastforce simp: match_segs_Cons split: segment.splits)+
    with mem ts(2) show ?thesis by (intro exI [of _ "Lit seg # ts"]) auto
  next
    case w
    then obtain ts where ts: "(ts, e) \<in> set (findChild [] ps)" "match_segs ts rest"
      "\<forall>(us, f) \<in> set (findChild [] ps). match_segs us rest \<longrightarrow> preferred ts us"
      using 2(2) wf seg(2) by (auto simp: w)
    then have mem: "(Wild # ts, e) \<in> set ps" using wild by (auto simp: findChild_mem)
    have "preferred (Wild # ts) us" if us: "(us, f) \<in> set ps" "match_segs us (seg # rest)" for us f
    proof -
      obtain u vs where u: "us = u # vs" using us(2) by (cases us) auto
      show ?thesis
      proof (cases u)
        case (Lit t)
        then have "(vs, f) \<in> set (findChild seg ps)" "match_segs vs rest"
          using us u by (auto intro: findChild_Lit)
        then show ?thesis using matchPath_None [OF w(1)] by blast
      next
        case Wild
        then have "(vs, f) \<in> set (findChild [] ps)" "match_segs vs rest"
          using us u by (auto intro: findChild_Wild)
        then show ?thesis using ts(3) Wild u by auto
      qed (simp add: u)
    qed
    with mem ts(2) w(2) show ?thesis by (intro exI [of _ "Wild # ts"]) auto
  next
    case m
    have "us = [Multi]" if us: "(us, f) \<in> set ps" "match_segs us (seg # rest)" for us f
    proof -
      obtain u vs where u: "us = u # vs" using us(2) by (cases us) auto
      show ?thesis
      proof (cases u)
        case (Lit t)
        then have "(vs, f) \<in> set (findChild seg ps)" "match_segs vs rest"
          using us u by (auto intro: findChild_Lit)
        then show ?thesis using matchPath_None [OF m(1)] by blast
      next
        case Wild
        then have "(vs, f) \<in> set (findChild [] ps)" "match_segs vs rest" "seg \<noteq> ''/''"
          using us u by (auto intro: findChild_Wild)
        then show ?thesis using matchPath_None [OF m(2)] by blast
      qed (use us u in \<open>simp add: match_segs_Cons\<close>)
    qed
    then have "preferred [Multi] us" if "(us, f) \<in> set ps" "match_segs us (seg # rest)" for us f
      using that by fastforce
    with leaf_Some [OF m(3)] show ?thesis by (intro exI [of _ "[Multi]"]) auto
  qed
qed

text \<open>
  The end of \<open>comparePaths\<close>, with the two tests of the last segments as arguments, so that it
  can be followed along the segments.
\<close>

definition close_paths :: "bool \<Rightarrow> bool \<Rightarrow> relationship \<times> segment list \<times> segment list \<Rightarrow> relationship" where
  "close_paths m1 m2 = (\<lambda>(rel, ss, ts).
     if rel = Disjoint then Disjoint
     else if ss = [] \<and> ts = [] then rel
     else if length ss < length ts \<and> m1 then combineRelationships rel MoreGeneral
     else if length ts < length ss \<and> m2 then combineRelationships rel MoreSpecific
     else Disjoint)"

lemma comparePaths_close:
  assumes "match_segs ss segs" and "match_segs ts segs"
  shows "comparePaths ss ts = close_paths (ends_multi ss) (ends_multi ts) (compare_segs Equivalent ss ts)"
proof -
  have len: "length us = length segs" if "match_segs us segs" "\<not> ends_multi us" for us
    using that
  proof (induction us arbitrary: segs)
    case (Cons u us)
    then obtain p ps where p: "segs = p # ps" by (cases segs) auto
    show ?case using Cons by (auto simp: p match_segs_Cons ends_multi_def split: segment.splits if_splits)
  qed simp
  then have "length ss = length ts \<or> ends_multi ss \<or> ends_multi ts" using assms by metis
  then show ?thesis by (auto simp: comparePaths_def close_paths_def split: prod.splits)
qed

lemma compareSegments_match:
  assumes "match_segs (s # ss) (p # ps)" and "match_segs (t # ts) (p # ps)"
  shows "compareSegments s t \<in> {Equivalent, MoreGeneral, MoreSpecific}"
  using assms by (cases s; cases t) (auto simp: match_segs_Cons)

lemma ends_multi_Cons: "ss \<noteq> [] \<Longrightarrow> ends_multi (s # ss) = ends_multi ss"
  by (simp add: ends_multi_def)

lemma more_specific_stays:
  assumes "match_segs ss segs" and "match_segs ts segs" and "rel \<in> {MoreSpecific, Overlaps}"
    and "ss \<noteq> [] \<Longrightarrow> m1 = ends_multi ss" and "ts \<noteq> [] \<Longrightarrow> m2 = ends_multi ts"
  shows "close_paths m1 m2 (compare_segs rel ss ts) \<in> {MoreSpecific, Overlaps}"
  using assms
proof (induction segs arbitrary: ss ts rel)
  case Nil
  then show ?case by (auto simp: close_paths_def)
next
  case (Cons p ps)
  obtain s us t vs where st: "ss = s # us" "ts = t # vs"
    using Cons.prems(1,2) by (cases ss; cases ts) auto
  define r where "r = combineRelationships rel (compareSegments s t)"
  have "compareSegments s t \<in> {Equivalent, MoreGeneral, MoreSpecific}"
    using Cons.prems(1,2) compareSegments_match unfolding st by blast
  then have r: "r \<in> {MoreSpecific, Overlaps}"
    using Cons.prems(3) by (auto simp: r_def combineRelationships_def inverseRelationship_def)
  then have step: "compare_segs rel ss ts = compare_segs r us vs" by (auto simp: st r_def [symmetric] Let_def)
  show ?case
  proof (cases "s = Multi \<or> t = Multi")
    case True
    then consider "us = []" m1 | "vs = []" m2
      using Cons.prems by (auto simp: st match_segs_Cons ends_multi_def)
    then show ?thesis
      unfolding step using r
      by cases (auto simp: close_paths_def combineRelationships_def inverseRelationship_def compare_segs_Nil)
  next
    case False
    then have "match_segs us ps" "match_segs vs ps"
      using Cons.prems(1,2) by (auto simp: st match_segs_Cons split: segment.splits)
    then show ?thesis
      unfolding step using r Cons.prems(4,5) by (intro Cons.IH) (auto simp: st ends_multi_Cons)
  qed
qed

lemma preferred_more_specific:
  assumes "match_segs ss segs" and "match_segs ts segs" and "preferred ss ts" and "ss \<noteq> ts"
    and "m1 = ends_multi ss" and "m2 = ends_multi ts"
  shows "close_paths m1 m2 (compare_segs Equivalent ss ts) \<in> {MoreSpecific, Overlaps}"
  using assms
proof (induction ss ts arbitrary: segs rule: preferred.induct)
  case (2 s ss t ts)
  obtain p ps where p: "segs = p # ps" using 2(2) by (cases segs) auto
  show ?case
  proof (cases "s = t")
    case True
    then have eq: "compare_segs Equivalent (s # ss) (t # ts) = compare_segs Equivalent ss ts"
      by (cases t) (simp_all add: Let_def combineRelationships_def)
    have "s \<noteq> Multi" using 2(2,3,5) True by (auto simp: p match_segs_Cons)
    then have m: "match_segs ss ps" "match_segs ts ps"
      using 2(2,3) True by (auto simp: p match_segs_Cons split: segment.splits)
    moreover have "ss \<noteq> []" "ts \<noteq> []" using 2(4,5) True m by (auto elim: preferred.elims)
    ultimately show ?thesis using 2 True unfolding eq by (auto simp: ends_multi_Cons)
  next
    case False
    then have r: "compareSegments s t = MoreSpecific" using 2(4) by simp
    then have eq: "compare_segs Equivalent (s # ss) (t # ts) = compare_segs MoreSpecific ss ts"
      by (simp add: Let_def combineRelationships_def)
    show ?thesis
    proof (cases "t = Multi")
      case True
      then have "ts = []" m2 using 2(3,7) by (auto simp: p match_segs_Cons ends_multi_def)
      then show ?thesis
        unfolding eq by (simp add: compare_segs_Nil close_paths_def combineRelationships_def)
    next
      case nt: False
      with r have "s \<noteq> Multi" by (cases t) auto
      then have "match_segs ss ps" "match_segs ts ps"
        using 2(2,3) nt by (auto simp: p match_segs_Cons split: segment.splits)
      then show ?thesis
        unfolding eq using 2(6,7) by (intro more_specific_stays) (auto simp: ends_multi_Cons)
    qed
  qed
qed auto

lemma preferred_path:
  assumes "match_segs ss segs" and "match_segs ts segs" and "preferred ss ts"
  shows "ss = ts \<or> comparePaths ss ts \<in> {MoreSpecific, Overlaps}"
  using preferred_more_specific [OF assms] comparePaths_close [OF assms(1,2)] by auto

lemma match_not_disjoint:
  assumes "match_segs ss segs" and "match_segs ts segs"
  shows "comparePaths ss ts \<noteq> Disjoint"
proof -
  have tot: "preferred ss ts \<or> preferred ts ss"
    using assms
  proof (induction segs arbitrary: ss ts)
    case (Cons p ps)
    obtain s us t vs where st: "ss = s # us" "ts = t # vs" using Cons.prems by (cases ss; cases ts) auto
    show ?case
    proof (cases "s = t")
      case True
      then show ?thesis
        using Cons.IH [of us vs] Cons.prems by (auto simp: st match_segs_Cons split: segment.splits)
    next
      case False
      then show ?thesis using Cons.prems by (cases s; cases t) (auto simp: st match_segs_Cons)
    qed
  qed simp
  have self: "comparePaths ss ss \<noteq> Disjoint" by (simp add: comparePaths_def compare_segs_self)
  show ?thesis
    using tot preferred_path [OF assms] preferred_path [OF assms(2,1)] self comparePaths_sym [of ss ts]
    by (auto simp: inverseRelationship_def)
qed

section \<open>The choice among all patterns\<close>

definition conflict_free :: "'e mux \<Rightarrow> bool" where
  "conflict_free mx \<longleftrightarrow> (\<forall>(p, e) \<in> set mx. \<forall>(q, f) \<in> set mx. (p, e) \<noteq> (q, f) \<longrightarrow> \<not> conflictsWith p q)"

lemma conflict_free_Nil [simp]: "conflict_free []"
  by (simp add: conflict_free_def)

lemma Handle_conflict_free: "Handle other s e mx = Inr mx' \<Longrightarrow> conflict_free mx \<Longrightarrow> conflict_free mx'"
  by (erule Handle_Inr) (auto simp: conflict_free_def conflictsWith_sym)

lemma Handle_all_conflict_free: "Handle_all other ss e mx = Inr mx' \<Longrightarrow> conflict_free mx \<Longrightarrow> conflict_free mx'"
  by (induction ss arbitrary: mx) (auto split: sum.splits dest: Handle_conflict_free)

text \<open>What the mux should choose: a matching pattern more specific than every other one.\<close>

definition matches :: "string \<Rightarrow> string \<Rightarrow> string list \<Rightarrow> pattern \<Rightarrow> bool" where
  "matches host m segs p \<longleftrightarrow> pHost p = host \<and> match_method (pMethod p) m \<and> match_segs (pSegs p) segs"

definition most_specific :: "string \<Rightarrow> string \<Rightarrow> string list \<Rightarrow> 'e mux \<Rightarrow> pattern \<times> 'e \<Rightarrow> bool" where
  "most_specific host m segs mx x \<longleftrightarrow> x \<in> set mx \<and> matches host m segs (fst x)
     \<and> (\<forall>y \<in> set mx. matches host m segs (fst y) \<longrightarrow> y = x \<or> comparePatterns (fst x) (fst y) = MoreSpecific)"

definition wf_mux :: "'e mux \<Rightarrow> bool" where
  "wf_mux mx \<longleftrightarrow> conflict_free mx \<and> (\<forall>(p, e) \<in> set mx. wf_segs (pSegs p))"

lemma method_node_mem:
  "(ss, x) \<in> set (method_node host m mx) \<longleftrightarrow> x \<in> set mx \<and> pHost (fst x) = host \<and> pMethod (fst x) = m \<and> ss = pSegs (fst x)"
  by (cases x) (force simp: method_node_def)

lemma method_node_None:
  assumes "matchPath (method_node host m mx) segs = None" and "(p, e) \<in> set mx" "pHost p = host" "pMethod p = m"
  shows "\<not> match_segs (pSegs p) segs"
  using assms(2-4) by (intro matchPath_None [OF assms(1), of "pSegs p" "(p, e)"]) (simp add: method_node_mem)

lemma method_node_best:
  assumes "matchPath (method_node host m mx) segs = Some (p, e)" and "wf_mux mx" and "[] \<notin> set segs"
  shows "(p, e) \<in> set mx \<and> pHost p = host \<and> pMethod p = m \<and> match_segs (pSegs p) segs
    \<and> (\<forall>(q, f) \<in> set mx. pHost q = host \<and> pMethod q = m \<and> match_segs (pSegs q) segs \<longrightarrow> preferred (pSegs p) (pSegs q))"
proof -
  have "\<forall>(ss, x) \<in> set (method_node host m mx). wf_segs ss"
    using assms(2) by (fastforce simp: wf_mux_def method_node_mem)
  from matchPath_best [OF assms(1) this assms(3)] show ?thesis
    by (auto simp: method_node_mem) (fastforce simp: method_node_mem)
qed

lemma comparePatterns_better:
  assumes "wf_mux mx" "(p, e) \<in> set mx" "(q, f) \<in> set mx" "pHost p = pHost q"
    and "match_segs (pSegs p) segs" "match_segs (pSegs q) segs"
    and "compareMethods (pMethod p) (pMethod q) = MoreSpecific
      \<or> pMethod p = pMethod q \<and> preferred (pSegs p) (pSegs q)"
  shows "(q, f) = (p, e) \<or> comparePatterns p q = MoreSpecific"
proof (rule disjCI)
  assume ne: "comparePatterns p q \<noteq> MoreSpecific"
  have path: "comparePaths (pSegs p) (pSegs q) \<noteq> Disjoint" using assms(5,6) by (rule match_not_disjoint)
  show "(q, f) = (p, e)"
  proof (rule ccontr)
    assume "(q, f) \<noteq> (p, e)"
    then have "\<not> conflictsWith p q" using assms(1-3) by (fastforce simp: wf_mux_def conflict_free_def)
    then have c: "comparePatterns p q \<notin> {Equivalent, Overlaps}" using assms(4) by (simp add: conflictsWith_def)
    from assms(7) show False
    proof
      assume "compareMethods (pMethod p) (pMethod q) = MoreSpecific"
      then show False
        using ne c path by (cases "comparePaths (pSegs p) (pSegs q)")
          (auto simp: comparePatterns_def Let_def combineRelationships_def inverseRelationship_def)
    next
      assume m: "pMethod p = pMethod q \<and> preferred (pSegs p) (pSegs q)"
      then have "comparePatterns p q = comparePaths (pSegs p) (pSegs q)"
        by (simp add: comparePatterns_def compareMethods_def combineRelationships_def Let_def)
      moreover have "comparePaths (pSegs p) (pSegs p) = Equivalent" by (simp add: comparePaths_def compare_segs_self)
      ultimately show False using preferred_path [OF assms(5,6)] m ne c by auto
    qed
  qed
qed

text \<open>
  The search of the tree, method by method, agrees with the choice of the most specific pattern.
\<close>

lemma matchMethodAndPath_None:
  assumes "matchMethodAndPath host m segs mx = None" and "(p, e) \<in> set mx"
  shows "\<not> matches host m segs p"
  using assms method_node_None [of host _ mx segs p e]
  by (auto simp: matchMethodAndPath_def matches_def match_method_def split: option.splits if_splits)

lemma matchMethodAndPath_best:
  assumes "matchMethodAndPath host m segs mx = Some x" and "wf_mux mx" and "[] \<notin> set segs"
  shows "most_specific host m segs mx x"
proof -
  obtain p e where x: "x = (p, e)" by fastforce
  obtain n where n: "matchPath (method_node host n mx) segs = Some (p, e)"
    "n = m \<or> matchPath (method_node host m mx) segs = None"
    "n = m \<or> m = ''HEAD'' \<and> n = ''GET'' \<or> n = [] \<and> (m = ''HEAD'' \<longrightarrow> matchPath (method_node host ''GET'' mx) segs = None)"
    using assms(1) by (auto simp: x matchMethodAndPath_def split: option.splits if_splits)
  note B = method_node_best [OF n(1) assms(2,3)]
  have "(q, f) = (p, e) \<or> comparePatterns p q = MoreSpecific"
    if q: "(q, f) \<in> set mx" "matches host m segs q" for q f
  proof (rule comparePatterns_better [OF assms(2) _ q(1)])
    show "(p, e) \<in> set mx" "pHost p = pHost q" "match_segs (pSegs p) segs" "match_segs (pSegs q) segs"
      using B q by (auto simp: matches_def)
    have "pMethod q = n \<or> compareMethods n (pMethod q) = MoreSpecific"
      using n(2,3) q method_node_None [OF _ q(1), of host _ segs]
      by (auto simp: matches_def match_method_def compareMethods_def)
    then show "compareMethods (pMethod p) (pMethod q) = MoreSpecific
        \<or> pMethod p = pMethod q \<and> preferred (pSegs p) (pSegs q)"
      using B q by (auto simp: matches_def)
  qed
  then have "\<forall>y \<in> set mx. matches host m segs (fst y) \<longrightarrow> y = x \<or> comparePatterns (fst x) (fst y) = MoreSpecific"
    by (metis x fst_conv prod.collapse)
  moreover have "matches host m segs p" using B n(3) by (auto simp: matches_def match_method_def)
  ultimately show ?thesis using B by (simp add: x most_specific_def)
qed

section \<open>The contract of a dispatcher\<close>

text \<open>
  What the clients of the mux rely on: nothing is chosen only when nothing matches, and what is
  chosen is the most specific match. Together the two laws determine the choice.
\<close>

locale dispatcher =
  fixes pick :: "string \<Rightarrow> string \<Rightarrow> string list \<Rightarrow> 'e mux \<Rightarrow> (pattern \<times> 'e) option"
  assumes pick_None: "pick host m segs mx = None \<Longrightarrow> (p, e) \<in> set mx \<Longrightarrow> \<not> matches host m segs p"
    and pick_Some: "pick host m segs mx = Some x \<Longrightarrow> wf_mux mx \<Longrightarrow> [] \<notin> set segs \<Longrightarrow> most_specific host m segs mx x"
begin

lemma pick_iff:
  assumes "wf_mux mx" and "[] \<notin> set segs"
  shows "pick host m segs mx = Some x \<longleftrightarrow> most_specific host m segs mx x"
proof
  assume x: "most_specific host m segs mx x"
  then obtain y where y: "pick host m segs mx = Some y"
    using pick_None [of host m segs mx] by (metis most_specific_def not_Some_eq prod.collapse)
  then have "most_specific host m segs mx y" using pick_Some assms by blast
  with x have "y = x \<or> comparePatterns (fst x) (fst y) = MoreSpecific \<and> comparePatterns (fst y) (fst x) = MoreSpecific"
    by (auto simp: most_specific_def)
  then show "pick host m segs mx = Some x"
    using y comparePatterns_sym [of "fst y" "fst x"] by (auto simp: inverseRelationship_def)
qed (use pick_Some assms in blast)

lemma pick_host:
  assumes "wf_mux mx" and "[] \<notin> set segs" and "\<forall>(p, e) \<in> set mx. pHost p \<noteq> host"
  shows "pick host m segs mx = None"
  using assms pick_Some [of host m segs mx]
  by (cases "pick host m segs mx") (fastforce simp: most_specific_def matches_def)+

end

interpretation tree: dispatcher matchMethodAndPath
  by unfold_locales (auto dest: matchMethodAndPath_None intro: matchMethodAndPath_best)

lemma tree_match_local:
  assumes "wf_mux mx" and "[] \<notin> set segs" and "\<forall>(p, e) \<in> set mx. pHost p = []"
  shows "tree_match host m segs mx = matchMethodAndPath [] m segs mx"
  using tree.pick_host [OF assms(1,2), of host m] assms(3) by (fastforce simp: tree_match_def)

end
