(* ===== verification/Router.thy ===== *)
theory Router
  imports Request_Path Health Loader Mux
begin

text \<open>
  The router, \<open>internal/server/router.go\<close>: the routes registered with the \<open>http.ServeMux\<close> of
  theory \<open>Mux\<close>, the state made for each of them, and the system endpoints. Paths with braces
  are parsed by the argument \<open>other\<close>.
\<close>

section \<open>Endpoints\<close>

datatype endpoint = HealthEp | ReadyEp | MetricsEp | RouteEp nat

section \<open>BuildRouter\<close>

record Router =
  rMux :: "endpoint mux"
  rStores :: "nat \<rightharpoonup> InMemoryStore"
  rBreakers :: "nat \<rightharpoonup> CircuitBreaker"
  rBalancers :: "nat \<rightharpoonup> Balancer"
  rCheckers :: "HealthCheckerImpl list"
  rLog :: "LogRecord list"

definition route_patterns :: "RouteConfig \<Rightarrow> string list" where
  "route_patterns rc =
     (let pattern = (if \<not> HasSuffix (rcPath rc) ''/'' then rcPath rc @ ''/'' else rcPath rc)
      in if rcMethods rc = [] then [pattern, rcPath rc]
         else concat (map (\<lambda>method. [method @ '' '' @ pattern, method @ '' '' @ rcPath rc]) (rcMethods rc)))"

definition route_breaker :: "Time \<Rightarrow> CircuitBreakerConfig \<Rightarrow> CircuitBreaker" where
  "route_breaker now cb = NewBreaker
     \<lparr>FailureThreshold = cbFailureThreshold cb, ResetTimeout = cbResetTimeout cb,
      HalfOpenMaxReqs = cbHalfOpenMaxReqs cb, FailureWindow = 60 * time_Second\<rparr> True now"

text \<open>The body of the loop over the routes, for the route with number \<open>n\<close>.\<close>

definition add_route ::
  "url_parser \<Rightarrow> (string \<Rightarrow> segment list option) \<Rightarrow> Time \<Rightarrow> nat \<Rightarrow> RouteConfig \<Rightarrow> Router \<Rightarrow> string + Router" where
  "add_route parse other now n rc rt =
     (case NewFromConfig parse rc of
        (bal, warnings) \<Rightarrow>
          (let rt = rt\<lparr>rBalancers := (rBalancers rt)(n \<mapsto> bal), rLog := rLog rt @ warnings,
                 rCheckers := rCheckers rt @ [NewHealthChecker bal []],
                 rStores := (case rcRateLimit rc of None \<Rightarrow> rStores rt
                   | Some rl \<Rightarrow> (rStores rt)(n \<mapsto> NewInMemoryStore (rlRequestsPerSecond rl) (rlBurst rl))),
                 rBreakers := (case rcCircuitBreaker rc of None \<Rightarrow> rBreakers rt
                   | Some cb \<Rightarrow> (rBreakers rt)(n \<mapsto> route_breaker now cb))\<rparr>
           in case Handle_all other (route_patterns rc) (RouteEp n) (rMux rt) of
                Inl p \<Rightarrow> Inl p
              | Inr m \<Rightarrow> Inr (rt\<lparr>rMux := m,
                  rLog := rLog rt @ [log_record LevelInfo ''route registered''
                    [(''path'', AString (rcPath rc)), (''targets'', AInt (int (length (rcTargets rc)))),
                     (''strategy'', AString (rcBalanceStrategy rc))]]\<rparr>)))"

fun add_routes ::
  "url_parser \<Rightarrow> (string \<Rightarrow> segment list option) \<Rightarrow> Time \<Rightarrow> nat \<Rightarrow> RouteConfig list \<Rightarrow> Router \<Rightarrow> string + Router" where
  "add_routes parse other now n [] rt = Inr rt"
| "add_routes parse other now n (rc # rcs) rt =
     (case add_route parse other now n rc rt of
        Inl p \<Rightarrow> Inl p | Inr rt \<Rightarrow> add_routes parse other now (n + 1) rcs rt)"

definition BuildRouter ::
  "url_parser \<Rightarrow> (string \<Rightarrow> segment list option) \<Rightarrow> Time \<Rightarrow> GatewayConfig \<Rightarrow> string + Router" where
  "BuildRouter parse other now cfg =
     (case Handle other ''GET /health'' HealthEp [] of
        Inl p \<Rightarrow> Inl p
      | Inr m \<Rightarrow>
          (case Handle other ''GET /ready'' ReadyEp m of
             Inl p \<Rightarrow> Inl p
           | Inr m \<Rightarrow>
               (case (if mcEnabled (Metrics cfg) then Handle other (''GET '' @ mcPath (Metrics cfg)) MetricsEp m
                      else Inr m) of
                  Inl p \<Rightarrow> Inl p
                | Inr m \<Rightarrow> add_routes parse other now 0 (Routes cfg)
                    \<lparr>rMux = m, rStores = Map.empty, rBreakers = Map.empty, rBalancers = Map.empty,
                     rCheckers = [], rLog = []\<rparr>)))"

section \<open>System endpoints\<close>

definition healthHandler :: handler where
  "healthHandler r w g =
     (Returned, respond_json 200 (JObject [(''status'', JString ''healthy'')]) g w, g)"

definition readinessHandler :: "GatewayConfig \<Rightarrow> handler" where
  "readinessHandler cfg r w g =
     (Returned, respond_json 200 (JObject [(''routes'', JInt (int (length (Routes cfg)))),
        (''status'', JString ''ready'')]) g w, g)"

section \<open>Facts about registration\<close>

lemma route_patterns_trailing:
  assumes "HasSuffix (rcPath rc) ''/''"
  shows "\<not> distinct (route_patterns rc)"
  using assms by (cases "rcMethods rc") (auto simp: route_patterns_def Let_def)

lemma add_route_Inr:
  assumes "add_route parse other now n rc rt = Inr rt'"
  shows "Handle_all other (route_patterns rc) (RouteEp n) (rMux rt) = Inr (rMux rt')"
    and "rBalancers rt' = (rBalancers rt)(n \<mapsto> fst (NewFromConfig parse rc))"
    and "rStores rt' = (case rcRateLimit rc of None \<Rightarrow> rStores rt
           | Some rl \<Rightarrow> (rStores rt)(n \<mapsto> NewInMemoryStore (rlRequestsPerSecond rl) (rlBurst rl)))"
    and "rBreakers rt' = (case rcCircuitBreaker rc of None \<Rightarrow> rBreakers rt
           | Some cb \<Rightarrow> (rBreakers rt)(n \<mapsto> route_breaker now cb))"
    and "length (rCheckers rt') = Suc (length (rCheckers rt))"
  using assms by (auto simp: add_route_def Let_def split: prod.splits sum.splits)

text \<open>What the router holds for route \<open>n\<close>.\<close>

definition route_built :: "url_parser \<Rightarrow> (string \<Rightarrow> segment list option) \<Rightarrow> Time \<Rightarrow> nat \<Rightarrow> RouteConfig \<Rightarrow> Router \<Rightarrow> bool" where
  "route_built parse other now n rc rt \<longleftrightarrow>
     rBalancers rt n = Some (fst (NewFromConfig parse rc))
     \<and> rStores rt n = map_option (\<lambda>rl. NewInMemoryStore (rlRequestsPerSecond rl) (rlBurst rl)) (rcRateLimit rc)
     \<and> rBreakers rt n = map_option (route_breaker now) (rcCircuitBreaker rc)
     \<and> (\<forall>s \<in> set (route_patterns rc). \<exists>p. parsePattern other s = Some p \<and> (p, RouteEp n) \<in> set (rMux rt))
     \<and> (\<forall>p. (p, RouteEp n) \<in> set (rMux rt) \<longrightarrow> (\<exists>s \<in> set (route_patterns rc). parsePattern other s = Some p))"

text \<open>Nothing is there yet for a route number that has not been reached.\<close>

definition unbuilt_from :: "nat \<Rightarrow> Router \<Rightarrow> bool" where
  "unbuilt_from n rt \<longleftrightarrow> (\<forall>k \<ge> n. rBalancers rt k = None \<and> rStores rt k = None \<and> rBreakers rt k = None
     \<and> RouteEp k \<notin> snd ` set (rMux rt))"

lemma add_route_built:
  assumes "add_route parse other now n rc rt = Inr rt'" and "unbuilt_from n rt"
  shows "route_built parse other now n rc rt'" and "unbuilt_from (Suc n) rt'"
    and "\<And>k rc'. k < n \<Longrightarrow> route_built parse other now k rc' rt \<Longrightarrow> route_built parse other now k rc' rt'"
    and "\<not> HasSuffix (rcPath rc) ''/''"
proof -
  note A = add_route_Inr [OF assms(1)]
  note H = Handle_all_Inr [OF A(1)]
  have fresh: "RouteEp n \<notin> snd ` set (rMux rt)" using assms(2) by (simp add: unbuilt_from_def)
  have old: "set (rMux rt) \<subseteq> set (rMux rt')"
    and new: "\<And>p e. (p, e) \<in> set (rMux rt') \<Longrightarrow> (p, e) \<in> set (rMux rt)
        \<or> e = RouteEp n \<and> (\<exists>s \<in> set (route_patterns rc). parsePattern other s = Some p)"
    and reg: "\<forall>s \<in> set (route_patterns rc). \<exists>p. parsePattern other s = Some p \<and> (p, RouteEp n) \<in> set (rMux rt')"
    using H by (auto simp: split_beta) fastforce+
  have state: "k \<noteq> n \<Longrightarrow> rBalancers rt' k = rBalancers rt k" "k \<noteq> n \<Longrightarrow> rStores rt' k = rStores rt k"
    "k \<noteq> n \<Longrightarrow> rBreakers rt' k = rBreakers rt k" for k
    using A(2-4) by (auto split: option.splits)
  have "rStores rt n = None" "rBreakers rt n = None" using assms(2) by (auto simp: unbuilt_from_def)
  moreover have "\<exists>s \<in> set (route_patterns rc). parsePattern other s = Some p"
    if "(p, RouteEp n) \<in> set (rMux rt')" for p
  proof -
    have "(p, RouteEp n) \<notin> set (rMux rt)" using fresh by (metis image_eqI snd_conv)
    then show ?thesis using new [OF that] by blast
  qed
  ultimately show "route_built parse other now n rc rt'"
    unfolding route_built_def using A(2-4) reg by (auto split: option.splits)
  show "unbuilt_from (Suc n) rt'"
    unfolding unbuilt_from_def
  proof (intro allI impI conjI)
    fix k
    assume "Suc n \<le> k"
    then have k: "k \<noteq> n" "n \<le> k" by auto
    show "rBalancers rt' k = None" "rStores rt' k = None" "rBreakers rt' k = None"
      using k assms(2) state [OF k(1)] by (simp_all add: unbuilt_from_def)
    have "RouteEp k \<notin> snd ` set (rMux rt)" using k(2) assms(2) by (simp add: unbuilt_from_def)
    then show "RouteEp k \<notin> snd ` set (rMux rt')" using k(1) new by (force simp: image_iff)
  qed
  show "route_built parse other now k rc' rt'" if k: "k < n" and b: "route_built parse other now k rc' rt" for k rc'
  proof -
    have kn: "k \<noteq> n" using k by simp
    have "\<forall>s \<in> set (route_patterns rc'). \<exists>p. parsePattern other s = Some p \<and> (p, RouteEp k) \<in> set (rMux rt')"
      using b old unfolding route_built_def by blast
    moreover have "\<exists>s \<in> set (route_patterns rc'). parsePattern other s = Some p"
      if "(p, RouteEp k) \<in> set (rMux rt')" for p
      using new [OF that] kn b unfolding route_built_def by blast
    ultimately show ?thesis using b state [OF kn] unfolding route_built_def by simp
  qed
  show "\<not> HasSuffix (rcPath rc) ''/''" using H route_patterns_trailing by blast
qed

lemma add_routes_built:
  assumes "add_routes parse other now n rcs rt = Inr rt'" and "unbuilt_from n rt"
  shows "(\<forall>i < length rcs. route_built parse other now (n + i) (rcs ! i) rt')
     \<and> (\<forall>k rc'. k < n \<longrightarrow> route_built parse other now k rc' rt \<longrightarrow> route_built parse other now k rc' rt')
     \<and> (\<forall>rc \<in> set rcs. \<not> HasSuffix (rcPath rc) ''/'')
     \<and> length (rCheckers rt') = length (rCheckers rt) + length rcs"
  using assms
proof (induction rcs arbitrary: n rt)
  case (Cons rc rcs)
  then obtain rt1 where rt1: "add_route parse other now n rc rt = Inr rt1"
    "add_routes parse other now (Suc n) rcs rt1 = Inr rt'"
    by (auto split: sum.splits)
  note B = add_route_built [OF rt1(1) Cons.prems(2)]
  note IH = Cons.IH [OF rt1(2) B(2)]
  have "route_built parse other now (n + i) ((rc # rcs) ! i) rt'" if "i < length (rc # rcs)" for i
    using that B(1) IH by (cases i) auto
  then show ?case using IH B(3,4) add_route_Inr(5) [OF rt1(1)] by auto
qed simp

section \<open>Properties\<close>

lemma BuildRouter_Inr:
  assumes "BuildRouter parse other now cfg = Inr rt"
  obtains m where "add_routes parse other now 0 (Routes cfg)
      \<lparr>rMux = m, rStores = Map.empty, rBreakers = Map.empty, rBalancers = Map.empty, rCheckers = [], rLog = []\<rparr> = Inr rt"
    "\<forall>n. RouteEp n \<notin> snd ` set m"
proof -
  obtain m1 where m1: "Handle other ''GET /health'' HealthEp [] = Inr m1"
    using assms by (auto simp: BuildRouter_def split: sum.splits)
  then obtain m2 where m2: "Handle other ''GET /ready'' ReadyEp m1 = Inr m2"
    using assms by (auto simp: BuildRouter_def split: sum.splits)
  with m1 obtain m3 where m3: "(if mcEnabled (Metrics cfg) then Handle other (''GET '' @ mcPath (Metrics cfg)) MetricsEp m2
      else Inr m2) = Inr m3"
    using assms by (auto simp: BuildRouter_def split: sum.splits)
  have "snd ` set m1 \<subseteq> {HealthEp}" using m1 by (auto elim!: Handle_Inr)
  then have "snd ` set m2 \<subseteq> {HealthEp, ReadyEp}" using m2 by (fastforce elim!: Handle_Inr)
  then have "snd ` set m3 \<subseteq> {HealthEp, ReadyEp, MetricsEp}"
    using m3 by (cases "mcEnabled (Metrics cfg)") (fastforce elim!: Handle_Inr)+
  then have "\<forall>n. RouteEp n \<notin> snd ` set m3" by blast
  then show ?thesis using that assms m1 m2 m3 by (simp add: BuildRouter_def)
qed

lemma BuildRouter_routes:
  assumes "BuildRouter parse other now cfg = Inr rt"
  shows "(\<forall>i < length (Routes cfg). route_built parse other now i (Routes cfg ! i) rt)
     \<and> (\<forall>rc \<in> set (Routes cfg). \<not> HasSuffix (rcPath rc) ''/'')
     \<and> length (rCheckers rt) = length (Routes cfg)"
proof -
  obtain m where m: "add_routes parse other now 0 (Routes cfg)
      \<lparr>rMux = m, rStores = Map.empty, rBreakers = Map.empty, rBalancers = Map.empty, rCheckers = [], rLog = []\<rparr> = Inr rt"
    "\<forall>n. RouteEp n \<notin> snd ` set m"
    using BuildRouter_Inr [OF assms] by blast
  show ?thesis using add_routes_built [OF m(1)] m(2) by (simp add: unbuilt_from_def)
qed

text \<open>
  C25. A router that is built has, for every route, a balancer of its own over the route's
  targets, a rate limit store and a circuit breaker of its own exactly when the route asks for
  them, with the route's numbers, one health checker per route, and the route's patterns, and
  only those, leading to it.
\<close>

theorem routes_built_independently:
  assumes "BuildRouter parse other now cfg = Inr rt" and "n < length (Routes cfg)"
  defines "rc \<equiv> Routes cfg ! n"
  shows "rBalancers rt n = Some (fst (NewFromConfig parse rc))
     \<and> rStores rt n = map_option (\<lambda>rl. NewInMemoryStore (rlRequestsPerSecond rl) (rlBurst rl)) (rcRateLimit rc)
     \<and> rBreakers rt n = map_option (route_breaker now) (rcCircuitBreaker rc)
     \<and> length (rCheckers rt) = length (Routes cfg)
     \<and> {p. (p, RouteEp n) \<in> set (rMux rt)} = {p. \<exists>s \<in> set (route_patterns rc). parsePattern other s = Some p}"
proof -
  have b: "route_built parse other now n rc rt" and "length (rCheckers rt) = length (Routes cfg)"
    using BuildRouter_routes [OF assms(1)] assms(2) by (auto simp: rc_def)
  moreover have "{p. (p, RouteEp n) \<in> set (rMux rt)} = {p. \<exists>s \<in> set (route_patterns rc). parsePattern other s = Some p}"
    using b unfolding route_built_def by (metis (mono_tags, lifting) option.inject)
  ultimately show ?thesis by (simp add: route_built_def)
qed

text \<open>
  C38. A route whose path ends in a slash cannot be registered: its pattern and its exact path are
  then the same pattern, the second registration panics, and so \<open>BuildRouter\<close> does, although
  the configuration is valid.
\<close>

theorem trailing_slash_route_panics:
  assumes "rc \<in> set (Routes cfg)" and "HasSuffix (rcPath rc) ''/''"
  shows "\<exists>msg. BuildRouter parse other now cfg = Inl msg"
  using BuildRouter_routes [of parse other now cfg] assms by (cases "BuildRouter parse other now cfg") auto

lemma parse_method:
  assumes "parsePattern other (m @ '' '' @ path) = Some p" and "list_all (\<lambda>c. \<not> is_blank c) m"
  shows "pMethod p = m"
proof -
  have "takeWhile (\<lambda>c. \<not> is_blank c) (m @ '' '' @ path) = m"
    using assms(2) by (simp add: list_all_iff takeWhile_append2 is_blank_def)
  then show ?thesis
    using assms(1) by (auto simp: parsePattern_def Let_def is_blank_def split: if_splits)
qed

text \<open>
  C39. A preflight request never reaches the CORS handling of a route that lists its methods and
  does not list \<open>OPTIONS\<close>: no pattern registered for the route matches the method.
\<close>

theorem preflight_not_routed:
  assumes "BuildRouter parse other now cfg = Inr rt" and "n < length (Routes cfg)"
    and "rcMethods (Routes cfg ! n) \<noteq> []"
    and "list_all (\<lambda>m. m \<noteq> [] \<and> m \<noteq> ''OPTIONS'' \<and> list_all (\<lambda>c. \<not> is_blank c) m) (rcMethods (Routes cfg ! n))"
    and "(p, RouteEp n) \<in> set (rMux rt)"
  shows "\<not> pattern_match p ''OPTIONS'' path"
proof -
  have "route_built parse other now n (Routes cfg ! n) rt" using BuildRouter_routes [OF assms(1)] assms(2) by blast
  then obtain s where s: "s \<in> set (route_patterns (Routes cfg ! n))" "parsePattern other s = Some p"
    using assms(5) by (auto simp: route_built_def)
  then obtain m q where m: "m \<in> set (rcMethods (Routes cfg ! n))" "s = m @ '' '' @ q"
    using assms(3) by (fastforce simp: route_patterns_def Let_def)
  then have "pMethod p = m" using parse_method [of other m q p] s(2) assms(4) by (auto simp: list_all_iff)
  then show ?thesis using m(1) assms(4) by (auto simp: pattern_match_def match_method_def list_all_iff)
qed

definition sample_gateway :: "RouteConfig list \<Rightarrow> GatewayConfig" where
  "sample_gateway rs = ApplyDefaults (sample_raw\<lparr>Routes := rs\<rparr>)"

definition get_route :: RouteConfig where
  "get_route = sample_route\<lparr>rcMethods := [''GET'']\<rparr>"

lemma sample_gateway_built:
  "case BuildRouter sample_parse (\<lambda>_. None) 0 (sample_gateway [get_route]) of Inr _ \<Rightarrow> True | Inl _ \<Rightarrow> False"
  by code_simp

lemma sample_gateway_router: "\<exists>rt. BuildRouter sample_parse (\<lambda>_. None) 0 (sample_gateway [get_route]) = Inr rt"
  using sample_gateway_built by (auto split: sum.splits)

lemma sample_gateway_routes: "Routes (sample_gateway [rc]) = [default_route rc]"
  by (simp add: sample_gateway_def ApplyDefaults_def)

theorem routes_built_independently_witness:
  "\<exists>rt. BuildRouter sample_parse (\<lambda>_. None) 0 (sample_gateway [get_route]) = Inr rt
     \<and> rBalancers rt 0 = Some (fst (NewFromConfig sample_parse (default_route get_route)))
     \<and> rBreakers rt 0 = None \<and> length (rCheckers rt) = 1"
proof -
  obtain rt where rt: "BuildRouter sample_parse (\<lambda>_. None) 0 (sample_gateway [get_route]) = Inr rt"
    using sample_gateway_router by blast
  then show ?thesis
    using routes_built_independently [OF rt, of 0]
    by (simp add: sample_gateway_routes) (simp add: get_route_def sample_route_def default_route_def)
qed

definition slash_route :: RouteConfig where
  "slash_route = sample_route\<lparr>rcPath := ''/api/''\<rparr>"

theorem trailing_slash_route_panics_witness:
  "Validate sample_parse (sample_gateway [slash_route]) = None
   \<and> (\<exists>msg. BuildRouter sample_parse (\<lambda>_. None) 0 (sample_gateway [slash_route]) = Inl msg)"
proof
  show "Validate sample_parse (sample_gateway [slash_route]) = None"
    unfolding Validate_None_iff
    by (simp add: valid_config_def valid_route_def valid_target_def sample_gateway_def ApplyDefaults_def
        default_defs Let_def sample_raw_def slash_route_def sample_route_def sample_parse_def Cons_eq_append_conv)
  show "\<exists>msg. BuildRouter sample_parse (\<lambda>_. None) 0 (sample_gateway [slash_route]) = Inl msg"
    by (rule trailing_slash_route_panics [of "default_route slash_route"])
       (simp_all add: sample_gateway_routes, simp add: slash_route_def default_route_def HasSuffix_def)
qed

theorem preflight_not_routed_witness:
  "\<exists>rt p. BuildRouter sample_parse (\<lambda>_. None) 0 (sample_gateway [get_route]) = Inr rt
     \<and> (p, RouteEp 0) \<in> set (rMux rt) \<and> \<not> pattern_match p ''OPTIONS'' ''/api''"
proof -
  obtain rt where rt: "BuildRouter sample_parse (\<lambda>_. None) 0 (sample_gateway [get_route]) = Inr rt"
    using sample_gateway_router by blast
  have methods: "rcMethods (default_route get_route) = [''GET'']"
    by (simp add: default_route_def get_route_def)
  have "route_built sample_parse (\<lambda>_. None) 0 0 (default_route get_route) rt"
    using BuildRouter_routes [OF rt] by (simp add: sample_gateway_routes)
  moreover have "route_patterns (default_route get_route) \<noteq> []" by (simp add: route_patterns_def methods Let_def)
  ultimately obtain p where p: "(p, RouteEp 0) \<in> set (rMux rt)"
    unfolding route_built_def by (metis last_in_set)
  have "\<not> pattern_match p ''OPTIONS'' ''/api''"
    by (rule preflight_not_routed [OF rt _ _ _ p]) (simp_all add: sample_gateway_routes methods is_blank_def)
  with rt p show ?thesis by blast
qed

end
