(* ===== verification/Routing.thy ===== *)
theory Routing
  imports Router
begin

text \<open>
  Which route serves a request. For configurations whose paths are literal (no braces, no
  escapes, nothing to clean) the mux and the patterns \<open>BuildRouter\<close> registers together
  implement longest-prefix routing.
\<close>

section \<open>Paths as segments\<close>

lemma split_path_neq_Nil [simp]: "split_path s \<noteq> []"
  by (subst split_path.simps) (simp add: Let_def)

lemma split_path_Nil [simp]: "split_path [] = [[]]"
  by (subst split_path.simps) simp

lemma split_path_slash: "split_path (CHR ''/'' # s) = [] # split_path s"
  by (subst split_path.simps) simp

lemma split_path_char:
  assumes "c \<noteq> CHR ''/''"
  shows "split_path (c # s) = (c # hd (split_path s)) # tl (split_path s)"
  using assms by (subst (1 2 3) split_path.simps) (simp add: Let_def)

lemma split_path_append: "split_path (xs @ CHR ''/'' # ys) = split_path xs @ split_path ys"
proof (induction xs)
  case Nil
  show ?case by (simp add: split_path_slash)
next
  case (Cons c xs)
  show ?case
  proof (cases "c = CHR ''/''")
    case True
    then show ?thesis using Cons by (simp add: split_path_slash)
  next
    case False
    then show ?thesis using Cons by (simp add: split_path_char)
  qed
qed

lemma Join_append:
  assumes "xs \<noteq> []" and "ys \<noteq> []"
  shows "Join (xs @ ys) sep = Join xs sep @ sep @ Join ys sep"
  using assms
proof (induction xs)
  case (Cons x xs)
  then show ?case by (cases xs; cases ys) simp_all
qed simp

lemma Join_split_path: "Join (split_path s) ''/'' = s"
proof (induction s)
  case (Cons c s)
  show ?case
  proof (cases "c = CHR ''/''")
    case True
    then show ?thesis using Cons Join_append [of "[[]]" "split_path s" "''/''"] by (simp add: split_path_slash)
  next
    case False
    obtain x xs where x: "split_path s = x # xs" by (cases "split_path s") auto
    then have "Join ((c # x) # xs) ''/'' = c # Join (x # xs) ''/''" by (cases xs) simp_all
    then show ?thesis using Cons False x by (simp add: split_path_char)
  qed
qed simp

lemma set_split_path: "set (split_path s) = insert (last (split_path s)) (set (butlast (split_path s)))"
  by (metis append_butlast_last_id list.set(2) rotate1.simps(2) set_rotate1 split_path_neq_Nil)

lemma split_path_inj: "split_path s = split_path t \<longleftrightarrow> s = t"
  by (metis Join_split_path)

lemma split_path_no_slash: "x \<in> set (split_path s) \<Longrightarrow> CHR ''/'' \<notin> set x"
proof (induction s arbitrary: x)
  case (Cons c s)
  obtain y ys where "split_path s = y # ys" by (cases "split_path s") auto
  with Cons show ?case
    by (cases "c = CHR ''/''") (auto simp: split_path_slash split_path_char)
qed simp

lemma split_path_sub: "x \<in> set (split_path s) \<Longrightarrow> set x \<subseteq> set s"
proof (induction s arbitrary: x)
  case (Cons c s)
  obtain y ys where "split_path s = y # ys" by (cases "split_path s") auto
  with Cons show ?case
    by (cases "c = CHR ''/''") (fastforce simp: split_path_slash split_path_char)+
qed simp

lemma last_split_path: "last (split_path s) = [] \<longleftrightarrow> s = [] \<or> last s = CHR ''/''"
proof (induction s)
  case (Cons c s)
  obtain x xs where x: "split_path s = x # xs" by (cases "split_path s") auto
  moreover have "xs = [] \<Longrightarrow> x = s" using x Join_split_path [of s] by simp
  ultimately show ?case
    using Cons by (cases "c = CHR ''/''"; cases xs) (auto simp: split_path_slash split_path_char)
qed simp

text \<open>One path lies below another exactly when its segments extend those of the other.\<close>

lemma split_path_prefix:
  "(\<exists>v. u = t @ CHR ''/'' # v) \<longleftrightarrow> (\<exists>rest. rest \<noteq> [] \<and> split_path u = split_path t @ rest)"
proof
  assume "\<exists>v. u = t @ CHR ''/'' # v"
  then show "\<exists>rest. rest \<noteq> [] \<and> split_path u = split_path t @ rest" by (metis split_path_append split_path_neq_Nil)
next
  assume "\<exists>rest. rest \<noteq> [] \<and> split_path u = split_path t @ rest"
  then obtain rest where "rest \<noteq> []" "split_path u = split_path t @ rest" by blast
  then have "u = t @ ''/'' @ Join rest ''/''" by (metis Join_append Join_split_path split_path_neq_Nil)
  then show "\<exists>v. u = t @ CHR ''/'' # v" by simp
qed

section \<open>Literal paths\<close>

lemma pathUnescape_plain [simp]: "CHR ''%'' \<notin> set s \<Longrightarrow> pathUnescape s = s"
proof -
  have "CHR ''%'' \<notin> set s \<Longrightarrow> pct_decode s = Some s" by (induction s) auto
  then show "CHR ''%'' \<notin> set s \<Longrightarrow> pathUnescape s = s" by (simp add: pathUnescape_def)
qed

definition literal_path :: "string \<Rightarrow> bool" where
  "literal_path p \<longleftrightarrow> HasPrefix p ''/'' \<and> CHR ''{'' \<notin> set p \<and> CHR ''%'' \<notin> set p \<and> clean_path p"

lemma literal_pathE:
  assumes "literal_path p"
  obtains t where "p = CHR ''/'' # t" "CHR ''{'' \<notin> set t" "CHR ''%'' \<notin> set t"
    "\<forall>s \<in> set (butlast (split_path t)). s \<notin> {[], ''.'', ''..''}" "last (split_path t) \<notin> {''.'', ''..''}"
  using assms by (auto simp: literal_path_def HasPrefix_iff clean_path_def Let_def list_all_iff)

lemma literal_pieces:
  assumes "CHR ''%'' \<notin> set t" and "x \<in> set (split_path t)"
  shows "pathUnescape x = x"
  using assms split_path_sub [of x t] by (intro pathUnescape_plain) blast

lemma map_unescape [simp]:
  assumes "CHR ''%'' \<notin> set t"
  shows "map pathUnescape (split_path t) = split_path t"
    and "map pathUnescape (butlast (split_path t)) = butlast (split_path t)"
  using literal_pieces [OF assms] by (auto intro!: map_idI dest: in_set_butlastD)

lemma literal_segs_path:
  assumes "CHR ''%'' \<notin> set t" and "t \<noteq> []" "last t \<noteq> CHR ''/''"
  shows "literal_segs (CHR ''/'' # t) = map Lit (split_path t)"
    and "literal_segs (CHR ''/'' # t @ ''/'') = map Lit (split_path t) @ [Multi]"
proof -
  have "map (Lit \<circ> pathUnescape) (split_path t) = map Lit (split_path t)"
    using literal_pieces [OF assms(1)] by auto
  then show "literal_segs (CHR ''/'' # t) = map Lit (split_path t)"
    "literal_segs (CHR ''/'' # t @ ''/'') = map Lit (split_path t) @ [Multi]"
    using assms(2,3) split_path_append [of t "[]"] by (simp_all add: literal_segs_def Let_def last_split_path)
qed

text \<open>The segments of a request path: as the path is cut, but with a final slash for an empty last piece.\<close>

lemma path_segs_literal:
  assumes "CHR ''%'' \<notin> set u"
  shows "path_segs (CHR ''/'' # u) = (if last (split_path u) = [] then butlast (split_path u) @ [''/''] else split_path u)"
  using assms by (simp add: path_segs_def Let_def)

lemma match_lits: "match_segs (map Lit as) segs \<longleftrightarrow> segs = as"
proof (induction as arbitrary: segs)
  case (Cons a as)
  then show ?case by (cases segs) (auto simp: match_segs_Cons)
qed auto

lemma match_lits_multi: "match_segs (map Lit as @ [Multi]) segs \<longleftrightarrow> (\<exists>rest. rest \<noteq> [] \<and> segs = as @ rest)"
proof (induction as arbitrary: segs)
  case Nil
  then show ?case by (cases segs) auto
next
  case (Cons a as)
  then show ?case by (cases segs) (auto simp: match_segs_Cons)
qed

lemma path_segs_exact:
  assumes "CHR ''%'' \<notin> set u" and "last (split_path t) \<noteq> []"
  shows "path_segs (CHR ''/'' # u) = split_path t \<longleftrightarrow> u = t"
proof -
  have "butlast (split_path u) @ [''/''] \<noteq> split_path t"
  proof
    assume "butlast (split_path u) @ [''/''] = split_path t"
    then have "''/'' \<in> set (split_path t)" by (metis in_set_conv_decomp)
    then show False using split_path_no_slash by fastforce
  qed
  then show ?thesis using assms by (auto simp: path_segs_literal split_path_inj)
qed

lemma path_segs_below:
  assumes "CHR ''%'' \<notin> set u"
  shows "(\<exists>rest. rest \<noteq> [] \<and> path_segs (CHR ''/'' # u) = as @ rest) \<longleftrightarrow> (\<exists>rest. rest \<noteq> [] \<and> split_path u = as @ rest)"
proof (cases "last (split_path u) = []")
  case True
  define bl where "bl = butlast (split_path u)"
  have u: "split_path u = bl @ [[]]" using True by (metis append_butlast_last_id bl_def split_path_neq_Nil)
  have swap: "(\<exists>rest. rest \<noteq> [] \<and> bl @ [x] = as @ rest) \<longleftrightarrow> (\<exists>mid. bl = as @ mid)" for x :: string
  proof
    assume "\<exists>rest. rest \<noteq> [] \<and> bl @ [x] = as @ rest"
    then obtain rest where "rest \<noteq> []" "bl @ [x] = as @ rest" by blast
    then have "bl = as @ butlast rest" by (metis butlast_append butlast_snoc)
    then show "\<exists>mid. bl = as @ mid" by blast
  qed auto
  show ?thesis using swap [of "''/''"] swap [of "[]"] assms True u by (simp add: path_segs_literal bl_def [symmetric])
qed (use assms in \<open>simp add: path_segs_literal\<close>)

section \<open>Literal patterns\<close>

lemma parse_literal:
  assumes "parsePattern other (m @ '' '' @ path) = Some p" and "list_all token_char m"
    and "HasPrefix path ''/''" and "CHR ''{'' \<notin> set path"
  shows "pMethod p = m \<and> pHost p = [] \<and> pSegs p = literal_segs path"
proof -
  have m: "\<forall>c \<in> set m. \<not> is_blank c"
    using assms(2) by (auto simp: list_all_iff is_blank_def token_char_def)
  obtain t where path: "path = CHR ''/'' # t" using assms(3) by (auto simp: HasPrefix_iff)
  have blank: "list_ex is_blank (m @ '' '' @ path)" by (simp add: is_blank_def)
  have "takeWhile (\<lambda>c. \<not> is_blank c) (m @ '' '' @ path) = m"
    "dropWhile (\<lambda>c. \<not> is_blank c) (m @ '' '' @ path) = '' '' @ path"
    using m by (simp_all add: takeWhile_append2 dropWhile_append2 is_blank_def)
  moreover have "dropWhile is_blank ('' '' @ path) = path" by (simp add: path is_blank_def)
  ultimately show ?thesis
    using assms(1,4) blank
    by (auto simp: parsePattern_def Let_def plain_path_def path split: if_splits)
qed

lemma parse_literal_any:
  assumes "parsePattern other path = Some p" and "HasPrefix path ''/''" and "CHR ''{'' \<notin> set path"
  shows "pMethod p = [] \<and> pHost p = [] \<and> pSegs p = literal_segs path"
proof -
  obtain t where path: "path = CHR ''/'' # t" using assms(2) by (auto simp: HasPrefix_iff)
  have "\<not> list_ex is_blank path"
  proof
    assume b: "list_ex is_blank path"
    have "\<not> list_all token_char (takeWhile (\<lambda>c. \<not> is_blank c) path)"
      by (simp add: path is_blank_def token_char_def)
    then show False using assms(1) b by (simp add: parsePattern_def Let_def)
  qed
  then show ?thesis
    using assms(1,3) by (auto simp: parsePattern_def Let_def plain_path_def path split: if_splits)
qed

section \<open>What a built router holds\<close>

lemma add_routes_entries:
  assumes "add_routes parse other now n rcs rt = Inr rt'" and "conflict_free (rMux rt)"
  shows "conflict_free (rMux rt') \<and> (\<forall>(p, e) \<in> set (rMux rt'). (p, e) \<in> set (rMux rt)
     \<or> (\<exists>i < length rcs. e = RouteEp (n + i) \<and> (\<exists>s \<in> set (route_patterns (rcs ! i)). parsePattern other s = Some p)))"
  using assms
proof (induction rcs arbitrary: n rt)
  case (Cons rc rcs)
  then obtain rt1 where rt1: "add_route parse other now n rc rt = Inr rt1"
    "add_routes parse other now (Suc n) rcs rt1 = Inr rt'"
    by (auto split: sum.splits)
  note A = add_route_Inr(1) [OF rt1(1)]
  note IH = Cons.IH [OF rt1(2) Handle_all_conflict_free [OF A Cons.prems(2)]]
  show ?case
  proof (intro conjI ballI, goal_cases)
    case 1
    show ?case using IH by blast
  next
    case (2 x)
    obtain p e where x: "x = (p, e)" by fastforce
    consider "(p, e) \<in> set (rMux rt1)"
      | i where "i < length rcs" "e = RouteEp (Suc n + i)" "\<exists>s \<in> set (route_patterns (rcs ! i)). parsePattern other s = Some p"
      using IH 2 x by blast
    then show ?case
    proof cases
      case 1
      then have "(p, e) \<in> set (rMux rt) \<or> e = RouteEp n \<and> (\<exists>s \<in> set (route_patterns rc). parsePattern other s = Some p)"
        using Handle_all_Inr [OF A] by blast
      then show ?thesis unfolding x by (auto intro!: exI [of _ 0])
    next
      case 2
      then show ?thesis unfolding x by (auto intro!: exI [of _ "Suc i"])
    qed
  qed
qed simp

lemma BuildRouter_entries:
  assumes "BuildRouter parse other now cfg = Inr rt"
  shows "conflict_free (rMux rt)"
    and "(p, e) \<in> set (rMux rt) \<Longrightarrow>
       (\<exists>n < length (Routes cfg). e = RouteEp n \<and> (\<exists>s \<in> set (route_patterns (Routes cfg ! n)). parsePattern other s = Some p))
       \<or> e \<in> {HealthEp, ReadyEp, MetricsEp} \<and> (\<exists>path \<in> {''/health'', ''/ready''}
            \<union> (if mcEnabled (Metrics cfg) then {mcPath (Metrics cfg)} else {}). parsePattern other (''GET'' @ '' '' @ path) = Some p)"
proof -
  obtain m1 where m1: "Handle other ''GET /health'' HealthEp [] = Inr m1"
    using assms by (auto simp: BuildRouter_def split: sum.splits)
  then obtain m2 where m2: "Handle other ''GET /ready'' ReadyEp m1 = Inr m2"
    using assms by (auto simp: BuildRouter_def split: sum.splits)
  with m1 obtain m3 where m3: "(if mcEnabled (Metrics cfg) then Handle other (''GET '' @ mcPath (Metrics cfg)) MetricsEp m2
      else Inr m2) = Inr m3"
    using assms by (auto simp: BuildRouter_def split: sum.splits)
  let ?rt = "\<lparr>rMux = m3, rStores = Map.empty, rBreakers = Map.empty, rBalancers = Map.empty, rCheckers = [], rLog = []\<rparr>"
  have add: "add_routes parse other now 0 (Routes cfg) ?rt = Inr rt"
    using assms m1 m2 m3 by (simp add: BuildRouter_def)
  have "conflict_free m2" using Handle_conflict_free [OF m2 Handle_conflict_free [OF m1]] by simp
  then have cf: "conflict_free m3" using m3 by (auto dest: Handle_conflict_free split: if_splits)
  note E = add_routes_entries [OF add] cf
  show "conflict_free (rMux rt)" using E by simp
  have sys: "e \<in> {HealthEp, ReadyEp, MetricsEp} \<and> (\<exists>path \<in> {''/health'', ''/ready''}
      \<union> (if mcEnabled (Metrics cfg) then {mcPath (Metrics cfg)} else {}). parsePattern other (''GET'' @ '' '' @ path) = Some p)"
    if "(p, e) \<in> set m3"
    using that m1 m2 m3 by (auto elim!: Handle_Inr split: if_splits)
  show "(p, e) \<in> set (rMux rt) \<Longrightarrow>
       (\<exists>n < length (Routes cfg). e = RouteEp n \<and> (\<exists>s \<in> set (route_patterns (Routes cfg ! n)). parsePattern other s = Some p))
       \<or> e \<in> {HealthEp, ReadyEp, MetricsEp} \<and> (\<exists>path \<in> {''/health'', ''/ready''}
            \<union> (if mcEnabled (Metrics cfg) then {mcPath (Metrics cfg)} else {}). parsePattern other (''GET'' @ '' '' @ path) = Some p)"
    using E sys by fastforce
qed

section \<open>Routes with literal paths\<close>

definition literal_route :: "RouteConfig \<Rightarrow> bool" where
  "literal_route rc \<longleftrightarrow> literal_path (rcPath rc) \<and> list_all (list_all token_char) (rcMethods rc)"

definition literal_config :: "GatewayConfig \<Rightarrow> bool" where
  "literal_config cfg \<longleftrightarrow> list_all literal_route (Routes cfg)
     \<and> (mcEnabled (Metrics cfg) \<longrightarrow> literal_path (mcPath (Metrics cfg)) \<and> \<not> HasSuffix (mcPath (Metrics cfg)) ''/'')"

definition allows :: "RouteConfig \<Rightarrow> string \<Rightarrow> bool" where
  "allows rc m \<longleftrightarrow> rcMethods rc = [] \<or> list_ex (\<lambda>pm. match_method pm m) (rcMethods rc)"

text \<open>What the configuration says: the method is allowed and the path is the route's or lies below it.\<close>

definition covers :: "RouteConfig \<Rightarrow> string \<Rightarrow> string \<Rightarrow> bool" where
  "covers rc m path \<longleftrightarrow> allows rc m \<and> (path = rcPath rc \<or> HasPrefix path (rcPath rc @ ''/''))"

definition route_segs :: "RouteConfig \<Rightarrow> string list" where
  "route_segs rc = split_path (tl (rcPath rc))"

text \<open>A route that is registered: its path is a slash and a text that does not end in one.\<close>

definition registered :: "RouteConfig \<Rightarrow> string \<Rightarrow> bool" where
  "registered rc t \<longleftrightarrow> rcPath rc = CHR ''/'' # t \<and> CHR ''{'' \<notin> set t \<and> CHR ''%'' \<notin> set t \<and> t \<noteq> [] \<and> last t \<noteq> CHR ''/''
     \<and> [] \<notin> set (split_path t) \<and> list_all (list_all token_char) (rcMethods rc)"

lemma literal_path_solid:
  assumes "literal_path p" and "\<not> HasSuffix p ''/''"
  obtains t where "p = CHR ''/'' # t" "CHR ''{'' \<notin> set t" "CHR ''%'' \<notin> set t" "t \<noteq> []" "last t \<noteq> CHR ''/''"
    "[] \<notin> set (split_path t)"
proof -
  obtain t where t: "p = CHR ''/'' # t" "CHR ''{'' \<notin> set t" "CHR ''%'' \<notin> set t"
    "\<forall>s \<in> set (butlast (split_path t)). s \<notin> {[], ''.'', ''..''}"
    using assms(1) by (auto elim: literal_pathE)
  have l: "t \<noteq> []" "last t \<noteq> CHR ''/''" using assms(2) t(1) by (auto simp: HasSuffix_single split: if_splits)
  then have "last (split_path t) \<noteq> []" by (simp add: last_split_path)
  then have "[] \<notin> set (split_path t)" using t(4) set_split_path [of t] by auto
  with that t l show ?thesis by blast
qed

lemma registeredI:
  assumes "literal_route rc" and "\<not> HasSuffix (rcPath rc) ''/''"
  shows "\<exists>t. registered rc t"
  using assms by (auto simp: literal_route_def registered_def elim!: literal_path_solid)

lemma registered_segs:
  assumes "registered rc t"
  shows "route_segs rc = split_path t" and "last (split_path t) \<noteq> []"
    and "literal_segs (rcPath rc) = map Lit (split_path t)"
    and "literal_segs (rcPath rc @ ''/'') = map Lit (split_path t) @ [Multi]"
  using assms literal_segs_path [of t] by (auto simp: registered_def route_segs_def last_split_path)

lemma route_pattern_parsed:
  assumes "registered rc t" and "s \<in> set (route_patterns rc)" and "parsePattern other s = Some p"
  shows "pHost p = [] \<and> (if rcMethods rc = [] then pMethod p = [] else pMethod p \<in> set (rcMethods rc))
     \<and> pSegs p \<in> {map Lit (split_path t), map Lit (split_path t) @ [Multi]}"
proof -
  note R = registered_segs [OF assms(1)]
  have path: "HasPrefix q ''/''" "CHR ''{'' \<notin> set q" if "q \<in> {rcPath rc, rcPath rc @ ''/''}" for q
    using that assms(1) by (auto simp: registered_def HasPrefix_iff)
  have pat: "\<not> HasSuffix (rcPath rc) ''/''" using assms(1) by (auto simp: registered_def HasSuffix_single)
  show ?thesis
  proof (cases "rcMethods rc = []")
    case True
    then obtain q where "q \<in> {rcPath rc, rcPath rc @ ''/''}" "s = q"
      using assms(2) pat by (auto simp: route_patterns_def)
    then show ?thesis using parse_literal_any [of other q p] path [of q] assms(3) True R by auto
  next
    case False
    then obtain m q where mq: "m \<in> set (rcMethods rc)" "q \<in> {rcPath rc, rcPath rc @ ''/''}" "s = m @ '' '' @ q"
      using assms(2) pat by (auto simp: route_patterns_def Let_def)
    then have "list_all token_char m" using assms(1) by (auto simp: registered_def list_all_iff)
    then show ?thesis using parse_literal [of other m q p] path [of q] assms(3) False mq R by auto
  qed
qed

lemma route_pattern_exists:
  assumes "registered rc t" and "allows rc m" and "q \<in> {rcPath rc, rcPath rc @ ''/''}"
    and "\<forall>s \<in> set (route_patterns rc). \<exists>p. parsePattern other s = Some p"
  shows "\<exists>s p. s \<in> set (route_patterns rc) \<and> parsePattern other s = Some p \<and> match_method (pMethod p) m
    \<and> pHost p = [] \<and> pSegs p = literal_segs q"
proof -
  have path: "HasPrefix q ''/''" "CHR ''{'' \<notin> set q"
    using assms(1,3) by (auto simp: registered_def HasPrefix_iff)
  have pat: "\<not> HasSuffix (rcPath rc) ''/''" using assms(1) by (auto simp: registered_def HasSuffix_single)
  show ?thesis
  proof (cases "rcMethods rc = []")
    case True
    then have s: "q \<in> set (route_patterns rc)" using assms(3) pat by (auto simp: route_patterns_def)
    then obtain p where "parsePattern other q = Some p" using assms(4) by blast
    with s parse_literal_any [OF this path] show ?thesis by (auto simp: match_method_def)
  next
    case False
    then obtain pm where pm: "pm \<in> set (rcMethods rc)" "match_method pm m"
      using assms(2) by (auto simp: allows_def list_ex_iff)
    then have s: "pm @ '' '' @ q \<in> set (route_patterns rc)"
      using assms(3) pat False by (auto simp: route_patterns_def Let_def)
    then obtain p where p: "parsePattern other (pm @ '' '' @ q) = Some p" using assms(4) by blast
    have "list_all token_char pm" using assms(1) pm(1) by (auto simp: registered_def list_all_iff)
    with s p pm(2) parse_literal [OF p _ path] show ?thesis by blast
  qed
qed

text \<open>The two patterns of a route match exactly the paths the route covers.\<close>

lemma covers_segs:
  assumes "registered rc t" and "CHR ''%'' \<notin> set u"
  shows "(path_segs (CHR ''/'' # u) = split_path t \<longleftrightarrow> CHR ''/'' # u = rcPath rc)"
    and "(\<exists>rest. rest \<noteq> [] \<and> path_segs (CHR ''/'' # u) = split_path t @ rest) \<longleftrightarrow> HasPrefix (CHR ''/'' # u) (rcPath rc @ ''/'')"
proof -
  show "path_segs (CHR ''/'' # u) = split_path t \<longleftrightarrow> CHR ''/'' # u = rcPath rc"
    using path_segs_exact [OF assms(2) registered_segs(2) [OF assms(1)]] assms(1) by (auto simp: registered_def)
  show "(\<exists>rest. rest \<noteq> [] \<and> path_segs (CHR ''/'' # u) = split_path t @ rest) \<longleftrightarrow> HasPrefix (CHR ''/'' # u) (rcPath rc @ ''/'')"
    using assms(1) unfolding path_segs_below [OF assms(2)] split_path_prefix [symmetric]
    by (simp add: registered_def HasPrefix_iff)
qed

section \<open>Longest-prefix routing\<close>

lemma wf_lits: "[] \<notin> set as \<Longrightarrow> wf_segs (map Lit as)" "[] \<notin> set as \<Longrightarrow> wf_segs (map Lit as @ [Multi])"
  by (auto simp: wf_segs_def dest: in_set_butlastD)

text \<open>Every registered pattern is literal and has no host: a route's, or one of a system endpoint.\<close>

lemma built_patterns:
  assumes "BuildRouter parse other now cfg = Inr rt" and "literal_config cfg" and "(p, e) \<in> set (rMux rt)"
  obtains (route) n t where "n < length (Routes cfg)" "e = RouteEp n" "registered (Routes cfg ! n) t" "pHost p = []"
      "\<And>m. match_method (pMethod p) m \<Longrightarrow> allows (Routes cfg ! n) m"
      "pSegs p = map Lit (split_path t) \<or> pSegs p = map Lit (split_path t) @ [Multi]"
  | (system) t where "e \<in> {HealthEp, ReadyEp, MetricsEp}" "pHost p = []" "pMethod p = ''GET''"
      "pSegs p = map Lit (split_path t)" "[] \<notin> set (split_path t)" "last t \<noteq> CHR ''/''"
  using BuildRouter_entries(2) [OF assms(1,3)]
proof (elim disjE exE conjE bexE, goal_cases)
  case (1 n s)
  have "literal_route (Routes cfg ! n)" using assms(2) 1 by (auto simp: literal_config_def list_all_length)
  moreover have "\<not> HasSuffix (rcPath (Routes cfg ! n)) ''/''"
    using BuildRouter_routes [OF assms(1)] 1(3) by (metis nth_mem)
  ultimately obtain t where t: "registered (Routes cfg ! n) t" using registeredI by blast
  from route_pattern_parsed [OF this 1(5,6)] 1(1,3,4) t show ?thesis
    by (auto simp: allows_def list_ex_iff split: if_splits)
next
  case (2 path)
  have "literal_path path" "\<not> HasSuffix path ''/''"
  proof -
    have "literal_path ''/health'' \<and> literal_path ''/ready'' \<and> \<not> HasSuffix ''/health'' ''/'' \<and> \<not> HasSuffix ''/ready'' ''/''"
      by code_simp
    then show "literal_path path" "\<not> HasSuffix path ''/''"
      using 2(4) assms(2) by (auto simp: literal_config_def split: if_splits)
  qed
  then obtain t where t: "path = CHR ''/'' # t" "CHR ''{'' \<notin> set t" "CHR ''%'' \<notin> set t" "t \<noteq> []" "last t \<noteq> CHR ''/''"
    "[] \<notin> set (split_path t)"
    by (rule literal_path_solid)
  have "pMethod p = ''GET'' \<and> pHost p = [] \<and> pSegs p = literal_segs path"
    by (rule parse_literal [OF 2(5)]) (use t in \<open>auto simp: token_char_def HasPrefix_iff\<close>)
  with t literal_segs_path(1) [of t] 2(2,3) show ?thesis by auto
qed

lemma built_wf:
  assumes "BuildRouter parse other now cfg = Inr rt" and "literal_config cfg"
  shows "wf_mux (rMux rt)" and "\<forall>(p, e) \<in> set (rMux rt). pHost p = []"
proof -
  have "wf_segs (pSegs p) \<and> pHost p = []" if "(p, e) \<in> set (rMux rt)" for p e
    using assms that
  proof (cases rule: built_patterns)
    case (route n t)
    then show ?thesis using wf_lits [of "split_path t"] by (auto simp: registered_def)
  next
    case (system t)
    then show ?thesis using wf_lits by auto
  qed
  then show "wf_mux (rMux rt)" "\<forall>(p, e) \<in> set (rMux rt). pHost p = []"
    using BuildRouter_entries(1) [OF assms(1)] by (auto simp: wf_mux_def)
qed

lemma compare_shorter:
  "comparePaths (map Lit as @ [Multi]) (map Lit as @ Lit x # ys) = MoreGeneral"
proof -
  have "compare_segs Equivalent (map Lit as @ [Multi]) (map Lit as @ Lit x # ys) = (MoreGeneral, [], ys)"
    by (induction as) (simp_all add: Let_def combineRelationships_def compare_segs_Nil)
  then show ?thesis by (simp add: comparePaths_def ends_multi_def combineRelationships_def inverseRelationship_def)
qed

lemma general_not_specific:
  "comparePaths (pSegs p) (pSegs q) = MoreGeneral \<Longrightarrow> comparePatterns p q \<noteq> MoreSpecific"
  by (cases "compareMethods (pMethod p) (pMethod q)")
     (simp_all add: comparePatterns_def Let_def combineRelationships_def inverseRelationship_def)

lemma path_segs_nonempty:
  assumes "literal_path path"
  obtains u where "path = CHR ''/'' # u" "CHR ''%'' \<notin> set u" "[] \<notin> set (path_segs path)"
proof -
  obtain u where u: "path = CHR ''/'' # u" "CHR ''%'' \<notin> set u"
    "\<forall>s \<in> set (butlast (split_path u)). s \<notin> {[], ''.'', ''..''}"
    using assms by (auto elim: literal_pathE)
  then have "[] \<notin> set (path_segs path)" using set_split_path [of u] by (auto simp: path_segs_literal)
  with u that show ?thesis by blast
qed

text \<open>For a fixed request: which pattern of a route matches, and what beats what.\<close>

lemma route_match_iff:
  assumes "registered rc t" and "CHR ''%'' \<notin> set u"
    and "segs = map Lit (split_path t) \<or> segs = map Lit (split_path t) @ [Multi]"
  shows "match_segs segs (path_segs (CHR ''/'' # u)) \<longleftrightarrow>
     (if segs = map Lit (split_path t) then CHR ''/'' # u = rcPath rc else HasPrefix (CHR ''/'' # u) (rcPath rc @ ''/''))"
  using assms(3) covers_segs [OF assms(1,2)] by (auto simp: match_lits match_lits_multi)

lemma covering_pattern:
  assumes "BuildRouter parse other now cfg = Inr rt" and "k < length (Routes cfg)" and "registered (Routes cfg ! k) t"
    and "covers (Routes cfg ! k) m (CHR ''/'' # u)" and "CHR ''%'' \<notin> set u"
  obtains q where "(q, RouteEp k) \<in> set (rMux rt)" "matches [] m (path_segs (CHR ''/'' # u)) q"
    "pSegs q = (if CHR ''/'' # u = rcPath (Routes cfg ! k) then map Lit (split_path t) else map Lit (split_path t) @ [Multi])"
proof -
  let ?rc = "Routes cfg ! k"
  have built: "route_built parse other now k ?rc rt" using BuildRouter_routes [OF assms(1)] assms(2) by blast
  let ?q = "if CHR ''/'' # u = rcPath ?rc then rcPath ?rc else rcPath ?rc @ ''/''"
  have "\<exists>s p. s \<in> set (route_patterns ?rc) \<and> parsePattern other s = Some p \<and> match_method (pMethod p) m
    \<and> pHost p = [] \<and> pSegs p = literal_segs ?q"
    by (rule route_pattern_exists [OF assms(3)]) (use assms(4) built in \<open>auto simp: covers_def route_built_def\<close>)
  then obtain s p where p: "s \<in> set (route_patterns ?rc)" "parsePattern other s = Some p" "match_method (pMethod p) m"
    "pHost p = []" "pSegs p = literal_segs ?q"
    by blast
  have mem: "(p, RouteEp k) \<in> set (rMux rt)" using built p(1,2) by (auto simp: route_built_def)
  have segs: "pSegs p = (if CHR ''/'' # u = rcPath ?rc then map Lit (split_path t) else map Lit (split_path t) @ [Multi])"
    using p(5) registered_segs [OF assms(3)] by simp
  moreover have "match_segs (pSegs p) (path_segs (CHR ''/'' # u))"
    using covers_segs [OF assms(3,5)] assms(4) segs by (auto simp: covers_def match_lits match_lits_multi)
  ultimately show ?thesis using that mem p(3,4) by (simp add: matches_def)
qed

text \<open>A longer covering path has more segments, and beats the prefix pattern of a shorter one.\<close>

lemma longer_path_segs:
  assumes "split_path u = split_path a @ xs" and "split_path u = split_path b @ ys" and "length a < length b"
  obtains z zs where "split_path b = split_path a @ z # zs"
proof -
  have "\<exists>zs. split_path b = split_path a @ zs \<or> split_path a = split_path b @ zs"
    using assms(1,2) by (metis append_eq_append_conv2)
  then obtain zs where "split_path b = split_path a @ zs \<or> split_path a = split_path b @ zs" by blast
  moreover have "length b \<le> length a" if "split_path a = split_path b @ zs"
  proof (cases "zs = []")
    case False
    then have "a = b @ ''/'' @ Join zs ''/''" using that by (metis Join_append Join_split_path split_path_neq_Nil)
    then show ?thesis by simp
  qed (use that in \<open>simp add: split_path_inj\<close>)
  moreover have "zs \<noteq> []" if "split_path b = split_path a @ zs"
    using that assms(3) by (auto simp: split_path_inj)
  ultimately show ?thesis using that assms(3) by (cases zs) auto
qed

lemma covers_split:
  assumes "registered rc t" and "covers rc m (CHR ''/'' # u)"
  shows "\<exists>xs. split_path u = split_path t @ xs"
  using assms split_path_append [of t] by (fastforce simp: covers_def registered_def HasPrefix_iff)

lemma chosen_longest:
  assumes B: "BuildRouter parse other now cfg = Inr rt" and L: "literal_config cfg"
    and u: "CHR ''%'' \<notin> set u" and x: "most_specific [] m (path_segs (CHR ''/'' # u)) (rMux rt) (p, RouteEp n)"
  shows "n < length (Routes cfg) \<and> covers (Routes cfg ! n) m (CHR ''/'' # u)
    \<and> (\<forall>k < length (Routes cfg). covers (Routes cfg ! k) m (CHR ''/'' # u)
         \<longrightarrow> length (rcPath (Routes cfg ! k)) \<le> length (rcPath (Routes cfg ! n)))"
proof -
  let ?segs = "path_segs (CHR ''/'' # u)"
  have mem: "(p, RouteEp n) \<in> set (rMux rt)" and m: "matches [] m ?segs p"
    and best: "\<And>q k. (q, RouteEp k) \<in> set (rMux rt) \<Longrightarrow> matches [] m ?segs q \<Longrightarrow>
      (q, RouteEp k) = (p, RouteEp n) \<or> comparePatterns p q = MoreSpecific"
    using x by (fastforce simp: most_specific_def)+
  obtain t where n: "n < length (Routes cfg)" "registered (Routes cfg ! n) t"
    "\<And>m. match_method (pMethod p) m \<Longrightarrow> allows (Routes cfg ! n) m"
    "pSegs p = map Lit (split_path t) \<or> pSegs p = map Lit (split_path t) @ [Multi]"
    using built_patterns [OF B L mem] by (metis empty_iff endpoint.distinct endpoint.inject insert_iff)
  have cov: "covers (Routes cfg ! n) m (CHR ''/'' # u)"
    using m n(3) route_match_iff [OF n(2) u n(4)] by (auto simp: covers_def matches_def split: if_splits)
  have "length (rcPath (Routes cfg ! k)) \<le> length (rcPath (Routes cfg ! n))"
    if k: "k < length (Routes cfg)" "covers (Routes cfg ! k) m (CHR ''/'' # u)" for k
  proof (rule ccontr)
    assume longer: "\<not> ?thesis"
    have "literal_route (Routes cfg ! k)" using L k(1) by (auto simp: literal_config_def list_all_length)
    moreover have "\<not> HasSuffix (rcPath (Routes cfg ! k)) ''/''" using BuildRouter_routes [OF B] k(1) by (metis nth_mem)
    ultimately obtain b where b: "registered (Routes cfg ! k) b" using registeredI by blast
    obtain q where q: "(q, RouteEp k) \<in> set (rMux rt)" "matches [] m ?segs q"
      "pSegs q = (if CHR ''/'' # u = rcPath (Routes cfg ! k) then map Lit (split_path b) else map Lit (split_path b) @ [Multi])"
      using covering_pattern [OF B k(1) b k(2) u] by blast
    have "length t < length b" using longer b n(2) by (simp add: registered_def)
    then obtain z zs where z: "split_path b = split_path t @ z # zs"
      using covers_split [OF n(2) cov] covers_split [OF b k(2)] longer_path_segs by metis
    have "pSegs p = map Lit (split_path t) @ [Multi]"
    proof (rule ccontr)
      assume "pSegs p \<noteq> map Lit (split_path t) @ [Multi]"
      then have "CHR ''/'' # u = rcPath (Routes cfg ! n)"
        using n(4) m route_match_iff [OF n(2) u n(4)] by (auto simp: matches_def)
      then have "u = t" using n(2) by (simp add: registered_def)
      then show False using covers_split [OF b k(2)] z by auto
    qed
    then have "comparePaths (pSegs p) (pSegs q) = MoreGeneral"
      using q(3) compare_shorter by (auto simp: z)
    then have "comparePatterns p q \<noteq> MoreSpecific" by (rule general_not_specific)
    moreover have "comparePaths (pSegs p) (pSegs p) = Equivalent" by (simp add: comparePaths_def compare_segs_self)
    ultimately show False using best [OF q(1,2)] \<open>comparePaths (pSegs p) (pSegs q) = MoreGeneral\<close> by auto
  qed
  with n(1) cov show ?thesis by blast
qed

text \<open>A literal path needs no cleaning.\<close>

lemma clean_segs_clean:
  assumes "\<forall>s \<in> set (butlast ps). s \<notin> {[], ''.'', ''..''}" and "ps \<noteq> []" and "last ps \<notin> {''.'', ''..''}"
  shows "clean_segs acc ps = rev acc @ (if last ps = [] then butlast ps else ps)"
  using assms
proof (induction ps arbitrary: acc)
  case (Cons s ps)
  then show ?case by (cases ps) (auto split: if_splits)
qed simp

lemma cleanPath_literal:
  assumes "literal_path path"
  shows "cleanPath path = path"
proof -
  obtain u where u: "path = CHR ''/'' # u" "\<forall>s \<in> set (butlast (split_path u)). s \<notin> {[], ''.'', ''..''}"
    "last (split_path u) \<notin> {''.'', ''..''}"
    using assms by (auto elim: literal_pathE)
  have c: "clean_segs [] (split_path u) = (if last (split_path u) = [] then butlast (split_path u) else split_path u)"
    using clean_segs_clean [OF u(2) _ u(3), of "[]"] by simp
  show ?thesis
  proof (cases "last (split_path u) = []")
    case False
    then have "last path \<noteq> CHR ''/''" using u(1) by (auto simp: last_split_path)
    then show ?thesis using u(1) c False Join_split_path [of u] by (simp add: cleanPath_def)
  next
    case True
    then have l: "last path = CHR ''/''" using u(1) by (auto simp: last_split_path)
    have split: "split_path u = butlast (split_path u) @ [[]]" using True by (metis append_butlast_last_id split_path_neq_Nil)
    show ?thesis
    proof (cases "butlast (split_path u) = []")
      case True
      then have "u = []" using split Join_split_path [of u] by simp
      then show ?thesis using u(1) by (simp add: cleanPath_def)
    next
      case False
      then have j: "u = Join (butlast (split_path u)) ''/'' @ ''/''"
        using split Join_append [OF False, of "[[]]" "''/''"] Join_split_path [of u] by simp
      have "Join (butlast (split_path u)) ''/'' \<noteq> []"
        using False u(2) by (cases "butlast (split_path u)"; cases "tl (butlast (split_path u))") auto
      then show ?thesis using u(1) c True l j by (simp add: cleanPath_def)
    qed
  qed
qed

lemma slash_count: "length (filter (\<lambda>c. c = CHR ''/'') (CHR ''/'' # u)) = length (split_path u)"
proof (induction u)
  case (Cons c u)
  then show ?case by (cases "c = CHR ''/''") (auto simp: split_path_slash split_path_char)
qed simp

lemma path_segs_slash:
  assumes "CHR ''%'' \<notin> set u" and "\<not> HasSuffix (CHR ''/'' # u) ''/''"
  shows "path_segs (CHR ''/'' # u @ ''/'') = split_path u @ [''/'']" and "last (split_path u) \<noteq> []"
proof -
  show "path_segs (CHR ''/'' # u @ ''/'') = split_path u @ [''/'']"
    using assms(1) split_path_append [of u "[]"] by (simp add: path_segs_def Let_def)
  show "last (split_path u) \<noteq> []" using assms(2) by (auto simp: HasSuffix_single last_split_path split: if_splits)
qed

text \<open>
  The mux never redirects a literal path to itself with a slash: where a prefix pattern is exact
  for the longer path, the route's exact pattern is chosen for the shorter one.
\<close>

lemma exact_below:
  assumes B: "BuildRouter parse other now cfg = Inr rt" and L: "literal_config cfg"
    and u: "CHR ''%'' \<notin> set u" "\<not> HasSuffix (CHR ''/'' # u) ''/''"
    and x: "(p, e) \<in> set (rMux rt)" "matches [] m (split_path u @ [''/'']) p" "length (pSegs p) = Suc (length (split_path u))"
  shows "\<exists>n t. n < length (Routes cfg) \<and> registered (Routes cfg ! n) t \<and> u = t \<and> allows (Routes cfg ! n) m"
proof -
  have no: "split_path u @ [''/''] \<noteq> split_path t" for t
    using split_path_no_slash [of "''/''" t] by (metis in_set_conv_decomp list.set_intros(1))
  show ?thesis
    using B L x(1)
  proof (cases rule: built_patterns)
    case (route n t)
    then have "pSegs p = map Lit (split_path t) @ [Multi]" using x(2) no [of t] by (auto simp: matches_def match_lits)
    moreover from this obtain rest where "split_path u @ [''/''] = split_path t @ rest" "rest \<noteq> []"
      using x(2) by (auto simp: matches_def match_lits_multi)
    ultimately have "split_path u = split_path t" using x(3) by (simp add: append_eq_append_conv)
    then show ?thesis using route x(2) by (auto simp: split_path_inj matches_def)
  next
    case (system t)
    then show ?thesis using x(2) no [of t] by (auto simp: matches_def match_lits)
  qed
qed

lemma exact_chosen:
  assumes B: "BuildRouter parse other now cfg = Inr rt" and L: "literal_config cfg"
    and u: "CHR ''%'' \<notin> set u" and n: "n < length (Routes cfg)" "registered (Routes cfg ! n) u" "allows (Routes cfg ! n) m"
    and x: "most_specific [] m (path_segs (CHR ''/'' # u)) (rMux rt) (p, e)"
  shows "pSegs p = map Lit (split_path u)"
proof -
  have path: "CHR ''/'' # u = rcPath (Routes cfg ! n)" using n(2) by (simp add: registered_def)
  then have "covers (Routes cfg ! n) m (CHR ''/'' # u)" using n(3) by (simp add: covers_def)
  then obtain q where q: "(q, RouteEp n) \<in> set (rMux rt)" "matches [] m (path_segs (CHR ''/'' # u)) q"
    "pSegs q = map Lit (split_path u)"
    using covering_pattern [OF B n(1,2) _ u, of m] path by metis
  have segs: "path_segs (CHR ''/'' # u) = split_path u" using q(2,3) by (simp add: matches_def match_lits)
  have m: "matches [] m (split_path u) p" and "(p, e) \<in> set (rMux rt)" and
    best: "(q, RouteEp n) = (p, e) \<or> comparePatterns p q = MoreSpecific"
    using x q(1,2) by (fastforce simp: most_specific_def segs)+
  have "\<exists>as. pSegs p = map Lit as \<or> pSegs p = map Lit as @ [Multi]"
    using B L \<open>(p, e) \<in> set (rMux rt)\<close> by (cases rule: built_patterns) blast+
  then obtain as where as: "pSegs p = map Lit as \<or> pSegs p = map Lit as @ [Multi]" by blast
  have "False" if multi: "pSegs p = map Lit as @ [Multi]"
  proof -
    obtain z zs where z: "split_path u = as @ z # zs"
      using m multi by (auto simp: matches_def match_lits_multi neq_Nil_conv)
    then have "comparePaths (pSegs p) (pSegs q) = MoreGeneral" using multi q(3) compare_shorter by simp
    then have "comparePatterns p q \<noteq> MoreSpecific" by (rule general_not_specific)
    with best have "q = p" by simp
    then show False using q(3) multi by (metis in_set_conv_decomp ex_map_conv segment.distinct(3))
  qed
  with as m show ?thesis by (auto simp: matches_def match_lits)
qed

lemma no_redirect:
  assumes B: "BuildRouter parse other now cfg = Inr rt" and L: "literal_config cfg" and P: "literal_path path"
  shows "matchOrRedirect host m path (rMux rt) = Inr (matchMethodAndPath [] m (path_segs path) (rMux rt))"
proof -
  note wf = built_wf [OF B L]
  obtain u where u: "path = CHR ''/'' # u" "CHR ''%'' \<notin> set u" "[] \<notin> set (path_segs path)"
    using P by (rule path_segs_nonempty)
  have tm: "tree_match host m (path_segs path) (rMux rt) = matchMethodAndPath [] m (path_segs path) (rMux rt)"
    using wf u(3) by (intro tree_match_local) auto
  have "exactMatch (matchMethodAndPath [] m (path_segs path) (rMux rt)) path"
    if s: "\<not> HasSuffix path ''/''" and e: "exactMatch (tree_match host m (path_segs (path @ ''/'')) (rMux rt)) (path @ ''/'')"
  proof -
    have segs: "path_segs (path @ ''/'') = split_path u @ [''/'']" "last (split_path u) \<noteq> []"
      using path_segs_slash [OF u(2)] s u(1) by auto
    then have ne: "[] \<notin> set (path_segs (path @ ''/''))" using u by (auto simp: path_segs_literal)
    obtain p e' where p: "tree_match host m (path_segs (path @ ''/'')) (rMux rt) = Some (p, e')"
      "length (pSegs p) = length (filter (\<lambda>c. c = CHR ''/'') (path @ ''/''))"
      using e by (auto simp: exactMatch_def split: option.splits)
    then have "most_specific [] m (split_path u @ [''/'']) (rMux rt) (p, e')"
      using tree_match_local [OF wf(1) ne wf(2)] tree.pick_Some [OF _ wf(1) ne] segs(1) by metis
    then obtain n where n: "n < length (Routes cfg)" "registered (Routes cfg ! n) u" "allows (Routes cfg ! n) m"
      using exact_below [OF B L u(2), of p e' m] s p(2) slash_count [of u] u(1) by (auto simp: most_specific_def)
    then have "covers (Routes cfg ! n) m path" using u(1) by (simp add: covers_def registered_def)
    then obtain q where "(q, RouteEp n) \<in> set (rMux rt)" "matches [] m (path_segs path) q"
      using covering_pattern [OF B n(1,2), of m u] u(1,2) by metis
    then obtain p2 e2 where x: "matchMethodAndPath [] m (path_segs path) (rMux rt) = Some (p2, e2)"
      using tree.pick_None by (metis not_Some_eq prod.collapse)
    then have "pSegs p2 = map Lit (split_path u)"
      using exact_chosen [OF B L u(2) n] tree.pick_Some [OF x wf(1) u(3)] u(1) by blast
    then show ?thesis using x slash_count [of u] u(1) by (auto simp: exactMatch_def ends_multi_def last_map)
  qed
  then show ?thesis by (auto simp: matchOrRedirect_def Let_def tm)
qed

section \<open>Properties\<close>

lemma findHandler_literal:
  assumes "BuildRouter parse other now cfg = Inr rt" and "literal_config cfg" and "literal_path path"
  shows "findHandler host m path (rMux rt) = (case matchMethodAndPath [] m (path_segs path) (rMux rt) of
       Some (p, e) \<Rightarrow> Found p e
     | None \<Rightarrow> (let ms = matchingMethods host path (rMux rt) in if ms \<noteq> [] then MethodNotAllowed ms else NotFound))"
  using no_redirect [OF assms, of host m] cleanPath_literal [OF assms(3)] by (simp add: findHandler_def)



section \<open>Instances\<close>

definition two_routes :: GatewayConfig where
  "two_routes = sample_gateway [sample_route, sample_route\<lparr>rcPath := ''/api/users''\<rparr>]"

lemma two_routes_built:
  "case BuildRouter sample_parse (\<lambda>_. None) 0 two_routes of Inr _ \<Rightarrow> True | Inl _ \<Rightarrow> False"
  by code_simp

lemma two_routes_simps:
  "Routes two_routes = [default_route sample_route, default_route (sample_route\<lparr>rcPath := ''/api/users''\<rparr>)]"
  "rcPath (default_route rc) = rcPath rc" "rcMethods (default_route rc) = rcMethods rc"
  by (simp_all add: two_routes_def sample_gateway_def ApplyDefaults_def default_route_def)

lemma two_routes_facts:
  "literal_config two_routes" "literal_path ''/api/users/7''"
  "covers (Routes two_routes ! 0) ''POST'' ''/api/users/7''" "covers (Routes two_routes ! 1) ''POST'' ''/api/users/7''"
proof -
  have l: "literal_path ''/api''" "literal_path ''/api/users''" "literal_path ''/metrics''"
    by (simp_all add: literal_path_def HasPrefix_def clean_path_def split_path_char split_path_slash)
  have "mcPath (Metrics two_routes) = ''/metrics''"
    by (simp add: two_routes_def sample_gateway_def ApplyDefaults_def default_defs sample_raw_def)
  with l show "literal_config two_routes"
    by (simp add: literal_config_def two_routes_simps literal_route_def sample_route_def HasSuffix_def)
  show "literal_path ''/api/users/7''"
    by (simp add: literal_path_def HasPrefix_def clean_path_def split_path_char split_path_slash)
  show "covers (Routes two_routes ! 0) ''POST'' ''/api/users/7''" "covers (Routes two_routes ! 1) ''POST'' ''/api/users/7''"
    by (simp_all add: covers_def allows_def two_routes_simps sample_route_def HasPrefix_def)
qed



end
