(* ===== verification/Traffic.thy ===== *)
theory Traffic
  imports Routing "HOL-Library.Sublist"
begin

text \<open>
  The gateway as one handler: the mux of a built router in front of the handlers of its routes
  and of the system endpoints, run over a history of requests and health updates. What belongs to
  libraries is the record \<open>library\<close>: the replies of the mux itself (redirects, 404 and 405),
  the metrics page of \<open>promhttp\<close>, the treatment of \<open>CONNECT\<close>, and \<open>URL.EscapedPath\<close>.
\<close>

section \<open>Serving a request\<close>

record library =
  mux_reply :: "endpoint found \<Rightarrow> handler"
  promhttp_handler :: handler
  serve_connect :: handler
  EscapedPath :: "string \<Rightarrow> string"

definition stripHostPort :: "string \<Rightarrow> string" where
  "stripHostPort h = (if IndexByte h (CHR '':'') = -1 then h
     else case SplitHostPort h of None \<Rightarrow> h | Some (host, _) \<Rightarrow> host)"

definition endpoint_handler :: "library \<Rightarrow> GatewayConfig \<Rightarrow> endpoint \<Rightarrow> handler" where
  "endpoint_handler lib cfg e = (case e of
       HealthEp \<Rightarrow> healthHandler
     | ReadyEp \<Rightarrow> readinessHandler cfg
     | MetricsEp \<Rightarrow> promhttp_handler lib
     | RouteEp n \<Rightarrow> route_handler (CORS cfg) n (Routes cfg ! n))"

definition gateway_serve :: "library \<Rightarrow> GatewayConfig \<Rightarrow> Router \<Rightarrow> handler" where
  "gateway_serve lib cfg rt r w g =
     (if Method r = ''CONNECT'' then serve_connect lib r w g
      else case findHandler (stripHostPort (ReqHost r)) (Method r) (EscapedPath lib (URL_Path r)) (rMux rt) of
          Found p e \<Rightarrow> endpoint_handler lib cfg e r w g
        | f \<Rightarrow> mux_reply lib f r w g)"

text \<open>The state that \<open>BuildRouter\<close> made for the routes.\<close>

definition world_of :: "Router \<Rightarrow> World \<Rightarrow> World" where
  "world_of rt g = g\<lparr>
     stores := (\<lambda>n. case rStores rt n of None \<Rightarrow> stores g n | Some s \<Rightarrow> s),
     breakers := (\<lambda>n. case rBreakers rt n of None \<Rightarrow> breakers g n | Some b \<Rightarrow> b),
     balancers := (\<lambda>n. case rBalancers rt n of None \<Rightarrow> balancers g n | Some b \<Rightarrow> b)\<rparr>"

section \<open>Histories\<close>

text \<open>
  A request arrives, with the clock, the identifier and the upstream it finds; or a health checker
  sets the health of a target of a route.
\<close>

datatype gw_event =
    Arrives "site \<Rightarrow> Time" "string + string" "Request \<Rightarrow> upstream_result" Request writer
  | Probed nat string bool

fun gw_step :: "library \<Rightarrow> GatewayConfig \<Rightarrow> Router \<Rightarrow> gw_event \<Rightarrow> World \<Rightarrow> World" where
  "gw_step lib cfg rt (Arrives clk i up r w) g =
     snd (snd (gateway_serve lib cfg rt r w (g\<lparr>clock := clk, uuid := i, round_trip := up\<rparr>)))"
| "gw_step lib cfg rt (Probed n u v) g = g\<lparr>balancers := (balancers g)(n := SetHealthy u v (balancers g n))\<rparr>"

section \<open>Ownership of targets\<close>

definition route_targets :: "url_parser \<Rightarrow> RouteConfig \<Rightarrow> URL set" where
  "route_targets parse rc = {u. \<exists>tc \<in> set (rcTargets rc). parse (tcURL tc) = Inr u}"

definition owned :: "url_parser \<Rightarrow> GatewayConfig \<Rightarrow> World \<Rightarrow> bool" where
  "owned parse cfg g \<longleftrightarrow> (\<forall>n < length (Routes cfg). bal_wf (balancers g n)
     \<and> (\<forall>x \<in> set (Targets (balancers g n)). tURL (tsTarget x) \<in> route_targets parse (Routes cfg ! n)))"

lemma parse_targets_route:
  "t \<in> set (fst (parse_targets parse path ts)) \<Longrightarrow> \<exists>tc \<in> set ts. parse (tcURL tc) = Inr (tURL t)"
  by (induction ts) (auto split: prod.splits sum.splits)

lemma owned_start:
  assumes "BuildRouter parse other now cfg = Inr rt"
    and "\<forall>rc \<in> set (Routes cfg). int (length (rcTargets rc)) \<le> max_int64"
  shows "owned parse cfg (world_of rt g)"
  unfolding owned_def
proof (intro allI impI)
  fix n
  assume n: "n < length (Routes cfg)"
  let ?rc = "Routes cfg ! n"
  obtain b lg where b: "NewFromConfig parse ?rc = (b, lg)" by fastforce
  have "rBalancers rt n = Some b"
    using BuildRouter_routes [OF assms(1)] n b by (auto simp: route_built_def)
  then have w: "balancers (world_of rt g) n = b" by (simp add: world_of_def)
  have "int (length (rcTargets ?rc)) \<le> max_int64" using assms(2) n by simp
  from new_balancer [OF b this] show "bal_wf (balancers (world_of rt g) n) \<and>
      (\<forall>x \<in> set (Targets (balancers (world_of rt g) n)). tURL (tsTarget x) \<in> route_targets parse ?rc)"
    unfolding w by (auto simp: route_targets_def status_of_def dest: parse_targets_route)
qed

lemma owned_kept: "owned parse cfg g \<Longrightarrow> balancers_kept g g' \<Longrightarrow> owned parse cfg g'"
  by (simp add: owned_def balancers_kept_def)

lemma owned_probe: "owned parse cfg g \<Longrightarrow> owned parse cfg (g\<lparr>balancers := (balancers g)(n := SetHealthy u v (balancers g n))\<rparr>)"
proof -
  have "x \<in> set (set_health u v xs) \<Longrightarrow> tsTarget x \<in> tsTarget ` set xs" for x xs
    using set_health_targets [of u v xs] by (metis image_eqI set_map)
  then show "owned parse cfg g \<Longrightarrow> ?thesis"
    by (fastforce simp: owned_def bal.wf_SetHealthy bal.Targets_SetHealthy)
qed

section \<open>One request\<close>

text \<open>The handlers of the libraries do not forward requests and leave the balancers alone.\<close>

definition silent :: "handler \<Rightarrow> bool" where
  "silent h \<longleftrightarrow> (\<forall>r w g. upstream_requests (snd (snd (h r w g))) = upstream_requests g
     \<and> balancers (snd (snd (h r w g))) = balancers g)"

definition library_silent :: "library \<Rightarrow> bool" where
  "library_silent lib \<longleftrightarrow> silent (promhttp_handler lib) \<and> (\<forall>f. silent (mux_reply lib f))"

text \<open>The route a request belongs to: it covers the request and no covering route has a longer path.\<close>

definition owner :: "GatewayConfig \<Rightarrow> string \<Rightarrow> string \<Rightarrow> nat \<Rightarrow> bool" where
  "owner cfg m path n \<longleftrightarrow> n < length (Routes cfg) \<and> covers (Routes cfg ! n) m path
     \<and> (\<forall>k < length (Routes cfg). covers (Routes cfg ! k) m path
          \<longrightarrow> length (rcPath (Routes cfg ! k)) \<le> length (rcPath (Routes cfg ! n)))"

lemma found_owner:
  assumes "BuildRouter parse other now cfg = Inr rt" and "literal_config cfg" and "literal_path path"
    and "findHandler host m path (rMux rt) = Found p (RouteEp n)"
  shows "owner cfg m path n"
proof -
  obtain u where u: "path = CHR ''/'' # u" "CHR ''%'' \<notin> set u" "[] \<notin> set (path_segs path)"
    using assms(3) by (rule path_segs_nonempty)
  have "matchMethodAndPath [] m (path_segs path) (rMux rt) = Some (p, RouteEp n)"
    using assms(4) by (auto simp: findHandler_literal [OF assms(1-3)] Let_def split: option.splits if_splits)
  then have "most_specific [] m (path_segs path) (rMux rt) (p, RouteEp n)"
    using tree.pick_Some [OF _ built_wf(1) [OF assms(1,2)] u(3)] by blast
  from chosen_longest [OF assms(1,2) u(2) this [unfolded u(1)], folded u(1)] show ?thesis by (simp add: owner_def)
qed

text \<open>A request forwarded for \<open>r\<close>: to a target configured for the route that owns \<open>r\<close>.\<close>

definition forwarded_to_owner :: "library \<Rightarrow> url_parser \<Rightarrow> GatewayConfig \<Rightarrow> Request \<Rightarrow> Request \<Rightarrow> bool" where
  "forwarded_to_owner lib parse cfg r q \<longleftrightarrow> (\<exists>n t. owner cfg (Method r) (EscapedPath lib (URL_Path r)) n
     \<and> t \<in> route_targets parse (Routes cfg ! n) \<and> URL_Scheme q = Scheme t \<and> URL_Host q = Host t \<and> Method q = Method r)"

lemma system_silent:
  assumes "library_silent lib" and "\<nexists>n. e = RouteEp n"
  shows "silent (endpoint_handler lib cfg e)"
  using assms by (cases e)
    (auto simp: endpoint_handler_def library_silent_def silent_def healthHandler_def readinessHandler_def)

lemma gateway_serve_sends:
  assumes B: "BuildRouter parse other now cfg = Inr rt" and L: "literal_config cfg" and S: "library_silent lib"
    and r: "Method r \<noteq> ''CONNECT''" "literal_path (EscapedPath lib (URL_Path r))" and own: "owned parse cfg g"
    and run: "gateway_serve lib cfg rt r w g = (out, w', g')"
  shows "owned parse cfg g' \<and> (upstream_requests g' = upstream_requests g \<or>
    (\<exists>q. upstream_requests g' = upstream_requests g @ [q] \<and> forwarded_to_owner lib parse cfg r q))"
proof -
  have quiet: ?thesis if "silent h" "h r w g = (out, w', g')" for h
  proof -
    have "upstream_requests g' = upstream_requests g" "balancers g' = balancers g"
      using that unfolding silent_def by (metis snd_conv)+
    with own show ?thesis by (simp add: owned_def)
  qed
  show ?thesis
  proof (cases "\<exists>p n. findHandler (stripHostPort (ReqHost r)) (Method r) (EscapedPath lib (URL_Path r)) (rMux rt) = Found p (RouteEp n)")
    case True
    then obtain p n where f: "findHandler (stripHostPort (ReqHost r)) (Method r) (EscapedPath lib (URL_Path r)) (rMux rt) = Found p (RouteEp n)"
      by blast
    have o: "owner cfg (Method r) (EscapedPath lib (URL_Path r)) n" using found_owner [OF B L r(2) f] .
    have h: "route_handler (CORS cfg) n (Routes cfg ! n) r w g = (out, w', g')"
      using run r(1) f by (simp add: gateway_serve_def endpoint_handler_def)
    have n: "n < length (Routes cfg)" using o by (simp add: owner_def)
    have targets: "t \<in> route_targets parse (Routes cfg ! n)" if "fst (Next (balancers g n)) = Inr t" for t
      using own n bal.Next_sound [of "balancers g n" t] that by (auto simp: owned_def offered_def list_ex_iff)
    obtain i where "sends n (Routes cfg ! n) (WithContext (WithRequestID (ReqContext r) i) r) g g'"
      using route_sends_any [OF h] by blast
    then have "upstream_requests g' = upstream_requests g \<or>
        (\<exists>q. upstream_requests g' = upstream_requests g @ [q] \<and> forwarded_to_owner lib parse cfg r q)"
      using targets o
      by (fastforce simp: sends_def forwarded_def out_request_fields WithContext_def forwarded_to_owner_def)
    moreover have "balancers_kept g g'" by (rule kept.keepsD [OF kept.keeps_route h])
    ultimately show ?thesis using owned_kept [OF own] by blast
  next
    case False
    then show ?thesis
      using run r(1) S quiet [of "mux_reply lib _"] quiet [OF system_silent [OF S]]
      by (auto simp: gateway_serve_def library_silent_def split: found.splits if_splits)
  qed
qed

section \<open>Histories of requests\<close>

fun arrivals :: "gw_event list \<Rightarrow> Request list" where
  "arrivals [] = []"
| "arrivals (Arrives clk i up r w # es) = r # arrivals es"
| "arrivals (Probed n u v # es) = arrivals es"

lemma history_sends:
  assumes B: "BuildRouter parse other now cfg = Inr rt" and L: "literal_config cfg" and S: "library_silent lib"
    and "\<forall>r \<in> set (arrivals es). Method r \<noteq> ''CONNECT'' \<and> literal_path (EscapedPath lib (URL_Path r))"
    and "owned parse cfg g"
  shows "\<exists>rs qs. upstream_requests (fold (gw_step lib cfg rt) es g) = upstream_requests g @ qs
    \<and> subseq rs (arrivals es) \<and> list_all2 (forwarded_to_owner lib parse cfg) rs qs"
  using assms(4,5)
proof (induction es arbitrary: g)
  case (Cons e es)
  show ?case
  proof (cases e)
    case (Arrives clk i up r w)
    let ?g = "g\<lparr>clock := clk, uuid := i, round_trip := up\<rparr>"
    obtain out w' g' where run: "gateway_serve lib cfg rt r w ?g = (out, w', g')" by (metis prod_cases3)
    have "owned parse cfg ?g" using Cons.prems(2) by (simp add: owned_def)
    then have step: "owned parse cfg g'" "upstream_requests g' = upstream_requests g \<or>
        (\<exists>q. upstream_requests g' = upstream_requests g @ [q] \<and> forwarded_to_owner lib parse cfg r q)"
      using gateway_serve_sends [OF B L S _ _ _ run] Cons.prems(1) Arrives by auto
    obtain rs qs where IH: "upstream_requests (fold (gw_step lib cfg rt) es g') = upstream_requests g' @ qs"
      "subseq rs (arrivals es)" "list_all2 (forwarded_to_owner lib parse cfg) rs qs"
      using Cons.IH [OF _ step(1)] Cons.prems(1) Arrives by auto
    have g': "fold (gw_step lib cfg rt) (e # es) g = fold (gw_step lib cfg rt) es g'" using run Arrives by simp
    from step(2) show ?thesis
    proof
      assume "upstream_requests g' = upstream_requests g"
      then show ?thesis unfolding g' using IH Arrives by auto
    next
      assume "\<exists>q. upstream_requests g' = upstream_requests g @ [q] \<and> forwarded_to_owner lib parse cfg r q"
      then obtain q where "upstream_requests g' = upstream_requests g @ [q]" "forwarded_to_owner lib parse cfg r q" by blast
      then show ?thesis unfolding g' using IH Arrives by (intro exI [of _ "r # rs"] exI [of _ "q # qs"]) auto
    qed
  next
    case (Probed n u v)
    then show ?thesis
      using Cons.IH [OF _ owned_probe [OF Cons.prems(2)], of n u v] Cons.prems(1) by simp
  qed
qed simp

section \<open>Properties\<close>


section \<open>Instances\<close>

definition quiet_library :: library where
  "quiet_library = \<lparr>mux_reply = (\<lambda>f r w g. (Returned, w, g)), promhttp_handler = (\<lambda>r w g. (Returned, w, g)),
     serve_connect = (\<lambda>r w g. (Returned, w, g)), EscapedPath = id\<rparr>"


end
