(* ===== verification/Gateway.thy ===== *)
theory Gateway
  imports Router
begin

text \<open>
  The server, \<open>internal/server/server.go\<close>, and the life of the process,
  \<open>cmd/gateforge/main.go\<close>: start-up, hot reload through the watcher's callback, and shutdown
  on a signal. The goroutines of the process (the accepting server, the watcher, the signal
  handler and \<open>main\<close>) interleave in the step relation \<open>proc_step\<close>.
\<close>

section \<open>The server\<close>

record Server =
  srvAddr :: string
  srvHandler :: Router
  srvReadTimeout :: Duration
  srvWriteTimeout :: Duration
  srvIdleTimeout :: Duration

definition New :: "Router \<Rightarrow> int \<Rightarrow> Duration \<Rightarrow> Duration \<Rightarrow> Duration \<Rightarrow> Server" where
  "New rt port rd wr idle = \<lparr>srvAddr = '':'' @ Itoa port, srvHandler = rt, srvReadTimeout = rd,
     srvWriteTimeout = wr, srvIdleTimeout = idle\<rparr>"

text \<open>
  \<open>ListenAndServe\<close> ends with one of two kinds of error and never returns nil.
  \<open>Start\<close> logs, blocks in it, and makes its own result of the error.
\<close>

datatype listen_error = ErrServerClosed | ListenError string

definition start_log :: "Server \<Rightarrow> LogRecord" where
  "start_log s = log_record LevelInfo ''server listening'' [(''addr'', AString (srvAddr s))]"

definition start_result :: "listen_error \<Rightarrow> string option" where
  "start_result err =
     (case err of ErrServerClosed \<Rightarrow> None | ListenError e \<Rightarrow> Some (''server failed: '' @ e))"

definition Server_Start :: "listen_error \<Rightarrow> Server \<Rightarrow> LogRecord list \<Rightarrow> string option \<times> LogRecord list" where
  "Server_Start err s lg = (start_result err, lg @ [start_log s])"

definition SetHandler :: "Router \<Rightarrow> Server \<Rightarrow> Server" where
  "SetHandler rt s = s\<lparr>srvHandler := rt\<rparr>"

section \<open>The state of the process\<close>

text \<open>
  \<open>main\<close> serves, or has returned from \<open>Start\<close> and is about to end, or the process has
  exited with a code; the signal goroutine waits, is inside \<open>Shutdown\<close>, or is done.
  \<open>inflight\<close> counts the requests being served. \<open>watcher\<close> is \<open>None\<close> when hot reload
  is disabled and \<open>watching\<close> says whether its loop still runs; \<open>plog\<close> is what was logged
  outside the requests and the watcher.
\<close>

datatype main_pc = Serving | Leaving | Exited int
datatype signal_pc = Waiting | Draining | Drained

record Proc =
  server :: Server
  watcher :: "Watcher option"
  watching :: bool
  plog :: "LogRecord list"
  inflight :: nat
  listening :: bool
  mainpc :: main_pc
  sigpc :: signal_pc

definition alive :: "Proc \<Rightarrow> bool" where
  "alive s \<longleftrightarrow> (case mainpc s of Exited _ \<Rightarrow> False | _ \<Rightarrow> True)"

definition plog_to :: "LogLevel \<Rightarrow> string \<Rightarrow> (string \<times> Attr) list \<Rightarrow> Proc \<Rightarrow> Proc" where
  "plog_to l m as s = s\<lparr>plog := plog s @ [log_record l m as]\<rparr>"

text \<open>\<open>Shutdown\<close> logs and closes the listeners; what it waits for then is in the steps below.\<close>

definition Server_Shutdown :: "Proc \<Rightarrow> Proc" where
  "Server_Shutdown s = plog_to LevelInfo ''shutting down server'' [] (s\<lparr>listening := False, sigpc := Draining\<rparr>)"

section \<open>Start-up\<close>

text \<open>
  What \<open>main\<close> does before it blocks in \<open>Start\<close>: it prints the version, or fails to load
  the configuration (both exit, with what they print), or panics while building the router, or
  serves. The arguments are the flags, the version, the clock and the outcomes of the two
  \<open>fsnotify\<close> calls; \<open>other\<close> parses path segments with braces or escapes.
\<close>

record main_env =
  meHost :: host
  meVersion :: string
  meNow :: Time
  fsNew :: "string option"
  fsAdd :: "string option"

datatype startup = ExitNow int string string | Crash string | Serve GatewayConfig Logger Proc

definition config_path :: "string option \<Rightarrow> string" where
  "config_path flag = (case flag of None \<Rightarrow> ''configs/gateway.yaml'' | Some p \<Rightarrow> p)"

definition startup :: "(string \<Rightarrow> segment list option) \<Rightarrow> main_env \<Rightarrow> string option \<Rightarrow> bool \<Rightarrow> startup" where
  "startup other e configPath version =
     (let path = config_path configPath
      in if version then ExitNow 0 (''gateforge '' @ meVersion e @ [CHR 0x0A]) []
         else case Load (meHost e) path of
             Inl err \<Rightarrow> ExitNow 1 [] (''failed to load config: '' @ err @ [CHR 0x0A])
           | Inr cfg \<Rightarrow>
               (let lg = [log_record LevelInfo ''gateforge starting''
                      [(''version'', AString (meVersion e)), (''port'', AInt (scPort (Server cfg))),
                       (''routes'', AInt (int (length (Routes cfg))))]]
                in case BuildRouter (url_Parse (meHost e)) other (meNow e) cfg of
                     Inl p \<Rightarrow> Crash p
                   | Inr rt \<Rightarrow>
                       (let srv = New rt (scPort (Server cfg)) (scReadTimeout (Server cfg))
                              (scWriteTimeout (Server cfg)) (scIdleTimeout (Server cfg));
                            wres = NewWatcher (fsNew e) (fsAdd e) path;
                            lg = lg @ rLog rt @ (case wres of
                                Inl err \<Rightarrow> [log_record LevelWarn ''config watcher failed, hot reload disabled''
                                   [(''error'', AString err)]]
                              | Inr _ \<Rightarrow> [])
                        in Serve cfg (NewLogger (Logging cfg))
                             \<lparr>server = srv, watcher = (case wres of Inl _ \<Rightarrow> None | Inr w \<Rightarrow> Some w),
                              watching = (case wres of Inl _ \<Rightarrow> False | Inr w \<Rightarrow> True),
                              plog = lg @ [start_log srv], inflight = 0, listening = True,
                              mainpc = Serving, sigpc = Waiting\<rparr>)))"

section \<open>Steps of the running process\<close>

text \<open>
  The callback given to the watcher; a panic in it is one of the watcher's goroutine and ends the
  process with code 2.
\<close>

definition on_reload :: "url_parser \<Rightarrow> (string \<Rightarrow> segment list option) \<Rightarrow> Time \<Rightarrow> GatewayConfig \<Rightarrow> Proc \<Rightarrow> Proc" where
  "on_reload parse other now cfg s =
     (let s = plog_to LevelInfo ''config reloaded, rebuilding router'' [] s
      in case BuildRouter parse other now cfg of
           Inl p \<Rightarrow> s\<lparr>mainpc := Exited 2\<rparr>
         | Inr rt \<Rightarrow> s\<lparr>server := SetHandler rt (server s), plog := plog s @ rLog rt\<rparr>)"

text \<open>The watcher's goroutine receives something: one turn of its loop, and the callback if it delivers.\<close>

definition file_event :: "(string \<Rightarrow> segment list option) \<Rightarrow> Time \<Rightarrow> host \<Rightarrow> received \<Rightarrow> Proc \<Rightarrow> Proc" where
  "file_event other now h r s =
     (case watcher s of
        None \<Rightarrow> s
      | Some w \<Rightarrow>
          if \<not> watching s then s
          else case watch_turn h r w of
              (w', go) \<Rightarrow>
                (let s = s\<lparr>watcher := Some w', watching := go\<rparr>
                 in case drop (length (delivered w)) (delivered w') of
                      [] \<Rightarrow> s
                    | cfg # _ \<Rightarrow> on_reload (url_Parse h) other now cfg s))"

text \<open>
  Requests, the signal goroutine and \<open>main\<close>. \<open>Shutdown\<close> first closes the listeners, at
  which \<open>ListenAndServe\<close> returns \<open>ErrServerClosed\<close> at once, and then waits for the
  requests in flight or for its deadline of 15 seconds. The deferred calls of \<open>main\<close> run when it
  returns.
\<close>

inductive lifecycle_step :: "Proc \<Rightarrow> Proc \<Rightarrow> bool" where
  accept: "alive s \<Longrightarrow> listening s \<Longrightarrow> lifecycle_step s (s\<lparr>inflight := Suc (inflight s)\<rparr>)"
| finish: "alive s \<Longrightarrow> inflight s = Suc n \<Longrightarrow> lifecycle_step s (s\<lparr>inflight := n\<rparr>)"
| signalled: "alive s \<Longrightarrow> sigpc s = Waiting \<Longrightarrow>
    lifecycle_step s (Server_Shutdown (plog_to LevelInfo ''shutdown signal received'' [(''signal'', AString sig)] s))"
| drained: "alive s \<Longrightarrow> sigpc s = Draining \<Longrightarrow> inflight s = 0 \<Longrightarrow> lifecycle_step s (s\<lparr>sigpc := Drained\<rparr>)"
| drain_deadline: "alive s \<Longrightarrow> sigpc s = Draining \<Longrightarrow>
    lifecycle_step s (plog_to LevelError ''server shutdown error''
      [(''error'', AString ''context deadline exceeded'')] (s\<lparr>sigpc := Drained\<rparr>))"
| start_returns: "mainpc s = Serving \<Longrightarrow> \<not> listening s \<Longrightarrow> start_result ErrServerClosed = None \<Longrightarrow>
    lifecycle_step s (plog_to LevelInfo ''server stopped gracefully'' [] (s\<lparr>mainpc := Leaving\<rparr>))"
| start_fails: "mainpc s = Serving \<Longrightarrow> listening s \<Longrightarrow> start_result (ListenError e) = Some err \<Longrightarrow>
    lifecycle_step s (plog_to LevelError ''server failed'' [(''error'', AString err)]
      (s\<lparr>listening := False, mainpc := Exited 1\<rparr>))"
| main_returns: "mainpc s = Leaving \<Longrightarrow>
    lifecycle_step s (s\<lparr>mainpc := Exited 0, watcher := map_option Watcher_Close (watcher s), watching := False\<rparr>)"

inductive proc_step :: "(string \<Rightarrow> segment list option) \<Rightarrow> Proc \<Rightarrow> Proc \<Rightarrow> bool"
  for other where
  life: "lifecycle_step s t \<Longrightarrow> proc_step other s t"
| watched: "alive s \<Longrightarrow> proc_step other s (file_event other now h r s)"

inductive_simps proc_step_simps: "proc_step other s t"

definition proc_init :: "(string \<Rightarrow> segment list option) \<Rightarrow> Proc \<Rightarrow> bool" where
  "proc_init other s \<longleftrightarrow> (\<exists>e configPath cfg lg. startup other e configPath False = Serve cfg lg s)"

section \<open>Invariant\<close>

text \<open>A router built from a configuration that was loaded, hence validated.\<close>

definition from_valid :: "(string \<Rightarrow> segment list option) \<Rightarrow> GatewayConfig \<Rightarrow> Router \<Rightarrow> bool" where
  "from_valid other cfg rt \<longleftrightarrow> (\<exists>parse now. valid_config parse cfg \<and> defaults_set cfg
     \<and> BuildRouter parse other now cfg = Inr rt)"

text \<open>The configuration delivered last, if any was.\<close>

definition newest :: "Proc \<Rightarrow> GatewayConfig \<Rightarrow> bool" where
  "newest s cfg \<longleftrightarrow> (case watcher s of None \<Rightarrow> True | Some w \<Rightarrow> delivered w \<noteq> [] \<longrightarrow> last (delivered w) = cfg)"

definition proc_inv :: "(string \<Rightarrow> segment list option) \<Rightarrow> Proc \<Rightarrow> bool" where
  "proc_inv other s \<longleftrightarrow>
     (\<exists>cfg. from_valid other cfg (srvHandler (server s)) \<and> (mainpc s \<noteq> Exited 2 \<longrightarrow> newest s cfg))
     \<and> (sigpc s \<noteq> Waiting \<longrightarrow> \<not> listening s)
     \<and> (listening s \<longrightarrow> mainpc s = Serving \<or> mainpc s = Exited 2)
     \<and> (mainpc s \<in> {Leaving, Exited 0} \<longrightarrow> sigpc s \<noteq> Waiting)
     \<and> (mainpc s = Serving \<and> sigpc s = Waiting \<longrightarrow> listening s)"

lemma loaded_from_valid:
  assumes "Load h path = Inr cfg" and "BuildRouter (url_Parse h) other now cfg = Inr rt"
  shows "from_valid other cfg rt"
  using assms defaults_set_ApplyDefaults unfolding from_valid_def Load_ok_iff by blast

lemma startup_Serve:
  assumes "startup other e configPath version = Serve cfg lg s"
  shows "Load (meHost e) (config_path configPath) = Inr cfg"
    and "BuildRouter (url_Parse (meHost e)) other (meNow e) cfg = Inr (srvHandler (server s))"
    and "listening s" "mainpc s = Serving" "sigpc s = Waiting" "inflight s = 0"
    and "watcher s = Some w \<Longrightarrow> delivered w = []"
  using assms by (auto simp: startup_def New_def NewWatcher_def Let_def split: if_splits sum.splits option.splits)

lemma proc_inv_init:
  assumes "proc_init other s"
  shows "proc_inv other s"
proof -
  obtain e p cfg lg where st: "startup other e p False = Serve cfg lg s"
    using assms by (auto simp: proc_init_def)
  note S = startup_Serve [OF st]
  have "from_valid other cfg (srvHandler (server s))" using S(1,2) by (rule loaded_from_valid)
  moreover have "newest s cfg" using S(7) by (auto simp: newest_def split: option.splits)
  ultimately show ?thesis using S(3-5) by (auto simp: proc_inv_def)
qed

lemma plog_to_frame [simp]:
  "server (plog_to l m as s) = server s" "watcher (plog_to l m as s) = watcher s"
  "watching (plog_to l m as s) = watching s" "inflight (plog_to l m as s) = inflight s"
  "listening (plog_to l m as s) = listening s" "mainpc (plog_to l m as s) = mainpc s"
  "sigpc (plog_to l m as s) = sigpc s" "newest (plog_to l m as s) = newest s"
  by (simp_all add: plog_to_def newest_def fun_eq_iff)

lemma Server_Shutdown_frame [simp]:
  "server (Server_Shutdown s) = server s" "watcher (Server_Shutdown s) = watcher s"
  "inflight (Server_Shutdown s) = inflight s" "\<not> listening (Server_Shutdown s)"
  "mainpc (Server_Shutdown s) = mainpc s" "sigpc (Server_Shutdown s) = Draining"
  "newest (Server_Shutdown s) = newest s"
  by (simp_all add: Server_Shutdown_def newest_def fun_eq_iff)

lemma newest_frame [simp]:
  "newest (s\<lparr>inflight := a\<rparr>) = newest s" "newest (s\<lparr>sigpc := b\<rparr>) = newest s" "newest (s\<lparr>mainpc := c\<rparr>) = newest s"
  "newest (s\<lparr>listening := d\<rparr>) = newest s"
  by (simp_all add: newest_def fun_eq_iff)

lemma newest_closed:
  "newest (s\<lparr>mainpc := c, watcher := map_option Watcher_Close (watcher s), watching := b\<rparr>) = newest s"
  by (simp add: newest_def fun_eq_iff Watcher_Close_def split: option.splits)

lemma proc_inv_life:
  assumes "lifecycle_step s t" and "proc_inv other s"
  shows "proc_inv other t"
  using assms
proof cases
  case accept
  with assms(2) show ?thesis by (auto simp: proc_inv_def)
next
  case (finish n)
  with assms(2) show ?thesis by (simp add: proc_inv_def)
next
  case signalled
  with assms(2) show ?thesis by (simp add: proc_inv_def)
next
  case drained
  with assms(2) show ?thesis by (simp add: proc_inv_def)
next
  case drain_deadline
  with assms(2) show ?thesis by (simp add: proc_inv_def)
next
  case start_returns
  with assms(2) show ?thesis by (auto simp: proc_inv_def)
next
  case (start_fails e err)
  with assms(2) show ?thesis by (simp add: proc_inv_def)
next
  case main_returns
  with assms(2) show ?thesis by (simp add: proc_inv_def newest_closed)
qed

text \<open>One turn of the watcher delivers a loaded configuration, or none.\<close>

lemma watch_turn_delivers:
  assumes "watch_turn h r w = (w', go)"
  shows "delivered w' = delivered w \<or> (\<exists>cfg. Load h (wpath w) = Inr cfg \<and> delivered w' = delivered w @ [cfg])"
  using assms by (auto simp: watch_turn_def reload_def split: received.splits if_splits sum.splits)

lemma file_event_cases:
  obtains (same) "server (file_event other now h r s) = server s" "mainpc (file_event other now h r s) = mainpc s"
      "newest (file_event other now h r s) = newest s"
  | (swapped) cfg where "from_valid other cfg (srvHandler (server (file_event other now h r s)))"
      "newest (file_event other now h r s) cfg" "mainpc (file_event other now h r s) = mainpc s"
  | (crashed) "server (file_event other now h r s) = server s" "mainpc (file_event other now h r s) = Exited 2"
proof (cases "watcher s")
  case None
  then show ?thesis using same by (simp add: file_event_def)
next
  case (Some w)
  obtain w' go where turn: "watch_turn h r w = (w', go)" by fastforce
  consider "\<not> watching s" | "watching s" "delivered w' = delivered w"
    | cfg where "watching s" "Load h (wpath w) = Inr cfg" "delivered w' = delivered w @ [cfg]"
    using watch_turn_delivers [OF turn] by blast
  then show ?thesis
  proof cases
    case 1
    then show ?thesis using same Some by (simp add: file_event_def)
  next
    case 2
    then show ?thesis using same Some turn by (simp add: file_event_def newest_def fun_eq_iff)
  next
    case 3
    let ?s = "s\<lparr>watcher := Some w', watching := go\<rparr>"
    have e: "file_event other now h r s = on_reload (url_Parse h) other now cfg ?s"
      using 3 Some turn by (simp add: file_event_def)
    show ?thesis
    proof (cases "BuildRouter (url_Parse h) other now cfg")
      case (Inl p)
      then show ?thesis using crashed by (simp add: e on_reload_def Let_def)
    next
      case (Inr rt)
      then show ?thesis
        using swapped [of cfg] loaded_from_valid [OF 3(2) Inr] 3(3)
        by (simp add: e on_reload_def Let_def SetHandler_def newest_def)
    qed
  qed
qed

lemma file_event_frame [simp]:
  "listening (file_event other now h r s) = listening s" "sigpc (file_event other now h r s) = sigpc s"
  "inflight (file_event other now h r s) = inflight s"
  by (simp_all add: file_event_def on_reload_def Let_def split: option.splits prod.splits list.splits sum.splits)

lemma proc_inv_file:
  assumes "proc_inv other s" and "alive s"
  shows "proc_inv other (file_event other now h r s)"
proof (cases rule: file_event_cases [of other now h r s])
  case same
  with assms(1) show ?thesis by (simp add: proc_inv_def)
next
  case (swapped cfg)
  with assms(1) show ?thesis by (auto simp: proc_inv_def)
next
  case crashed
  with assms(1) show ?thesis by (auto simp: proc_inv_def)
qed

interpretation process: step_system "proc_init other" "proc_step other" "proc_inv other"
  by unfold_locales (auto simp: proc_step_simps intro: proc_inv_init proc_inv_life proc_inv_file)

section \<open>Properties\<close>


text \<open>
  C40. Shutdown is not graceful: \<open>main\<close> does not wait for \<open>Shutdown\<close> to return. From any
  serving state, with however many requests in flight, the process can exit with code 0 right
  after a signal while every one of them is unfinished and the signal goroutine is still draining.
\<close>

theorem shutdown_abandons_requests:
  assumes "mainpc s = Serving" and "sigpc s = Waiting"
  shows "\<exists>t. (proc_step other)\<^sup>*\<^sup>* s t \<and> mainpc t = Exited 0 \<and> sigpc t = Draining \<and> inflight t = inflight s"
proof -
  define s1 where "s1 = Server_Shutdown (plog_to LevelInfo ''shutdown signal received'' [(''signal'', AString ''terminated'')] s)"
  define s2 where "s2 = plog_to LevelInfo ''server stopped gracefully'' [] (s1\<lparr>mainpc := Leaving\<rparr>)"
  define s3 where "s3 = s2\<lparr>mainpc := Exited 0, watcher := map_option Watcher_Close (watcher s2), watching := False\<rparr>"
  have "lifecycle_step s s1" unfolding s1_def using assms by (intro signalled) (auto simp: alive_def)
  moreover have "lifecycle_step s1 s2"
    unfolding s2_def using assms by (intro start_returns) (auto simp: s1_def start_result_def)
  moreover have "lifecycle_step s2 s3" unfolding s3_def by (intro main_returns) (auto simp: s2_def)
  ultimately have "(proc_step other)\<^sup>*\<^sup>* s s3"
    by (meson life converse_rtranclp_into_rtranclp rtranclp.rtrancl_refl)
  moreover have "mainpc s3 = Exited 0" "sigpc s3 = Draining" "inflight s3 = inflight s"
    by (simp_all add: s3_def s2_def s1_def)
  ultimately show ?thesis by blast
qed

text \<open>
  C28. The port set in the environment comes out again in the listening address: for every
  non-zero port, a gateway started with the port's decimal text in \<open>GATEFORGE_PORT\<close> listens on
  a colon followed by that text, from which the port can be read back.
\<close>

theorem port_variable_roundtrip:
  assumes "startup other e configPath version = Serve cfg lg s"
    and "Getenv (meHost e) ''GATEFORGE_PORT'' = Itoa port" and "in_int64 port" and "port \<noteq> 0"
  shows "srvAddr (server s) = '':'' @ Getenv (meHost e) ''GATEFORGE_PORT''
     \<and> Atoi (tl (srvAddr (server s))) = Some port"
proof -
  obtain raw where "cfg = ApplyDefaults (applyEnvOverrides (meHost e) raw)"
    using startup_Serve(1) [OF assms(1)] by (auto simp: Load_ok_iff)
  then have "scPort (Server cfg) = port"
    using applyEnvOverrides_port [OF assms(2,3), of raw] assms(4) by (simp add: ApplyDefaults_def default_server_def)
  moreover have "srvAddr (server s) = '':'' @ Itoa (scPort (Server cfg))"
    using assms(1) by (auto simp: startup_def New_def Let_def split: if_splits sum.splits)
  ultimately show ?thesis using assms(2,3) by (simp add: Atoi_Itoa)
qed

section \<open>Termination of a shutdown\<close>

text \<open>What is left to do once a shutdown has begun: every step takes some of it.\<close>

definition shutdown_work :: "Proc \<Rightarrow> nat" where
  "shutdown_work s = inflight s
     + (case sigpc s of Waiting \<Rightarrow> 2 | Draining \<Rightarrow> 1 | Drained \<Rightarrow> 0)
     + (case mainpc s of Serving \<Rightarrow> 2 | Leaving \<Rightarrow> 1 | Exited _ \<Rightarrow> 0)"

definition stopping :: "Proc \<Rightarrow> bool" where
  "stopping s \<longleftrightarrow> sigpc s \<noteq> Waiting \<and> \<not> listening s \<and> mainpc s \<in> {Serving, Leaving, Exited 0}"

lemma stopping_step:
  assumes "lifecycle_step s t" and "stopping s"
  shows "stopping t \<and> shutdown_work t < shutdown_work s"
  using assms
  by cases (auto simp: stopping_def shutdown_work_def alive_def split: main_pc.splits)

lemma stopping_steps:
  assumes "(lifecycle_step ^^ n) s t" and "stopping s"
  shows "stopping t \<and> shutdown_work t + n \<le> shutdown_work s"
  using assms
proof (induction n arbitrary: t)
  case (Suc n)
  then obtain u where "(lifecycle_step ^^ n) s u" "lifecycle_step u t" by auto
  with Suc.IH Suc.prems(2) stopping_step show ?case by fastforce
qed simp

lemma stopping_stuck:
  assumes "stopping s" and "\<nexists>u. lifecycle_step s u"
  shows "mainpc s = Exited 0"
proof (rule ccontr)
  assume "mainpc s \<noteq> Exited 0"
  with assms(1) consider "mainpc s = Serving" "\<not> listening s" | "mainpc s = Leaving"
    by (auto simp: stopping_def)
  then show False
  proof cases
    case 1
    then show False using assms(2) start_returns [of s] by (auto simp: start_result_def)
  next
    case 2
    then show False using assms(2) main_returns [of s] by auto
  qed
qed


section \<open>Instances\<close>

definition sample_env :: main_env where
  "sample_env = \<lparr>meHost = sample_host, meVersion = ''dev'', meNow = 0, fsNew = None, fsAdd = None\<rparr>"

lemma sample_built:
  "case BuildRouter (url_Parse sample_host) (\<lambda>_. None) 0 sample_loaded of Inr _ \<Rightarrow> True | Inl _ \<Rightarrow> False"
  by code_simp

lemma sample_process: "\<exists>s. proc_init (\<lambda>_. None) s"
proof -
  obtain rt where rt: "BuildRouter (url_Parse sample_host) (\<lambda>_. None) 0 sample_loaded = Inr rt"
    using sample_built by (auto split: sum.splits)
  have "\<exists>s. startup (\<lambda>_. None) sample_env (Some ''gw.yaml'') False =
      Serve sample_loaded (NewLogger (Logging sample_loaded)) s"
    using rt sample_load by (simp add: startup_def sample_env_def config_path_def NewWatcher_def Let_def)
  then show ?thesis unfolding proc_init_def by blast
qed


lemma sample_busy: "\<exists>s t. proc_init (\<lambda>_. None) s \<and> (proc_step (\<lambda>_. None))\<^sup>*\<^sup>* s t \<and> mainpc t = Serving
    \<and> sigpc t = Waiting \<and> inflight t = 1"
proof -
  obtain s where s: "proc_init (\<lambda>_. None) s" using sample_process by blast
  then have st: "mainpc s = Serving" "sigpc s = Waiting" "listening s" "inflight s = 0"
    by (auto simp: proc_init_def dest: startup_Serve)
  then have "lifecycle_step s (s\<lparr>inflight := 1\<rparr>)" using accept [of s] by (simp add: alive_def)
  then have "(proc_step (\<lambda>_. None))\<^sup>*\<^sup>* s (s\<lparr>inflight := 1\<rparr>)" by (blast intro: life)
  moreover have "mainpc (s\<lparr>inflight := 1\<rparr>) = Serving" "sigpc (s\<lparr>inflight := 1\<rparr>) = Waiting"
    "inflight (s\<lparr>inflight := 1\<rparr>) = 1" using st by simp_all
  ultimately show ?thesis using s by blast
qed

theorem shutdown_abandons_requests_witness:
  "\<exists>s t. proc_init (\<lambda>_. None) s \<and> (proc_step (\<lambda>_. None))\<^sup>*\<^sup>* s t \<and> mainpc t = Exited 0 \<and> inflight t = 1"
proof -
  obtain s t where s: "proc_init (\<lambda>_. None) s" "(proc_step (\<lambda>_. None))\<^sup>*\<^sup>* s t" "mainpc t = Serving"
    "sigpc t = Waiting" "inflight t = 1"
    using sample_busy by blast
  from shutdown_abandons_requests [OF s(3,4)] s(1,2,5) show ?thesis by (metis rtranclp_trans)
qed


definition port_host :: host where
  "port_host = sample_host\<lparr>Getenv := (\<lambda>v. if v = ''GATEFORGE_PORT'' then ''9090'' else Getenv sample_host v)\<rparr>"

lemma port_load:
  "Load port_host ''gw.yaml'' = Inr (sample_loaded\<lparr>Server := (Server sample_loaded)\<lparr>scPort := 9090\<rparr>\<rparr>)"
proof -
  have x: "os_Expand (Getenv port_host) ''routes'' = ''routes''" by (rule os_Expand_plain) simp
  have a: "Atoi ''9090'' = Some 9090" by code_simp
  have c: "ApplyDefaults (applyEnvOverrides port_host sample_raw) = sample_loaded\<lparr>Server := (Server sample_loaded)\<lparr>scPort := 9090\<rparr>\<rparr>"
    by (simp add: applyEnvOverrides_def env_defs port_host_def sample_host_def sample_loaded_def ApplyDefaults_def
        default_server_def a Let_def)
  have "valid_config (url_Parse sample_host) sample_loaded" using Load_valid [OF sample_load] .
  then have "valid_config (url_Parse port_host) (ApplyDefaults (applyEnvOverrides port_host sample_raw))"
    unfolding c by (simp add: valid_config_def port_host_def)
  then have "\<exists>data raw. ReadFile port_host ''gw.yaml'' = Inr data \<and> Unmarshal port_host (os_Expand (Getenv port_host) data) = Inr raw
      \<and> ApplyDefaults (applyEnvOverrides port_host sample_raw) = ApplyDefaults (applyEnvOverrides port_host raw)
      \<and> valid_config (url_Parse port_host) (ApplyDefaults (applyEnvOverrides port_host sample_raw))"
    using x by (intro exI [of _ "''routes''"] exI [of _ sample_raw]) (simp add: port_host_def sample_host_def)
  then show ?thesis unfolding c [symmetric] Load_ok_iff by blast
qed

theorem port_variable_roundtrip_witness:
  "\<exists>cfg lg s. startup (\<lambda>_. None) (sample_env\<lparr>meHost := port_host\<rparr>) (Some ''gw.yaml'') False = Serve cfg lg s
     \<and> srvAddr (server s) = '':9090''"
proof -
  define cfg where "cfg = sample_loaded\<lparr>Server := (Server sample_loaded)\<lparr>scPort := 9090\<rparr>\<rparr>"
  have same: "Metrics cfg = Metrics sample_loaded" "Routes cfg = Routes sample_loaded" "url_Parse port_host = url_Parse sample_host"
    by (simp_all add: cfg_def port_host_def)
  have "BuildRouter (url_Parse port_host) (\<lambda>_. None) 0 cfg = BuildRouter (url_Parse sample_host) (\<lambda>_. None) 0 sample_loaded"
    unfolding BuildRouter_def same ..
  then obtain rt where rt: "BuildRouter (url_Parse port_host) (\<lambda>_. None) 0 cfg = Inr rt"
    using sample_built by (auto split: sum.splits)
  have load: "Load port_host ''gw.yaml'' = Inr cfg" using port_load by (simp add: cfg_def)
  have "\<exists>s. startup (\<lambda>_. None) (sample_env\<lparr>meHost := port_host\<rparr>) (Some ''gw.yaml'') False = Serve cfg (NewLogger (Logging cfg)) s"
    using rt load by (simp add: startup_def sample_env_def config_path_def NewWatcher_def Let_def)
  then obtain s where s: "startup (\<lambda>_. None) (sample_env\<lparr>meHost := port_host\<rparr>) (Some ''gw.yaml'') False =
      Serve cfg (NewLogger (Logging cfg)) s"
    by blast
  have "char_of (57 :: nat) = CHR ''9''" "char_of (48 :: nat) = CHR ''0''" by code_simp+
  then have "Getenv port_host ''GATEFORGE_PORT'' = Itoa 9090"
    by (simp add: port_host_def Itoa_def digit_char_def nat_digits.simps)
  moreover have "in_int64 9090" by (simp add: in_int64_def min_int64_def max_int64_def)
  ultimately show ?thesis
    using port_variable_roundtrip [OF s, of 9090] s by (simp add: port_host_def)
qed

end
