(* ===== verification/Domain_Route.thy ===== *)
theory Domain_Route
  imports Go_Strings Config
begin

text \<open>
  The route type of \<open>internal/domain/route.go\<close> and its own validation. No other package uses
  it; the gateway validates its configuration with \<open>GatewayConfig.Validate\<close>. A nil URL
  pointer is \<open>None\<close>.
\<close>

record domain_Target =
  dtURL :: "URL option"
  dtWeight :: int

record Route =
  rPath :: string
  rMethods :: "string list"
  rTargets :: "domain_Target list"
  rBalanceStrategy :: string
  rStripPrefix :: bool
  rTimeout :: Duration
  rHasRateLimit :: bool
  rRPS :: float64
  rBurst :: int
  rHasCircuitBreak :: bool
  rFailThreshold :: int
  rResetTimeout :: Duration
  rHalfOpenMaxReqs :: int

definition known_methods :: "string list" where
  "known_methods = [''GET'', ''POST'', ''PUT'', ''DELETE'', ''PATCH'', ''HEAD'', ''OPTIONS'']"

definition domain_target_errs :: "nat \<Rightarrow> domain_Target \<Rightarrow> string list" where
  "domain_target_errs i t =
     err_if (dtURL t = None) (''target['' @ Itoa (int i) @ '']: URL is nil'')
     @ err_if (dtWeight t < 0) (''target['' @ Itoa (int i) @ '']: weight must be >= 0'')"

definition domain_errs :: "Route \<Rightarrow> string list" where
  "domain_errs r =
     err_if (rPath r = []) ''path is required''
     @ err_if (rPath r \<noteq> [] \<and> \<not> HasPrefix (rPath r) ''/'') ''path must start with /''
     @ err_if (rTargets r = []) ''at least one target is required''
     @ concat (map (\<lambda>(i, t). domain_target_errs i t) (enumerate 0 (rTargets r)))
     @ concat (map (\<lambda>m. err_if (m \<notin> set known_methods) (''unsupported method: '' @ m)) (rMethods r))
     @ err_if (rBalanceStrategy r \<notin> {[], ''round-robin'', ''weighted''})
         (''unsupported balance strategy: '' @ rBalanceStrategy r)
     @ err_if (rTimeout r < 0) ''timeout must be >= 0''"

definition Route_Validate :: "Route \<Rightarrow> string option" where
  "Route_Validate r =
     (let errs = domain_errs r; sep = CHR 0x0A # ''  ''
      in if errs \<noteq> [] then Some (''route validation failed:'' @ sep @ Join errs sep) else None)"

lemma domain_target_errs_Nil: "domain_target_errs i t = [] \<longleftrightarrow> dtURL t \<noteq> None \<and> 0 \<le> dtWeight t"
  by (auto simp: domain_target_errs_def)

text \<open>A route passes exactly when each of its parts is in order.\<close>

lemma Route_Validate_None_iff:
  "Route_Validate r = None \<longleftrightarrow>
     (\<exists>rest. rPath r = ''/'' @ rest) \<and> rTargets r \<noteq> []
     \<and> (\<forall>t \<in> set (rTargets r). dtURL t \<noteq> None \<and> 0 \<le> dtWeight t)
     \<and> set (rMethods r) \<subseteq> set known_methods
     \<and> rBalanceStrategy r \<in> {[], ''round-robin'', ''weighted''} \<and> 0 \<le> rTimeout r"
proof -
  have t: "concat (map (\<lambda>(i, t). domain_target_errs i t) (enumerate 0 (rTargets r))) = []
      \<longleftrightarrow> (\<forall>t \<in> set (rTargets r). dtURL t \<noteq> None \<and> 0 \<le> dtWeight t)"
    by (simp only: concat_enumerate_Nil domain_target_errs_Nil) (metis in_set_conv_nth)
  have m: "concat (map (\<lambda>m. err_if (m \<notin> set known_methods) (''unsupported method: '' @ m)) (rMethods r)) = []
      \<longleftrightarrow> set (rMethods r) \<subseteq> set known_methods"
    by (auto simp: err_if_def)
  have "domain_errs r = [] \<longleftrightarrow>
     (\<exists>rest. rPath r = ''/'' @ rest) \<and> rTargets r \<noteq> []
     \<and> (\<forall>t \<in> set (rTargets r). dtURL t \<noteq> None \<and> 0 \<le> dtWeight t)
     \<and> set (rMethods r) \<subseteq> set known_methods
     \<and> rBalanceStrategy r \<in> {[], ''round-robin'', ''weighted''} \<and> 0 \<le> rTimeout r"
    unfolding domain_errs_def append_is_Nil_conv err_if_Nil t m HasPrefix_iff by auto
  then show ?thesis by (simp add: Route_Validate_def Let_def)
qed

end
