(* ===== verification/Upstream.thy ===== *)
theory Upstream
  imports Mux Go_Float64
begin

text \<open>
  The demo upstream, \<open>cmd/upstream/main.go\<close>: a server that answers after a random delay and
  fails a fraction of the requests. The two random draws of a request are arguments; a handler
  returns how long it slept beside the outcome and the writer.
\<close>

record upstream_flags =
  ufPort :: int
  ufName :: string
  ufErrorRate :: float64
  ufMinLatency :: int
  ufMaxLatency :: int

definition default_flags :: upstream_flags where
  "default_flags = \<lparr>ufPort = 3001, ufName = ''upstream-1'', ufErrorRate = to_f64 (5 / 100),
     ufMinLatency = 10, ufMaxLatency = 200\<rparr>"

record draws =
  drawIntn :: "int \<Rightarrow> int"
  drawFloat64 :: float64

text \<open>\<open>rand.Intn\<close> panics for an argument that is not positive.\<close>

definition draw_latency :: "upstream_flags \<Rightarrow> draws \<Rightarrow> int option" where
  "draw_latency f d =
     (let n = wrap64 (wrap64 (ufMaxLatency f - ufMinLatency f) + 1)
      in if n \<le> 0 then None else Some (wrap64 (ufMinLatency f + drawIntn d n)))"

definition time_Millisecond :: Duration where
  "time_Millisecond = 1000000"

definition upstream_root ::
  "(string \<Rightarrow> string) \<Rightarrow> upstream_flags \<Rightarrow> draws \<Rightarrow> Request \<Rightarrow> writer \<Rightarrow> outcome \<times> writer \<times> Duration" where
  "upstream_root uni f d r w =
     (case draw_latency f d of
        None \<Rightarrow> (Panicked ''invalid argument to Intn'', w, 0)
      | Some latency \<Rightarrow>
          (let slept = wrap64 (latency * time_Millisecond);
               w = set_header ''Content-Type'' ''application/json'' w
           in if drawFloat64 d < ufErrorRate f then
                (Returned, Encode uni (JObject [(''error'', JString ''simulated upstream error''), (''server'', JString (ufName f))])
                   (snd (WriteHeader 500 w)), slept)
              else
                (Returned, Encode uni (JObject
                   [(''headers'', JObject [(''X-Forwarded-For'', JString (Header_Get (ReqHeader r) ''X-Forwarded-For'')),
                      (''X-Request-ID'', JString (Header_Get (ReqHeader r) ''X-Request-ID''))]),
                    (''latency'', JString (Itoa latency @ ''ms'')), (''method'', JString (Method r)),
                    (''path'', JString (URL_Path r)), (''server'', JString (ufName f))]) w, slept)))"

definition upstream_health :: "writer \<Rightarrow> outcome \<times> writer \<times> Duration" where
  "upstream_health w =
     (Returned, snd (Write ([CHR 0x7B, CHR 0x22] @ ''status'' @ [CHR 0x22, CHR 0x3A, CHR 0x22] @ ''healthy'' @ [CHR 0x22, CHR 0x7D])
        (snd (WriteHeader 200 (set_header ''Content-Type'' ''application/json'' w)))), 0)"

datatype upstream_endpoint = RootEp | UpHealthEp

definition upstream_mux :: "string + upstream_endpoint mux" where
  "upstream_mux = (case Handle (\<lambda>_. None) ''/'' RootEp [] of
       Inl p \<Rightarrow> Inl p | Inr m \<Rightarrow> Handle (\<lambda>_. None) ''/health'' UpHealthEp m)"

definition upstream_addr :: "upstream_flags \<Rightarrow> string" where
  "upstream_addr f = '':'' @ Itoa (ufPort f)"

section \<open>Facts\<close>

text \<open>A health probe reaches the health endpoint, any other request the root.\<close>

lemma upstream_mux_health:
  "case upstream_mux of Inr m \<Rightarrow> findHandler ''u'' ''GET'' ''/health'' m = Found \<lparr>pMethod = [], pHost = [], pSegs = [Lit ''health'']\<rparr> UpHealthEp
       \<and> findHandler ''u'' ''GET'' ''/api'' m = Found \<lparr>pMethod = [], pHost = [], pSegs = [Multi]\<rparr> RootEp
     | Inl _ \<Rightarrow> False"
  by code_simp

text \<open>The delay lies between the two bounds, and the status says whether the request was failed.\<close>

lemma upstream_root_answers:
  assumes "0 \<le> ufMinLatency f" and "ufMinLatency f \<le> ufMaxLatency f" and "ufMaxLatency f < max_int64"
    and "0 \<le> drawIntn d (ufMaxLatency f - ufMinLatency f + 1)"
    and "drawIntn d (ufMaxLatency f - ufMinLatency f + 1) \<le> ufMaxLatency f - ufMinLatency f"
    and "\<not> wroteHeader (base_of w)"
  shows "\<exists>l w'. draw_latency f d = Some l \<and> ufMinLatency f \<le> l \<and> l \<le> ufMaxLatency f
    \<and> upstream_root uni f d r w = (Returned, w', wrap64 (l * time_Millisecond))
    \<and> final_status (base_of w') = (if drawFloat64 d < ufErrorRate f then 500 else 200)"
proof -
  have r: "in_int64 (ufMaxLatency f - ufMinLatency f)" "in_int64 (ufMaxLatency f - ufMinLatency f + 1)"
    "in_int64 (ufMinLatency f + drawIntn d (ufMaxLatency f - ufMinLatency f + 1))"
    using assms(1-5) by (auto simp: in_int64_def min_int64_def max_int64_def)
  then have l: "draw_latency f d = Some (ufMinLatency f + drawIntn d (ufMaxLatency f - ufMinLatency f + 1))"
    using assms(2) by (simp add: draw_latency_def Let_def)
  show ?thesis
    using assms l by (auto simp: upstream_root_def Let_def Encode_base WriteHeader_base set_header_base resp_WriteHeader_def
        resp_Write_def final_status_def bodyAllowed_def)
qed

end
