(* ===== verification/Spec2Isabelle.thy ===== *)
theory Spec2Isabelle
  imports Circuit_Interleaving Traffic Gateway Domain_Route Upstream
begin

text \<open>
  \<^bold>\<open>GateForge\<close>, an HTTP API gateway in Go, modelled and verified as a library of theories.

  \<^bold>\<open>The program.\<close> \<open>cmd/gateforge/main.go\<close> loads a YAML configuration
  (\<open>internal/config\<close>), builds a router (\<open>internal/server/router.go\<close>) and serves it
  (\<open>internal/server/server.go\<close>); a watcher on the configuration file rebuilds the router on
  change. A route is a stack of middleware (\<open>internal/middleware\<close>: recovery, request
  identifiers, logging, metrics, CORS, rate limiting, circuit breaking) around a proxy
  (\<open>internal/proxy\<close>), which asks a load balancer (\<open>internal/balancer\<close>) for a target. The
  rate limiter is a store of token buckets (\<open>internal/ratelimit\<close>), the circuit breaker a
  three-state machine (\<open>internal/circuit\<close>), and a health checker per route probes the targets
  and tells the balancer. \<open>internal/observability\<close> holds context keys, the logger and the
  metrics, \<open>internal/domain\<close> a route type no other package uses, and \<open>cmd/upstream\<close> a demo
  server.

  \<^bold>\<open>The theories\<close>, bottom up, with the sources they model.

  \<^item> \<open>Prelude\<close>: Go's 64-bit integers with wrap-around (\<open>wrap64\<close>), instants and durations in
    nanoseconds, log records, the outcome of a call that may panic, and the two generic interfaces
    of a state machine: \<open>operations\<close> (deterministic) and \<open>step_system\<close> (a step relation), each
    with the lemma that an invariant kept by the steps holds in every reachable state.
  \<^item> \<open>Circuit\<close>: \<open>circuit/breaker.go\<close> and \<open>state.go\<close>. One function per critical section on the
    record \<open>CircuitBreaker\<close>; the in-place compaction of the failure window is modelled on the
    shared array. Shown: when the breaker opens, blocks, probes and closes, its invariant
    (interpretation \<open>breaker_ops\<close>), and that its states are a run of the documented machine.
  \<^item> \<open>Circuit_Interleaving\<close>: concurrent \<open>Execute\<close> calls as a step relation whose steps are the
    critical sections. Shown: exact statistics, the bound on half-open probes, and the state a
    breaker does not leave when the probes panic (interpretation \<open>interleaving\<close>).
  \<^item> \<open>Go_Float\<close>, \<open>Go_Float64\<close>: IEEE binary64 with round-to-nearest-even over the rationals,
    infinities and NaN; the locale \<open>rounding\<close> holds the error bounds, interpreted on the
    rounding function itself. The conversion of a float out of the integer range is
    implementation-defined in Go and is the argument \<open>impl\<close>.
  \<^item> \<open>Token_Bucket\<close>, \<open>Rate_Limiter\<close>: \<open>ratelimit/token_bucket.go\<close>, \<open>store.go\<close>,
    \<open>limiter.go\<close>. Buckets per client with float refill, the cleanup pass, the store interface.
    Shown: a client's rate bound with explicit rounding terms, the exact burst, that
    \<open>Retry-After\<close> suffices, isolation of clients, and when cleanup is unobservable.
  \<^item> \<open>Go_Strings\<close>: the functions of \<open>strings\<close>, \<open>strconv\<close> and \<open>os.Expand\<close> the code uses.
  \<^item> \<open>Config\<close>, \<open>Loader\<close>: \<open>config/config.go\<close>, \<open>loader.go\<close>, \<open>watcher.go\<close>. Defaults,
    validation with every message, environment overrides, loading, and the watcher's loop over what
    it receives. Shown: validation accepts exactly the well-formed configurations, every outcome of
    \<open>Load\<close> is classified, and the callback gets exactly the configurations loaded in order.
  \<^item> \<open>Balancer\<close>: the locale \<open>balancer\<close>, the contract a strategy owes its clients (what
    \<open>Next\<close> returns is a healthy target, it fails only when none is, the statuses change only by
    \<open>SetHealthy\<close>), with the lemmas about histories of requests and health updates.
    \<open>Round_Robin\<close>, \<open>Weighted\<close> and \<open>Balancing\<close> (\<open>balancer/roundrobin.go\<close>,
    \<open>weighted.go\<close>, \<open>balancer.go\<close>) interpret it; \<open>Weighted\<close> has a second locale,
    \<open>smooth_scheduler\<close>, for the smooth weighted scheme. Shown: fairness, exact weighted shares
    and their smoothness, and service by healthy targets only.
  \<^item> \<open>Health\<close>: \<open>balancer/health.go\<close>. Rounds of probes; shown: the failure threshold is exact
    for checker and balancer alike.
  \<^item> \<open>Http\<close>, \<open>Observability\<close>: headers, requests, context values, the response writer of the
    server and the status-capturing wrapper of \<open>middleware/logging.go\<close>, JSON bodies, logger and
    metric descriptions.
  \<^item> \<open>Middleware\<close>, \<open>Proxy\<close>, \<open>Request_Path\<close>: handlers are functions on a request, a
    response writer and the state \<open>World\<close>, and return how they ended (a panic is a value);
    \<open>route_handler\<close> composes them as \<open>BuildRouter\<close> does. The locale \<open>handler_relation\<close>
    carries a relation on states through the whole stack from the elementary effects; it is
    interpreted for the active-request gauge, the metric labels and the balancers' targets.
    Shown: what is not forwarded, that at most one request is, to whom and with which headers, that
    every request is answered, and what the breaker counts.
  \<^item> \<open>Mux\<close>: the part of \<open>http.ServeMux\<close> the router uses: patterns, conflicts, the routing
    tree and the choice of a handler. The locale \<open>dispatcher\<close> says that the choice is the most
    specific matching pattern; the tree search is its interpretation.
  \<^item> \<open>Router\<close>, \<open>Routing\<close>: \<open>server/router.go\<close>. What \<open>BuildRouter\<close> makes for each route,
    when it panics, and that mux and registered patterns implement longest-prefix routing.
  \<^item> \<open>Traffic\<close>: the gateway as one handler over histories of requests and health updates; every
    upstream request goes to a target of the route that owns the request.
  \<^item> \<open>Gateway\<close>: \<open>server/server.go\<close> and \<open>cmd/gateforge/main.go\<close>. Start-up with its exits, and
    the goroutines of the running process as a step relation. Shown: the served router is built
    from the newest valid configuration, a shutdown terminates, and it does not wait for requests.
  \<^item> \<open>Domain_Route\<close>, \<open>Upstream\<close>: \<open>domain/route.go\<close> and \<open>cmd/upstream/main.go\<close>.

  \<^bold>\<open>How state and effects correspond.\<close> A struct is a record with the same fields, a
  method a function from the old record to the result and the new record, a mutex-protected section
  one step. An error is a value, a Go panic is \<open>FnPanic\<close>, \<open>Panicked\<close> or \<open>Inl\<close>. Objects
  that the routes own (stores, breakers, balancers) sit in the state under the number of the route.
  A clock reading is an argument of the function that makes it; two readings in one function are
  two arguments. There is no fuel: every loop of the code is a structural recursion or a function
  with a termination proof, and the loops that run for ever (watcher, health checker, cleanup) are
  recursions over the finite sequence of what they receive.

  \<^bold>\<open>Parameters\<close>, for code outside the repository: \<open>url.Parse\<close>, the YAML decoder, the file
  system and environment (record \<open>host\<close>), the outcomes of \<open>fsnotify\<close> calls, probes over the
  network, the upstream's answers and the removal of hop-by-hop headers (fields of \<open>World\<close>),
  \<open>uuid.NewV7\<close>, Unicode case mapping and JSON rendering outside ASCII, patterns with braces, and
  the library's own replies (record \<open>library\<close>). Where a property relies on one of them the
  hypothesis is in its statement and its witness instantiates the parameter.

  \<^bold>\<open>Not modelled.\<close> Formatting and output of log records (\<open>log/slog\<close>), aggregation and
  exposition of metrics (Prometheus client, \<open>promhttp\<close>), sockets, TLS and HTTP parsing
  (\<open>net/http\<close>), and the Go memory model: shared data is accessed only at the granularity of the
  code's locks, so a data race such as the unlocked read of the server's handler is not visible
  here. The health checkers, cleanup loops and stores of a replaced router keep running in the
  program; the model follows the router in use.
\<close>

end
